(* ===== verification/Prelude.thy ===== *)
theory Prelude
  imports Main "HOL-Library.Word" "HOL-Library.Multiset"
begin

unbundle bit_operations_syntax

text \<open>
  What the component theories share: the names of the machine integer types, the Rust standard
  library operations the crates use (saturating arithmetic, iterator adaptors, slices of
  fixed-size arrays), the swap-remove loop that five tables of the router run on their live
  prefix, and the locale that states what a table keyed by node or packet promises.

  A Rust array with a length field (\<open>entries: [T; N], count: u8\<close>) is a list of fixed length
  together with a count; the live part of the table is \<open>take count entries\<close>. Array
  indices and counts are \<open>nat\<close>; each table's invariant bounds its count by the array's
  capacity, which is below the width of the Rust counter, so the counter never wraps.
\<close>

section \<open>Machine integers\<close>

type_synonym u8 = "8 word"
type_synonym u16 = "16 word"
type_synonym u32 = "32 word"
type_synonym u64 = "64 word"

named_theorems rust_arith \<open>unsigned readings of the Rust integer operations\<close>
named_theorems table_simps \<open>live prefixes of fixed-size arrays\<close>

text \<open>\<open>saturating_add\<close>, \<open>saturating_sub\<close> and \<open>saturating_mul\<close> of the unsigned types.\<close>

definition sat_add :: "'a::len word \<Rightarrow> 'a word \<Rightarrow> 'a word" where
  "sat_add a b = (if unat a + unat b < 2 ^ LENGTH('a) then a + b else - 1)"

definition sat_sub :: "'a::len word \<Rightarrow> 'a word \<Rightarrow> 'a word" where
  "sat_sub a b = (if b \<le> a then a - b else 0)"

definition sat_mul :: "'a::len word \<Rightarrow> 'a word \<Rightarrow> 'a word" where
  "sat_mul a b = (if unat a * unat b < 2 ^ LENGTH('a) then a * b else - 1)"

lemma unat_minus_one_word_eq [rust_arith]: "unat (- 1 :: 'a::len word) = 2 ^ LENGTH('a) - 1"
  by (simp add: unsigned_minus_1_eq_mask mask_eq_exp_minus_1)

lemma unat_sat_add [rust_arith]:
  fixes a b :: "'a::len word"
  shows "unat (sat_add a b) = min (unat a + unat b) (2 ^ LENGTH('a) - 1)"
  by (auto simp: sat_add_def unat_word_ariths rust_arith)

lemma unat_sat_sub [rust_arith]: "unat (sat_sub a b) = unat a - unat b"
  by (auto simp: sat_sub_def unat_sub word_le_nat_alt)

lemma unat_sat_mul [rust_arith]:
  fixes a b :: "'a::len word"
  shows "unat (sat_mul a b) = min (unat a * unat b) (2 ^ LENGTH('a) - 1)"
  by (auto simp: sat_mul_def unat_word_ariths rust_arith)

lemma word_le_max: "(a :: 'a::len word) \<le> - 1"
proof -
  have "unat a < 2 ^ LENGTH('a)" by (rule unsigned_less)
  then show ?thesis unfolding word_le_nat_alt unat_minus_one_word_eq by linarith
qed

lemma sat_add_ge: "a \<le> sat_add a b"
proof -
  have "unat a < 2 ^ LENGTH('a)"
    by (rule unsigned_less)
  then have "unat a \<le> 2 ^ LENGTH('a) - 1" by linarith
  then show ?thesis by (simp add: word_le_nat_alt rust_arith)
qed

section \<open>Iterators\<close>

text \<open>\<open>iter().position(p)\<close>: the first index whose element satisfies the predicate.\<close>

fun position :: "('a \<Rightarrow> bool) \<Rightarrow> 'a list \<Rightarrow> nat option" where
  "position P [] = None"
| "position P (x # xs) = (if P x then Some 0 else map_option Suc (position P xs))"

lemma position_SomeD:
  "position P xs = Some i \<Longrightarrow> i < length xs \<and> P (xs ! i) \<and> (\<forall>j<i. \<not> P (xs ! j))"
proof (induction xs arbitrary: i)
  case Nil
  then show ?case by simp
next
  case (Cons x xs)
  show ?case
  proof (cases "P x")
    case False
    then obtain k where "position P xs = Some k" "i = Suc k"
      using Cons.prems by auto
    with Cons.IH [of k] False show ?thesis
      by (auto simp: less_Suc_eq_0_disj)
  qed (use Cons.prems in auto)
qed

lemma position_None_iff: "position P xs = None \<longleftrightarrow> (\<forall>x \<in> set xs. \<not> P x)"
  by (induction xs) auto

lemma position_less: "position P xs = Some i \<Longrightarrow> i < length xs"
  by (simp add: position_SomeD)

lemma position_holds: "position P xs = Some i \<Longrightarrow> P (xs ! i)"
  by (simp add: position_SomeD)

lemma find_position: "find P xs = map_option (\<lambda>i. xs ! i) (position P xs)"
  by (induction xs) (auto simp: option.map_comp comp_def)

text \<open>Searching a list in which one place was overwritten.\<close>

lemma find_update_other:
  "i < length xs \<Longrightarrow> \<not> P (xs ! i) \<Longrightarrow> \<not> P v \<Longrightarrow> find P (xs[i := v]) = find P xs"
proof (induction xs arbitrary: i)
  case (Cons x xs)
  then show ?case by (cases i) auto
qed simp

lemma find_update_first: "position P xs = Some i \<Longrightarrow> P v \<Longrightarrow> find P (xs[i := v]) = Some v"
  by (induction xs arbitrary: i) (auto split: if_splits)

lemma find_update_fresh:
  "find P xs = None \<Longrightarrow> i < length xs \<Longrightarrow> P v \<Longrightarrow> find P (xs[i := v]) = Some v"
proof (induction xs arbitrary: i)
  case (Cons x xs)
  then show ?case by (cases i) (auto split: if_splits)
qed simp

text \<open>\<open>max_by_key\<close>: a largest element, the last one among equals.\<close>

fun max_by_key :: "('a \<Rightarrow> 'k::linorder) \<Rightarrow> 'a list \<Rightarrow> 'a option" where
  "max_by_key f [] = None"
| "max_by_key f (x # xs) =
     (case max_by_key f xs of None \<Rightarrow> Some x | Some y \<Rightarrow> if f x \<le> f y then Some y else Some x)"

lemma max_by_key_None_iff: "max_by_key f xs = None \<longleftrightarrow> xs = []"
  by (cases xs) (auto split: option.splits)

lemma max_by_key_SomeD:
  "max_by_key f xs = Some y \<Longrightarrow> y \<in> set xs \<and> (\<forall>x \<in> set xs. f x \<le> f y)"
proof (induction xs arbitrary: y)
  case (Cons x xs)
  then show ?case
  proof (cases "max_by_key f xs")
    case None
    with Cons.prems show ?thesis by (simp add: max_by_key_None_iff)
  next
    case (Some z)
    with Cons.IH [of z] Cons.prems show ?thesis by (auto split: if_splits)
  qed
qed simp

section \<open>Live prefixes of fixed-size arrays\<close>

lemma take_update_in [table_simps]: "take n (xs[i := v]) = (take n xs)[i := v]"
  by (simp add: take_update_swap)

lemma take_snoc_update [table_simps]:
  "n < length xs \<Longrightarrow> take (Suc n) (xs[n := v]) = take n xs @ [v]"
  by (simp add: take_Suc_conv_app_nth)

lemma position_take_nth:
  "position P (take n xs) = Some i \<Longrightarrow> n \<le> length xs \<Longrightarrow> i < n \<and> P (xs ! i)"
  using position_SomeD [of P "take n xs" i] by auto

text \<open>
  Overwriting one place keeps the keys of the used places distinct when no other used place has
  the new key.
\<close>

lemma distinct_filter_update:
  assumes "distinct (map key (filter P xs))"
    "\<And>j. P v \<Longrightarrow> j < length xs \<Longrightarrow> j \<noteq> i \<Longrightarrow> P (xs ! j) \<Longrightarrow> key (xs ! j) \<noteq> key v"
  shows "distinct (map key (filter P (xs[i := v])))"
  using assms
proof (induction xs arbitrary: i)
  case (Cons x xs)
  show ?case
  proof (cases i)
    case 0
    have "key x' \<noteq> key v" if "P v" "x' \<in> set xs" "P x'" for x'
    proof -
      from \<open>x' \<in> set xs\<close> obtain j where "j < length xs" "xs ! j = x'"
        by (auto simp: in_set_conv_nth)
      then show ?thesis using Cons.prems(2) [of "Suc j"] that 0 by simp
    qed
    then have "P v \<Longrightarrow> key v \<notin> key ` {x' \<in> set xs. P x'}" by fastforce
    with 0 Cons.prems(1) show ?thesis by (auto split: if_splits)
  next
    case (Suc k)
    have "distinct (map key (filter P (xs[k := v])))"
      using Cons.prems(1) Cons.prems(2) [of "Suc _"] Suc
      by (intro Cons.IH) (auto split: if_splits)
    moreover have "key x \<notin> key ` {x' \<in> set (xs[k := v]). P x'}" if "P x"
      using that Cons.prems(1) Cons.prems(2) [of 0] Suc set_update_subset_insert [of xs k v] by auto
    ultimately show ?thesis using Suc by auto
  qed
qed simp

lemma distinct_map_update:
  assumes "distinct (map key xs)"
    "\<And>j. j < length xs \<Longrightarrow> j \<noteq> i \<Longrightarrow> key (xs ! j) \<noteq> key v"
  shows "distinct (map key (xs[i := v]))"
  using distinct_filter_update [of key "\<lambda>_. True" xs v i] assms by simp

lemma filter_key_index:
  assumes "distinct (map key (filter P xs))" "i < length xs" "j < length xs" "P (xs ! i)"
    "P (xs ! j)" "key (xs ! i) = key (xs ! j)"
  shows "i = j"
  using assms
proof (induction xs arbitrary: i j)
  case (Cons x xs)
  have "key x \<noteq> key (xs ! k) \<and> key (xs ! k) \<noteq> key x" if "P x" "k < length xs" "P (xs ! k)" for k
    using Cons.prems(1) that by (force simp: image_iff)
  then show ?case
    using Cons by (cases i; cases j) (auto split: if_splits)
qed simp

lemma find_filter: "find Q (filter P xs) = find (\<lambda>x. P x \<and> Q x) xs"
  by (induction xs) auto

subsection \<open>The swap-remove loop\<close>

text \<open>
  The loop that five tables share: walk the live prefix, and where an element is to go, put the
  last live element in its place and shorten the prefix without advancing.
\<close>

function swap_prune :: "('a \<Rightarrow> bool) \<Rightarrow> 'a list \<Rightarrow> nat \<Rightarrow> nat \<Rightarrow> 'a list \<times> nat" where
  "swap_prune drp xs n i =
     (if i < n then
        if drp (xs ! i) then
          swap_prune drp (if i < n - 1 then xs[i := xs ! (n - 1)] else xs) (n - 1) i
        else swap_prune drp xs n (Suc i)
      else (xs, n))"
  by pat_completeness auto
termination
  by (relation "measure (\<lambda>(drp, xs, n, i). n - i)") auto

declare swap_prune.simps [simp del]

lemma mset_take_swap_out:
  assumes "i < n" "n \<le> length xs"
  shows "add_mset (xs ! i)
      (mset (take (n - 1) (if i < n - 1 then xs[i := xs ! (n - 1)] else xs))) = mset (take n xs)"
proof -
  obtain m where m: "n = Suc m" using assms(1) by (cases n) auto
  have split: "take n xs = take m xs @ [xs ! m]"
    using assms(2) m by (simp add: take_Suc_conv_app_nth)
  show ?thesis
  proof (cases "i < m")
    case True
    then have "mset (take m (xs[i := xs ! m])) =
        add_mset (xs ! m) (mset (take m xs) - {#take m xs ! i#})"
      using assms m by (simp add: take_update_swap mset_update)
    moreover have "xs ! i \<in># mset (take m xs)"
      using True assms m by (auto simp: in_set_conv_nth intro!: exI [of _ i])
    ultimately show ?thesis
      using True m split by (simp add: insert_DiffM)
  next
    case False
    then have "i = m" using assms(1) m by simp
    then show ?thesis using m split by simp
  qed
qed

lemma take_swap_out: "take i (if i < m then xs[i := v] else xs) = take i xs"
  by simp

lemma mset_drop_swap_out:
  assumes "i < n" "n \<le> length xs"
  defines "zs \<equiv> if i < n - 1 then xs[i := xs ! (n - 1)] else xs"
  shows "mset (drop i (take n xs)) = add_mset (xs ! i) (mset (drop i (take (n - 1) zs)))"
proof -
  have tk: "take i zs = take i xs" by (simp add: zs_def)
  have "mset (take i xs) + mset (drop i (take n xs)) = mset (take n xs)"
    using assms(1) by (metis append_take_drop_id mset_append min.absorb1 take_take less_imp_le)
  moreover have "mset (take i xs) + mset (drop i (take (n - 1) zs)) = mset (take (n - 1) zs)"
    using assms(1) tk by (metis append_take_drop_id mset_append min.absorb1 take_take
        Suc_pred' Suc_leI le_imp_less_Suc less_Suc_eq_le not_less_zero gr_zeroI)
  moreover have "add_mset (xs ! i) (mset (take (n - 1) zs)) = mset (take n xs)"
    unfolding zs_def by (rule mset_take_swap_out [OF assms(1,2)])
  ultimately show ?thesis
    by (metis add_left_cancel union_mset_add_mset_right)
qed

lemma drop_take_peel:
  "i < n \<Longrightarrow> n \<le> length xs \<Longrightarrow> drop i (take n xs) = xs ! i # drop (Suc i) (take n xs)"
  by (simp add: Cons_nth_drop_Suc [symmetric])

lemma swap_prune_spec:
  assumes "n \<le> length xs" "i \<le> n" "swap_prune drp xs n i = (ys, m)"
  shows "length ys = length xs \<and> m \<le> n \<and> i \<le> m \<and> take i ys = take i xs \<and>
    mset (drop i (take m ys)) = filter_mset (\<lambda>x. \<not> drp x) (mset (drop i (take n xs)))"
  using assms
proof (induction drp xs n i arbitrary: ys m rule: swap_prune.induct)
  case (1 drp xs n i)
  show ?case
  proof (cases "i < n")
    case False
    then have "swap_prune drp xs n i = (xs, n)"
      by (subst swap_prune.simps) simp
    with False "1.prems" show ?thesis by simp
  next
    case i: True
    have peel: "drop i (take n xs) = xs ! i # drop (Suc i) (take n xs)"
      using i "1.prems"(1) by (simp add: Cons_nth_drop_Suc [symmetric])
    show ?thesis
    proof (cases "drp (xs ! i)")
      case True
      define zs where "zs = (if i < n - 1 then xs[i := xs ! (n - 1)] else xs)"
      have len: "length zs = length xs" by (simp add: zs_def)
      have step: "swap_prune drp zs (n - 1) i = (ys, m)"
        using "1.prems"(3) i True by (simp add: swap_prune.simps [of drp xs n i] zs_def)
      have IH: "length ys = length zs \<and> m \<le> n - 1 \<and> i \<le> m \<and> take i ys = take i zs \<and>
          mset (drop i (take m ys)) = filter_mset (\<lambda>x. \<not> drp x) (mset (drop i (take (n - 1) zs)))"
        by (rule "1.IH"(1) [OF i True, folded zs_def]) (use "1.prems" i len step in auto)
      have tk: "take i zs = take i xs"
        by (simp add: zs_def)
      have "mset (drop i (take n xs)) = add_mset (xs ! i) (mset (drop i (take (n - 1) zs)))"
        unfolding zs_def by (rule mset_drop_swap_out) (use i "1.prems"(1) in auto)
      with IH True tk len show ?thesis by auto
    next
      case False
      have step: "swap_prune drp xs n (Suc i) = (ys, m)"
        using "1.prems"(3) i False by (simp add: swap_prune.simps [of drp xs n i])
      have IH: "length ys = length xs \<and> m \<le> n \<and> Suc i \<le> m \<and> take (Suc i) ys = take (Suc i) xs \<and>
          mset (drop (Suc i) (take m ys)) =
            filter_mset (\<lambda>x. \<not> drp x) (mset (drop (Suc i) (take n xs)))"
        by (rule "1.IH"(2) [OF i False]) (use "1.prems" i step in auto)
      have len: "i < length xs" "i < length ys" "i < m"
        using i "1.prems"(1) IH by auto
      have nth: "ys ! i = xs ! i"
        using IH len by (metis lessI nth_take)
      have tk: "take i ys = take i xs"
        using IH by (metis le_Suc_eq min.absorb1 take_take lessI less_imp_le)
      have "drop i (take m ys) = ys ! i # drop (Suc i) (take m ys)"
        using len by (simp add: Cons_nth_drop_Suc [symmetric])
      with IH peel nth tk False show ?thesis by simp
    qed
  qed
qed

text \<open>What the loop leaves in the table: exactly the live elements that were to stay.\<close>

lemma swap_prune_mset:
  assumes "n \<le> length xs" "swap_prune drp xs n 0 = (ys, m)"
  shows "mset (take m ys) = filter_mset (\<lambda>x. \<not> drp x) (mset (take n xs))"
    and "length ys = length xs" and "m \<le> n"
  using swap_prune_spec [OF assms(1) _ assms(2)] by auto

lemma swap_prune_set:
  assumes "n \<le> length xs" "swap_prune drp xs n 0 = (ys, m)"
  shows "set (take m ys) = {x \<in> set (take n xs). \<not> drp x}"
proof -
  have "set_mset (mset (take m ys)) = set_mset (filter_mset (\<lambda>x. \<not> drp x) (mset (take n xs)))"
    by (simp only: swap_prune_mset(1) [OF assms])
  then show ?thesis by auto
qed

lemma distinct_map_mset_filter:
  assumes "mset ys = filter_mset P (mset xs)" "distinct (map key xs)"
  shows "distinct (map key ys)"
proof -
  have "mset ys = mset (filter P xs)" using assms(1) by simp
  then have "mset (map key ys) = mset (map key (filter P xs))" by simp
  moreover have "distinct (map key (filter P xs))" using assms(2) by (rule distinct_map_filter)
  ultimately show ?thesis by (metis mset_eq_imp_distinct_iff)
qed

lemma swap_prune_distinct:
  assumes "n \<le> length xs" "swap_prune drp xs n 0 = (ys, m)" "distinct (map key (take n xs))"
  shows "distinct (map key (take m ys))"
  using swap_prune_mset(1) [OF assms(1,2)] assms(3) by (rule distinct_map_mset_filter)

section \<open>Tables keyed by a node or a packet\<close>

text \<open>
  The contract of the router's tables: in a well-formed table no two live entries have the same
  key, so a linear search by key behaves like a map. Every table interprets the locale with its
  own invariant, live entries and key.
\<close>

abbreviation lookup_key :: "('e \<Rightarrow> 'k) \<Rightarrow> 'k \<Rightarrow> 'e list \<Rightarrow> 'e option" where
  "lookup_key key k xs \<equiv> find (\<lambda>e. key e = k) xs"

locale keyed_table =
  fixes inv :: "'t \<Rightarrow> bool" and live :: "'t \<Rightarrow> 'e list" and key :: "'e \<Rightarrow> 'k"
  assumes keys_distinct: "inv t \<Longrightarrow> distinct (map key (live t))"
begin

lemma key_unique:
  "inv t \<Longrightarrow> a \<in> set (live t) \<Longrightarrow> b \<in> set (live t) \<Longrightarrow> key a = key b \<Longrightarrow> a = b"
  using keys_distinct [of t] by (auto simp: distinct_map dest: inj_onD)

lemma lookup_Some_iff:
  assumes "inv t"
  shows "lookup_key key k (live t) = Some e \<longleftrightarrow> e \<in> set (live t) \<and> key e = k"
proof (cases "lookup_key key k (live t)")
  case None
  then have "k \<notin> key ` set (live t)" by (auto simp: find_None_iff)
  then have "\<not> (e \<in> set (live t) \<and> key e = k)" by blast
  then show ?thesis by (simp only: None) simp
next
  case (Some d)
  then have "d \<in> set (live t)" "key d = k" by (auto simp: find_Some_iff)
  then have "d = e \<longleftrightarrow> e \<in> set (live t) \<and> key e = k"
    using key_unique [OF assms, of d e] by blast
  then show ?thesis by (simp only: Some option.inject)
qed

lemma lookup_None_iff: "lookup_key key k (live t) = None \<longleftrightarrow> k \<notin> key ` set (live t)"
  by (auto simp: find_None_iff)

lemma lookup_restrict:
  assumes "inv t" "inv t'" "set (live t') = {e \<in> set (live t). P e}"
  shows "lookup_key key k (live t') =
    (case lookup_key key k (live t) of None \<Rightarrow> None | Some e \<Rightarrow> if P e then Some e else None)"
proof (cases "lookup_key key k (live t')")
  case None
  then have "k \<notin> key ` {e \<in> set (live t). P e}"
    using lookup_None_iff [of k t'] assms(3) by simp
  with None show ?thesis
    using lookup_Some_iff [OF assms(1), of k] by (auto split: option.splits)
next
  case (Some e)
  then have "e \<in> set (live t)" "P e" "key e = k"
    using lookup_Some_iff [OF assms(2)] assms(3) by auto
  with Some show ?thesis
    using lookup_Some_iff [OF assms(1), of k e] by simp
qed

lemma lookup_update:
  assumes "inv t" "inv t'" "live t' = (live t)[i := e]" "i < length (live t)"
  shows "lookup_key key k (live t') =
    (if k = key e then Some e else if k = key (live t ! i) then None else lookup_key key k (live t))"
proof (cases "k = key e \<or> k = key (live t ! i)")
  case False
  then show ?thesis using assms(3,4) by (auto simp: find_update_other)
next
  case True
  show ?thesis
  proof (cases "k = key e")
    case True
    then show ?thesis
      using lookup_Some_iff [OF assms(2), of k e] assms(3,4) by (simp add: set_update_memI)
  next
    case False
    have "key ((live t)[i := e] ! j) \<noteq> key (live t ! i)" if j: "j < length (live t)" for j
    proof (cases "j = i")
      case True
      with False \<open>k = key e \<or> _\<close> assms(4) show ?thesis by auto
    next
      case False
      with keys_distinct [OF assms(1)] j assms(4) show ?thesis
        by (auto simp: distinct_conv_nth)
    qed
    then have "key (live t ! i) \<notin> key ` set (live t')"
      unfolding assms(3) by (auto simp: in_set_conv_nth) (metis length_list_update)
    with False \<open>k = key e \<or> _\<close> show ?thesis using lookup_None_iff [of k t'] by auto
  qed
qed

lemma lookup_snoc:
  assumes "live t' = live t @ [e]" "key e \<notin> key ` set (live t)"
  shows "lookup_key key k (live t') = (if k = key e then Some e else lookup_key key k (live t))"
proof -
  have "find P (xs @ [e]) = (case find P xs of None \<Rightarrow> if P e then Some e else None | Some y \<Rightarrow> Some y)"
    for P and xs :: "'e list" by (induction xs) auto
  then show ?thesis
    using assms lookup_None_iff [of "key e" t] by (auto split: option.splits)
qed

end

end
