(* ===== verification/Wire.thy ===== *)
theory Wire
  imports Prelude
begin

unbundle bit_operations_syntax

text \<open>
  The on-air packet format (crate mesh-protocol: \<open>constants.rs\<close>, \<open>header.rs\<close>,
  \<open>direct.rs\<close>, \<open>portnum.rs\<close>) and the header a relay sends (\<open>relay.rs\<close> of
  mesh-routing). A frame is a list of bytes; the header is the record of the struct
  \<open>PacketHeader\<close>, its parsed form the record of \<open>ParsedPacket\<close>. The lemmas show that
  encoding and decoding are inverse, that the packed flags byte keeps its four fields apart,
  and what a relay does to the hop fields.
\<close>

section \<open>Constants\<close>

definition PACKET_HEADER_LEN :: nat where "PACKET_HEADER_LEN = 16"
definition MAX_LORA_PAYLOAD_LEN :: nat where "MAX_LORA_PAYLOAD_LEN = 255"

definition PACKET_FLAGS_HOP_LIMIT_MASK :: u8 where "PACKET_FLAGS_HOP_LIMIT_MASK = 0x07"
definition PACKET_FLAGS_WANT_ACK_MASK :: u8 where "PACKET_FLAGS_WANT_ACK_MASK = 0x08"
definition PACKET_FLAGS_VIA_MQTT_MASK :: u8 where "PACKET_FLAGS_VIA_MQTT_MASK = 0x10"
definition PACKET_FLAGS_HOP_START_MASK :: u8 where "PACKET_FLAGS_HOP_START_MASK = 0xE0"
definition PACKET_FLAGS_HOP_START_SHIFT :: nat where "PACKET_FLAGS_HOP_START_SHIFT = 5"

definition NODENUM_BROADCAST :: u32 where "NODENUM_BROADCAST = 0xFFFFFFFF"
definition NO_NEXT_HOP_PREFERENCE :: u8 where "NO_NEXT_HOP_PREFERENCE = 0"
definition NO_RELAY_NODE :: u8 where "NO_RELAY_NODE = 0"

lemmas flag_masks = PACKET_FLAGS_HOP_LIMIT_MASK_def PACKET_FLAGS_WANT_ACK_MASK_def
  PACKET_FLAGS_VIA_MQTT_MASK_def PACKET_FLAGS_HOP_START_MASK_def
  PACKET_FLAGS_HOP_START_SHIFT_def

section \<open>Little-endian words\<close>

text \<open>\<open>u32::to_le_bytes\<close> and \<open>u32::from_le_bytes\<close>.\<close>

definition to_le_bytes32 :: "u32 \<Rightarrow> u8 list" where
  "to_le_bytes32 w =
     [ucast w, ucast (drop_bit 8 w), ucast (drop_bit 16 w), ucast (drop_bit 24 w)]"

definition from_le_bytes32 :: "u8 \<Rightarrow> u8 \<Rightarrow> u8 \<Rightarrow> u8 \<Rightarrow> u32" where
  "from_le_bytes32 a b c d =
     ucast a OR push_bit 8 (ucast b) OR push_bit 16 (ucast c) OR push_bit 24 (ucast d)"

section \<open>Header\<close>

record packet_header =
  ph_to :: u32
  ph_from :: u32
  ph_id :: u32
  ph_flags :: u8
  ph_channel :: u8
  ph_next_hop :: u8
  ph_relay_node :: u8

record parsed_packet =
  pp_to :: u32
  pp_from :: u32
  pp_id :: u32
  pp_channel :: u8
  pp_hop_limit :: u8
  pp_hop_start :: u8
  pp_want_ack :: bool
  pp_via_mqtt :: bool
  pp_next_hop :: u8
  pp_relay_node :: u8

datatype decode_error = TooShort

definition encode_flags :: "u8 \<Rightarrow> u8 \<Rightarrow> bool \<Rightarrow> bool \<Rightarrow> u8" where
  "encode_flags hop_limit hop_start want_ack via_mqtt =
     (let hop_limit = hop_limit AND PACKET_FLAGS_HOP_LIMIT_MASK;
          hop_start = push_bit PACKET_FLAGS_HOP_START_SHIFT hop_start
            AND PACKET_FLAGS_HOP_START_MASK;
          want_ack = (if want_ack then PACKET_FLAGS_WANT_ACK_MASK else 0);
          via_mqtt = (if via_mqtt then PACKET_FLAGS_VIA_MQTT_MASK else 0)
      in hop_limit OR hop_start OR want_ack OR via_mqtt)"

definition from_fields ::
  "u32 \<Rightarrow> u32 \<Rightarrow> u32 \<Rightarrow> u8 \<Rightarrow> u8 \<Rightarrow> u8 \<Rightarrow> bool \<Rightarrow> bool \<Rightarrow> u8 \<Rightarrow> u8 \<Rightarrow> packet_header" where
  "from_fields to frm pid channel hop_limit hop_start want_ack via_mqtt next_hop relay_node =
     \<lparr>ph_to = to, ph_from = frm, ph_id = pid,
      ph_flags = encode_flags hop_limit hop_start want_ack via_mqtt,
      ph_channel = channel, ph_next_hop = next_hop, ph_relay_node = relay_node\<rparr>"

definition header_hop_limit :: "packet_header \<Rightarrow> u8" where
  "header_hop_limit h = ph_flags h AND PACKET_FLAGS_HOP_LIMIT_MASK"

definition header_hop_start :: "packet_header \<Rightarrow> u8" where
  "header_hop_start h = drop_bit PACKET_FLAGS_HOP_START_SHIFT (ph_flags h AND PACKET_FLAGS_HOP_START_MASK)"

definition header_want_ack :: "packet_header \<Rightarrow> bool" where
  "header_want_ack h \<longleftrightarrow> ph_flags h AND PACKET_FLAGS_WANT_ACK_MASK \<noteq> 0"

definition clear_want_ack :: "packet_header \<Rightarrow> packet_header" where
  "clear_want_ack h = h\<lparr>ph_flags := ph_flags h AND NOT PACKET_FLAGS_WANT_ACK_MASK\<rparr>"

definition header_via_mqtt :: "packet_header \<Rightarrow> bool" where
  "header_via_mqtt h \<longleftrightarrow> ph_flags h AND PACKET_FLAGS_VIA_MQTT_MASK \<noteq> 0"

definition encode_to :: "packet_header \<Rightarrow> u8 list" where
  "encode_to h = to_le_bytes32 (ph_to h) @ to_le_bytes32 (ph_from h) @ to_le_bytes32 (ph_id h)
     @ [ph_flags h, ph_channel h, ph_next_hop h, ph_relay_node h]"

definition decode_header :: "u8 list \<Rightarrow> decode_error + packet_header" where
  "decode_header buf =
     (if length buf < PACKET_HEADER_LEN then Inl TooShort
      else Inr \<lparr>ph_to = from_le_bytes32 (buf ! 0) (buf ! 1) (buf ! 2) (buf ! 3),
                ph_from = from_le_bytes32 (buf ! 4) (buf ! 5) (buf ! 6) (buf ! 7),
                ph_id = from_le_bytes32 (buf ! 8) (buf ! 9) (buf ! 10) (buf ! 11),
                ph_flags = buf ! 12, ph_channel = buf ! 13,
                ph_next_hop = buf ! 14, ph_relay_node = buf ! 15\<rparr>)"

definition parse_header :: "packet_header \<Rightarrow> parsed_packet" where
  "parse_header h =
     (let hs = header_hop_start h in
      \<lparr>pp_to = ph_to h, pp_from = ph_from h, pp_id = ph_id h, pp_channel = ph_channel h,
       pp_hop_limit = header_hop_limit h, pp_hop_start = hs,
       pp_want_ack = header_want_ack h, pp_via_mqtt = header_via_mqtt h,
       pp_next_hop = (if hs = 0 then NO_NEXT_HOP_PREFERENCE else ph_next_hop h),
       pp_relay_node = (if hs = 0 then NO_RELAY_NODE else ph_relay_node h)\<rparr>)"

definition decode_frame :: "u8 list \<Rightarrow> decode_error + (parsed_packet \<times> u8 list)" where
  "decode_frame buf =
     (case decode_header buf of
        Inl e \<Rightarrow> Inl e
      | Inr h \<Rightarrow> Inr (parse_header h, drop PACKET_HEADER_LEN buf))"

definition is_direct_packet :: "u32 \<Rightarrow> u8 \<Rightarrow> u8 \<Rightarrow> u8 \<Rightarrow> bool" where
  "is_direct_packet frm hop_start hop_limit relay_node =
     (if hop_start \<noteq> hop_limit then False
      else let from_low = (ucast (frm AND 0xFF) :: u8)
           in if relay_node \<noteq> 0 \<and> relay_node \<noteq> from_low then False else True)"

section \<open>Port numbers\<close>

definition UNKNOWN_APP :: u32 where "UNKNOWN_APP = 0"
definition TEXT_MESSAGE_APP :: u32 where "TEXT_MESSAGE_APP = 1"
definition POSITION_APP :: u32 where "POSITION_APP = 3"
definition NODEINFO_APP :: u32 where "NODEINFO_APP = 4"
definition ROUTING_APP :: u32 where "ROUTING_APP = 5"
definition ADMIN_APP :: u32 where "ADMIN_APP = 6"
definition TEXT_MESSAGE_COMPRESSED_APP :: u32 where "TEXT_MESSAGE_COMPRESSED_APP = 7"
definition TELEMETRY_APP :: u32 where "TELEMETRY_APP = 67"
definition TRACEROUTE_APP :: u32 where "TRACEROUTE_APP = 70"
definition SIGNAL_ROUTING_APP :: u32 where "SIGNAL_ROUTING_APP = 88"

lemmas port_defs = UNKNOWN_APP_def TEXT_MESSAGE_APP_def POSITION_APP_def NODEINFO_APP_def
  ROUTING_APP_def ADMIN_APP_def TEXT_MESSAGE_COMPRESSED_APP_def TELEMETRY_APP_def
  TRACEROUTE_APP_def SIGNAL_ROUTING_APP_def

datatype rate_limit_bucket_kind = Text | Routing | Other | Unknown

datatype qos_tier_kind = Low | Medium | High | Critical

definition rate_limit_bucket :: "u32 option \<Rightarrow> rate_limit_bucket_kind" where
  "rate_limit_bucket decoded_portnum =
     (case decoded_portnum of
        None \<Rightarrow> Unknown
      | Some portnum \<Rightarrow>
          if portnum = TEXT_MESSAGE_APP \<or> portnum = TEXT_MESSAGE_COMPRESSED_APP then Text
          else if portnum = ROUTING_APP \<or> portnum = SIGNAL_ROUTING_APP
            \<or> portnum = TRACEROUTE_APP then Routing
          else Other)"

definition qos_tier :: "u32 option \<Rightarrow> u8 \<Rightarrow> u8 \<Rightarrow> qos_tier_kind" where
  "qos_tier decoded_portnum channel primary_channel =
     (case Option.bind decoded_portnum (\<lambda>p. if p \<noteq> UNKNOWN_APP then Some p else None) of
        None \<Rightarrow> Low
      | Some portnum \<Rightarrow>
          if portnum = TEXT_MESSAGE_APP \<or> portnum = TEXT_MESSAGE_COMPRESSED_APP then
            (if channel = primary_channel then Critical else Medium)
          else if portnum = ADMIN_APP then Critical
          else if portnum = ROUTING_APP \<or> portnum = SIGNAL_ROUTING_APP
            \<or> portnum = TRACEROUTE_APP then High
          else Low)"

section \<open>Relay header\<close>

definition wire_may_relay :: "parsed_packet \<Rightarrow> bool \<Rightarrow> bool \<Rightarrow> bool" where
  "wire_may_relay rx from_us to_us \<longleftrightarrow> \<not> from_us \<and> \<not> to_us \<and> pp_hop_limit rx > 0"

definition relay_hop_fields :: "parsed_packet \<Rightarrow> (u8 \<times> u8) option" where
  "relay_hop_fields rx =
     (if pp_hop_limit rx = 0 then None
      else let hop_limit = pp_hop_limit rx - 1;
               hop_start = (if pp_hop_start rx \<noteq> 0 \<and> pp_hop_start rx < hop_limit
                 then hop_limit else pp_hop_start rx)
           in Some (hop_limit, hop_start))"

definition relay_header_with_next_hop_opts ::
  "parsed_packet \<Rightarrow> u32 \<Rightarrow> u32 \<Rightarrow> bool \<Rightarrow> packet_header option" where
  "relay_header_with_next_hop_opts rx our_node next_hop last_hop =
     (if pp_hop_limit rx = 0 then None
      else case relay_hop_fields rx of
        None \<Rightarrow> None
      | Some (hop_limit, hop_start) \<Rightarrow>
          let relay_node = (ucast (our_node AND 0xFF) :: u8);
              next_hop_byte = (if last_hop then ucast (pp_to rx AND 0xFF)
                else if next_hop \<noteq> 0 then ucast (next_hop AND 0xFF) else 0)
          in Some (from_fields (pp_to rx) (pp_from rx) (pp_id rx) (pp_channel rx)
               hop_limit hop_start (pp_want_ack rx) (pp_via_mqtt rx) next_hop_byte relay_node))"

definition relay_header_with_next_hop :: "parsed_packet \<Rightarrow> u32 \<Rightarrow> u32 \<Rightarrow> packet_header option" where
  "relay_header_with_next_hop rx our_node next_hop =
     relay_header_with_next_hop_opts rx our_node next_hop False"

definition relay_header :: "parsed_packet \<Rightarrow> u32 \<Rightarrow> packet_header option" where
  "relay_header rx our_node = relay_header_with_next_hop rx our_node 0"

text \<open>\<open>hops_away\<close> and \<open>hop_limit_for_response\<close> of \<open>routing_ack.rs\<close>.\<close>

definition hops_away :: "u8 \<Rightarrow> u8 \<Rightarrow> bool \<Rightarrow> u8 option" where
  "hops_away hop_start hop_limit hop_start_known =
     (if hop_start = 0 \<and> \<not> hop_start_known then None
      else if hop_start < hop_limit then None
      else Some (hop_start - hop_limit))"

definition hop_limit_for_response :: "parsed_packet \<Rightarrow> bool \<Rightarrow> u8 \<Rightarrow> u8" where
  "hop_limit_for_response parsed hop_start_known configured_hop_limit =
     (case hops_away (pp_hop_start parsed) (pp_hop_limit parsed) hop_start_known of
        None \<Rightarrow> configured_hop_limit
      | Some hops_used \<Rightarrow>
          if hops_used > configured_hop_limit then hops_used
          else if pp_hop_start parsed = 0 then 0
          else let with_margin = sat_add hops_used 2
               in if with_margin < configured_hop_limit then with_margin
                  else configured_hop_limit)"

section \<open>Codec lemmas\<close>

lemma from_to_le_bytes32:
  "from_le_bytes32 (ucast w) (ucast (drop_bit 8 w)) (ucast (drop_bit 16 w)) (ucast (drop_bit 24 w)) = w"
proof (rule bit_word_eqI)
  fix n assume "n < LENGTH(32)"
  then consider "n < 8" | "8 \<le> n \<and> n < 16" | "16 \<le> n \<and> n < 24" | "24 \<le> n \<and> n < 32"
    by force
  then show "bit (from_le_bytes32 (ucast w) (ucast (drop_bit 8 w)) (ucast (drop_bit 16 w))
      (ucast (drop_bit 24 w))) n = bit w n"
    by cases (auto simp: from_le_bytes32_def bit_simps)
qed

lemma to_from_le_bytes32: "to_le_bytes32 (from_le_bytes32 a b c d) = [a, b, c, d]"
proof -
  have "ucast (from_le_bytes32 a b c d) = a"
    "ucast (drop_bit 8 (from_le_bytes32 a b c d)) = b"
    "ucast (drop_bit 16 (from_le_bytes32 a b c d)) = c"
    "ucast (drop_bit 24 (from_le_bytes32 a b c d)) = d"
    unfolding from_le_bytes32_def
    by (rule bit_word_eqI; auto simp: bit_simps dest: bit_imp_le_length)+
  then show ?thesis by (simp add: to_le_bytes32_def)
qed

lemma length_to_le_bytes32 [simp]: "length (to_le_bytes32 w) = 4"
  by (simp add: to_le_bytes32_def)

lemma length_encode_to [simp]: "length (encode_to h) = PACKET_HEADER_LEN"
  by (simp add: encode_to_def PACKET_HEADER_LEN_def)

text \<open>The flags byte: the bits of every mask.\<close>

lemma bit_flag_masks:
  "bit PACKET_FLAGS_HOP_LIMIT_MASK n \<longleftrightarrow> n < 3"
  "bit PACKET_FLAGS_WANT_ACK_MASK n \<longleftrightarrow> n = 3"
  "bit PACKET_FLAGS_VIA_MQTT_MASK n \<longleftrightarrow> n = 4"
  "bit PACKET_FLAGS_HOP_START_MASK n \<longleftrightarrow> 5 \<le> n \<and> n < 8"
proof -
  have hl: "PACKET_FLAGS_HOP_LIMIT_MASK = mask 3" by (simp add: flag_masks mask_eq_exp_minus_1)
  show "bit PACKET_FLAGS_HOP_LIMIT_MASK n \<longleftrightarrow> n < 3" by (auto simp: hl bit_mask_iff)
  have wa: "PACKET_FLAGS_WANT_ACK_MASK = 2 ^ 3" by (simp add: flag_masks)
  show "bit PACKET_FLAGS_WANT_ACK_MASK n \<longleftrightarrow> n = 3" by (simp only: wa bit_exp_iff) auto
  have vm: "PACKET_FLAGS_VIA_MQTT_MASK = 2 ^ 4" by (simp add: flag_masks)
  show "bit PACKET_FLAGS_VIA_MQTT_MASK n \<longleftrightarrow> n = 4" by (simp only: vm bit_exp_iff) auto
  have hs: "PACKET_FLAGS_HOP_START_MASK = push_bit 5 (mask 3)"
    by (simp add: flag_masks mask_eq_exp_minus_1)
  show "bit PACKET_FLAGS_HOP_START_MASK n \<longleftrightarrow> 5 \<le> n \<and> n < 8"
    by (simp only: hs bit_push_bit_iff bit_mask_iff) auto
qed

lemma and_mask3_eq:
  fixes x :: u8
  assumes "x < 8"
  shows "x AND mask 3 = x"
proof -
  have "unat (take_bit 3 x) = unat x"
    using assms by (simp add: unsigned_take_bit_eq take_bit_eq_mod word_less_nat_alt unat_mod)
  then have "take_bit 3 x = x" by (rule unsigned_word_eqI)
  then show ?thesis by (simp add: take_bit_eq_mask)
qed

lemma and_mask3_less: "x AND mask 3 < (8 :: u8)"
proof -
  have "x AND mask 3 \<le> mask 3" by (rule word_and_le1)
  then show ?thesis by (simp add: mask_eq_exp_minus_1 word_le_nat_alt word_less_nat_alt)
qed

lemma and_flag_neq_0_iff:
  "x AND PACKET_FLAGS_WANT_ACK_MASK \<noteq> 0 \<longleftrightarrow> bit x 3"
  "x AND PACKET_FLAGS_VIA_MQTT_MASK \<noteq> 0 \<longleftrightarrow> bit x 4"
proof -
  have wa: "PACKET_FLAGS_WANT_ACK_MASK = 2 ^ 3" by (simp add: flag_masks)
  show "x AND PACKET_FLAGS_WANT_ACK_MASK \<noteq> 0 \<longleftrightarrow> bit x 3"
    by (simp only: wa and_exp_eq_0_iff_not_bit) simp
  have vm: "PACKET_FLAGS_VIA_MQTT_MASK = 2 ^ 4" by (simp add: flag_masks)
  show "x AND PACKET_FLAGS_VIA_MQTT_MASK \<noteq> 0 \<longleftrightarrow> bit x 4"
    by (simp only: vm and_exp_eq_0_iff_not_bit) simp
qed

lemmas flag_bit_simps = bit_simps bit_flag_masks encode_flags_def Let_def
  PACKET_FLAGS_HOP_START_SHIFT_def

lemma encode_flags_fields:
  "encode_flags hl hs wa vm AND PACKET_FLAGS_HOP_LIMIT_MASK = hl AND mask 3"
  "drop_bit PACKET_FLAGS_HOP_START_SHIFT (encode_flags hl hs wa vm AND PACKET_FLAGS_HOP_START_MASK)
     = hs AND mask 3"
  "bit (encode_flags hl hs wa vm) 3 \<longleftrightarrow> wa"
  "bit (encode_flags hl hs wa vm) 4 \<longleftrightarrow> vm"
  by (auto intro!: bit_word_eqI simp: flag_bit_simps)

lemma parse_header_sel:
  "pp_hop_limit (parse_header h) = header_hop_limit h"
  "pp_hop_start (parse_header h) = header_hop_start h"
  by (simp_all add: parse_header_def Let_def)

lemma parse_from_fields:
  assumes "hl < 8" "hs < 8"
  shows "parse_header (from_fields to frm pid ch hl hs wa vm nh rn) =
    \<lparr>pp_to = to, pp_from = frm, pp_id = pid, pp_channel = ch, pp_hop_limit = hl, pp_hop_start = hs,
     pp_want_ack = wa, pp_via_mqtt = vm,
     pp_next_hop = (if hs = 0 then 0 else nh), pp_relay_node = (if hs = 0 then 0 else rn)\<rparr>"
proof -
  define h where "h = from_fields to frm pid ch hl hs wa vm nh rn"
  have "header_hop_limit h = hl" "header_hop_start h = hs" "header_want_ack h = wa"
    "header_via_mqtt h = vm"
    unfolding h_def from_fields_def header_hop_limit_def header_hop_start_def
      header_want_ack_def header_via_mqtt_def packet_header.select_convs
      and_flag_neq_0_iff encode_flags_fields
    using assms by (simp_all add: and_mask3_eq)
  then have "parse_header h =
    \<lparr>pp_to = ph_to h, pp_from = ph_from h, pp_id = ph_id h, pp_channel = ph_channel h,
     pp_hop_limit = hl, pp_hop_start = hs, pp_want_ack = wa, pp_via_mqtt = vm,
     pp_next_hop = (if hs = 0 then 0 else ph_next_hop h),
     pp_relay_node = (if hs = 0 then 0 else ph_relay_node h)\<rparr>"
    by (simp add: parse_header_def NO_NEXT_HOP_PREFERENCE_def NO_RELAY_NODE_def)
  then show ?thesis by (simp add: h_def from_fields_def)
qed

lemma parsed_hops_less: "pp_hop_limit (parse_header h) < 8" "pp_hop_start (parse_header h) < 8"
proof -
  have "ph_flags h AND PACKET_FLAGS_HOP_LIMIT_MASK = ph_flags h AND mask 3"
    by (rule bit_word_eqI) (auto simp: flag_bit_simps)
  then show "pp_hop_limit (parse_header h) < 8"
    by (simp add: parse_header_sel header_hop_limit_def and_mask3_less)
  have "header_hop_start h = drop_bit 5 (ph_flags h) AND mask 3"
    unfolding header_hop_start_def by (rule bit_word_eqI) (auto simp: flag_bit_simps)
  then show "pp_hop_start (parse_header h) < 8"
    by (simp add: parse_header_sel and_mask3_less)
qed

lemma clear_want_ack_fields:
  "\<not> header_want_ack (clear_want_ack h)"
  "header_hop_limit (clear_want_ack h) = header_hop_limit h"
  "header_hop_start (clear_want_ack h) = header_hop_start h"
  "header_via_mqtt (clear_want_ack h) = header_via_mqtt h"
proof -
  show "\<not> header_want_ack (clear_want_ack h)"
    by (auto simp: header_want_ack_def and_flag_neq_0_iff clear_want_ack_def flag_bit_simps)
  show "header_hop_limit (clear_want_ack h) = header_hop_limit h"
    unfolding header_hop_limit_def clear_want_ack_def
    by (rule bit_word_eqI) (auto simp: flag_bit_simps)
  show "header_hop_start (clear_want_ack h) = header_hop_start h"
    unfolding header_hop_start_def clear_want_ack_def
    by (rule bit_word_eqI) (auto simp: flag_bit_simps)
  show "header_via_mqtt (clear_want_ack h) = header_via_mqtt h"
    by (auto simp: header_via_mqtt_def and_flag_neq_0_iff clear_want_ack_def flag_bit_simps)
qed

section \<open>What a relay sends\<close>

lemma nth_le_bytes:
  "length buf = 16 \<Longrightarrow>
   encode_to \<lparr>ph_to = from_le_bytes32 (buf ! 0) (buf ! 1) (buf ! 2) (buf ! 3),
     ph_from = from_le_bytes32 (buf ! 4) (buf ! 5) (buf ! 6) (buf ! 7),
     ph_id = from_le_bytes32 (buf ! 8) (buf ! 9) (buf ! 10) (buf ! 11),
     ph_flags = buf ! 12, ph_channel = buf ! 13, ph_next_hop = buf ! 14,
     ph_relay_node = buf ! 15\<rparr> = buf"
  unfolding encode_to_def packet_header.select_convs to_from_le_bytes32
  by (rule nth_equalityI) (auto simp: less_Suc_eq numeral_eq_Suc)

lemma decode_header_encode: "decode_header (encode_to h @ payload) = Inr h"
proof -
  have "length (encode_to h @ payload) \<ge> PACKET_HEADER_LEN" by simp
  then show ?thesis
    unfolding decode_header_def
    by (simp add: encode_to_def to_le_bytes32_def from_to_le_bytes32 nth_append)
qed

lemma encode_decode_header:
  assumes "decode_header buf = Inr h"
  shows "buf = encode_to h @ drop PACKET_HEADER_LEN buf"
proof -
  have len: "16 \<le> length buf"
    using assms by (auto simp: decode_header_def PACKET_HEADER_LEN_def split: if_splits)
  have "encode_to h = take 16 buf"
    using assms len nth_le_bytes [of "take 16 buf"]
    by (auto simp: decode_header_def PACKET_HEADER_LEN_def split: if_splits)
  then show ?thesis by (simp add: PACKET_HEADER_LEN_def)
qed

text \<open>
  The hop fields a relay writes, read back by the next receiver. A start below the remaining
  budget (an inconsistent or legacy header) is raised to the new budget, so the distance a
  receiver computes is never negative.
\<close>

lemma relay_hop_fields_bounds:
  assumes "relay_hop_fields rx = Some (hl, hs)" "pp_hop_limit rx < 8" "pp_hop_start rx < 8"
  shows "hl < 8" "hs < 8" "unat hl + 1 = unat (pp_hop_limit rx)" "hs = 0 \<longleftrightarrow> pp_hop_start rx = 0"
    "hs \<noteq> 0 \<Longrightarrow> hl \<le> hs"
proof -
  have pos: "pp_hop_limit rx \<noteq> 0" and hl: "hl = pp_hop_limit rx - 1"
    and hs: "hs = (if pp_hop_start rx \<noteq> 0 \<and> pp_hop_start rx < hl then hl else pp_hop_start rx)"
    using assms(1) by (auto simp: relay_hop_fields_def Let_def split: if_splits)
  show u: "unat hl + 1 = unat (pp_hop_limit rx)"
    using pos hl by (simp add: unat_minus_one unat_gt_0)
  then show "hl < 8" using assms(2) by (simp add: word_less_nat_alt)
  then show "hs < 8" using assms(3) hs by simp
  show "hs = 0 \<longleftrightarrow> pp_hop_start rx = 0" using hs by auto
  show "hs \<noteq> 0 \<Longrightarrow> hl \<le> hs" using hs by (auto split: if_splits)
qed

lemma relay_header_parse:
  assumes "pp_hop_limit rx < 8" "pp_hop_start rx < 8"
    "relay_header_with_next_hop_opts rx our_node next_hop last_hop = Some h"
  shows "\<exists>hl hs. relay_hop_fields rx = Some (hl, hs) \<and> parse_header h =
    \<lparr>pp_to = pp_to rx, pp_from = pp_from rx, pp_id = pp_id rx, pp_channel = pp_channel rx,
     pp_hop_limit = hl, pp_hop_start = hs,
     pp_want_ack = pp_want_ack rx, pp_via_mqtt = pp_via_mqtt rx,
     pp_next_hop = (if hs = 0 then 0 else if last_hop then ucast (pp_to rx AND 0xFF)
       else if next_hop \<noteq> 0 then ucast (next_hop AND 0xFF) else 0),
     pp_relay_node = (if hs = 0 then 0 else ucast (our_node AND 0xFF))\<rparr>"
proof -
  obtain hl hs where f: "relay_hop_fields rx = Some (hl, hs)"
    using assms(3) by (auto simp: relay_header_with_next_hop_opts_def split: if_splits option.splits)
  have "hl < 8" "hs < 8"
    using relay_hop_fields_bounds [OF f assms(1,2)] by auto
  with f assms(3) show ?thesis
    by (auto simp: relay_header_with_next_hop_opts_def Let_def parse_from_fields split: if_splits)
qed

text \<open>
  A packet forwarded along a list of relays: every relay receives what the one before sent,
  parses it, and sends its own header (\<open>None\<close> where a relay has no budget left to forward).
\<close>

fun relay_chain :: "parsed_packet \<Rightarrow> (u32 \<times> u32 \<times> bool) list \<Rightarrow> parsed_packet option" where
  "relay_chain rx [] = Some rx"
| "relay_chain rx ((our_node, next_hop, last_hop) # relays) =
     (case relay_header_with_next_hop_opts rx our_node next_hop last_hop of
        None \<Rightarrow> None
      | Some h \<Rightarrow> relay_chain (parse_header h) relays)"

lemma relay_chain_invariant:
  assumes "relay_chain rx relays = Some rx'" "pp_hop_limit rx < 8" "pp_hop_start rx < 8"
  shows "unat (pp_hop_limit rx') + length relays = unat (pp_hop_limit rx) \<and>
    pp_to rx' = pp_to rx \<and> pp_from rx' = pp_from rx \<and> pp_id rx' = pp_id rx \<and>
    pp_channel rx' = pp_channel rx \<and> pp_want_ack rx' = pp_want_ack rx"
  using assms
proof (induction rx relays rule: relay_chain.induct)
  case (2 rx our_node next_hop last_hop relays)
  obtain h where h: "relay_header_with_next_hop_opts rx our_node next_hop last_hop = Some h"
    and chain: "relay_chain (parse_header h) relays = Some rx'"
    using "2.prems"(1) by (auto split: option.splits)
  from relay_header_parse [OF "2.prems"(2,3) h] obtain hl hs where
    f: "relay_hop_fields rx = Some (hl, hs)" and
    p: "pp_hop_limit (parse_header h) = hl" "pp_to (parse_header h) = pp_to rx"
      "pp_from (parse_header h) = pp_from rx" "pp_id (parse_header h) = pp_id rx"
      "pp_channel (parse_header h) = pp_channel rx" "pp_want_ack (parse_header h) = pp_want_ack rx"
    by auto
  have "unat hl + 1 = unat (pp_hop_limit rx)"
    using relay_hop_fields_bounds [OF f "2.prems"(2,3)] by simp
  with "2.IH" [OF h chain parsed_hops_less] p show ?case by simp
qed simp

text \<open>
  C27. Decoding accepts exactly the encoded headers: a buffer decodes to a header if and only if
  it starts with the sixteen bytes that encode that header, so encode and decode are inverse in
  both directions and no header has two encodings.
\<close>

theorem decode_header_iff:
  "decode_header buf = Inr h \<longleftrightarrow> (\<exists>payload. buf = encode_to h @ payload)"
  using decode_header_encode encode_decode_header by blast

text \<open>
  C1. A packet on the air is forwarded at most as often as its hop budget says: along any chain
  of relays each hop spends one unit, and the addresses, the packet id, the channel and the
  acknowledgement request arrive unchanged. In particular no header on the air, whatever its
  bits, survives more than seven relays.
\<close>

theorem relay_chain_spends_budget:
  assumes "relay_chain (parse_header h) relays = Some rx"
  shows "unat (pp_hop_limit rx) + length relays = unat (header_hop_limit h) \<and>
    length relays \<le> 7 \<and>
    pp_to rx = ph_to h \<and> pp_from rx = ph_from h \<and> pp_id rx = ph_id h \<and>
    pp_channel rx = ph_channel h \<and> pp_want_ack rx = header_want_ack h"
proof -
  have "unat (pp_hop_limit (parse_header h)) < 8"
    using parsed_hops_less(1) [of h] by (simp add: word_less_nat_alt)
  with relay_chain_invariant [OF assms parsed_hops_less] show ?thesis
    by (auto simp: parse_header_def Let_def)
qed

theorem relay_chain_spends_budget_witness:
  "relay_chain (parse_header (from_fields 9 5 77 0 3 3 True False 1 5)) [(1, 2, False), (2, 9, True)] =
     Some (parse_header (from_fields 9 5 77 0 1 3 True False 9 2)) \<and>
   unat (pp_hop_limit (parse_header (from_fields 9 5 77 0 1 3 True False 9 2))) + 2 =
     unat (header_hop_limit (from_fields 9 5 77 0 3 3 True False 1 5)) \<and>
   pp_to (parse_header (from_fields 9 5 77 0 1 3 True False 9 2)) = ph_to (from_fields 9 5 77 0 3 3 True False 1 5)"
proof -
  have run: "relay_chain (parse_header (from_fields 9 5 77 0 3 3 True False 1 5)) [(1, 2, False), (2, 9, True)] =
      Some (parse_header (from_fields 9 5 77 0 1 3 True False 9 2))"
    by (simp add: relay_header_with_next_hop_opts_def relay_hop_fields_def Let_def parse_from_fields)
  show ?thesis using run relay_chain_spends_budget [OF run] by simp
qed

text \<open>
  A relay that has budget sends a header whose hop fields stay consistent: whenever the
  receiver could compute how far the packet had come, the next receiver computes exactly one
  hop more; and a header whose start is below its remaining budget is repaired so that the next
  receiver computes zero instead of a negative distance.
\<close>

theorem relay_counts_one_hop:
  assumes "relay_hop_fields (parse_header h) = Some (hl, hs)"
  shows "hops_away hs hl True =
    (case hops_away (header_hop_start h) (header_hop_limit h) True of
       Some travelled \<Rightarrow> Some (travelled + 1)
     | None \<Rightarrow>
         if header_hop_start h = 0 then (if hl = 0 then Some 0 else None)
         else if header_hop_start h < hl then Some 0 else Some (header_hop_start h - hl))"
proof -
  have "header_hop_limit h - 1 \<le> header_hop_limit h" if "header_hop_limit h \<noteq> 0"
    using that by (simp add: word_le_nat_alt unat_minus_one)
  then show ?thesis
    using assms by (fastforce simp: relay_hop_fields_def hops_away_def parse_header_sel Let_def
        not_less split: if_splits)
qed

theorem relay_counts_one_hop_witness:
  "hops_away 5 2 True = Some 3"
  using relay_counts_one_hop [of "from_fields 9 5 77 0 3 5 True False 1 5" 2 5]
  by (simp add: relay_hop_fields_def parse_from_fields hops_away_def)

end
