(* ===== verification/Codec.thy ===== *)
theory Codec
  imports Prelude
begin

unbundle bit_operations_syntax

text \<open>
  The protobuf primitives every decoder of mesh-routing is built on (\<open>protobuf.rs\<close>) and the
  routing payload of acknowledgements (\<open>routing_ack.rs\<close>). A buffer is a list of bytes
  and an index into it a \<open>nat\<close>; \<open>data.get(idx)?\<close> is the explicit test against the
  length. \<open>idx.checked_add(n)?\<close> is written as \<open>idx + n\<close>: both callers compare the sum with
  the length of the slice and answer None when it is larger, and a sum that overflows
  \<open>usize\<close> is larger than any slice.
\<close>

section \<open>Reading varints\<close>

text \<open>The loop over \<open>(0..=63).step_by(7)\<close>, with its accumulated value.\<close>

function read_varint64_loop :: "u8 list \<Rightarrow> nat \<Rightarrow> nat \<Rightarrow> u64 \<Rightarrow> (u64 \<times> nat) option" where
  "read_varint64_loop data idx shift acc =
     (if 63 < shift then None
      else if length data \<le> idx then None
      else let byte = data ! idx; idx = idx + 1 in
        if shift = 63 \<and> 1 < byte then None
        else let acc = acc OR push_bit shift (ucast (byte AND 0x7F)) in
          if byte AND 0x80 = 0 then Some (acc, idx)
          else read_varint64_loop data idx (shift + 7) acc)"
  by pat_completeness auto
termination
  by (relation "measure (\<lambda>(data, idx, shift, acc). 64 - shift)") auto

declare read_varint64_loop.simps [simp del]

definition read_varint64 :: "u8 list \<Rightarrow> nat \<Rightarrow> (u64 \<times> nat) option" where
  "read_varint64 data idx = read_varint64_loop data idx 0 0"

definition read_varint :: "u8 list \<Rightarrow> nat \<Rightarrow> (u32 \<times> nat) option" where
  "read_varint data idx =
     (case read_varint64 data idx of
        None \<Rightarrow> None
      | Some (v, end_idx) \<Rightarrow> if unat v < 2 ^ 32 then Some (ucast v, end_idx) else None)"

text \<open>\<open>value as u32 as i32\<close>: the low 32 bits, read as a two's complement number.\<close>

definition read_varint_i32 :: "u8 list \<Rightarrow> nat \<Rightarrow> (int \<times> nat) option" where
  "read_varint_i32 data idx =
     (case read_varint64 data idx of
        None \<Rightarrow> None
      | Some (v, end_idx) \<Rightarrow> Some (sint (ucast v :: u32), end_idx))"

definition skip_field :: "u8 list \<Rightarrow> nat \<Rightarrow> u8 \<Rightarrow> nat option" where
  "skip_field data idx wire =
     (case (if wire = 0 then map_option snd (read_varint64 data idx)
            else if wire = 1 then Some (idx + 8)
            else if wire = 2 then
              (case read_varint data idx of
                 None \<Rightarrow> None
               | Some (len, start) \<Rightarrow> Some (start + unat len))
            else if wire = 5 then Some (idx + 4)
            else None) of
        None \<Rightarrow> None
      | Some end_idx \<Rightarrow> if end_idx \<le> length data then Some end_idx else None)"

section \<open>Writing varints\<close>

text \<open>\<open>heapless::Vec::push\<close> with its result discarded: a full vector stays as it is.\<close>

definition vec_push :: "nat \<Rightarrow> 'a list \<Rightarrow> 'a \<Rightarrow> 'a list" where
  "vec_push cap out b = (if length out < cap then out @ [b] else out)"

definition ROUTING_VEC_CAP :: nat where "ROUTING_VEC_CAP = 16"

lemma unat_drop_bit_less:
  assumes "(v :: 'a::len word) \<noteq> 0"
  shows "unat (drop_bit 7 v) < unat v"
proof -
  have "unat (drop_bit 7 v) = unat v div 2 ^ 7"
    unfolding unat_drop_bit_eq by (simp only: drop_bit_eq_div)
  with assms show ?thesis by (simp add: div_less_dividend unat_gt_0)
qed

function push_varint :: "u8 list \<Rightarrow> u32 \<Rightarrow> u8 list" where
  "push_varint out v =
     (let byte = ucast (v AND 0x7F); v = drop_bit 7 v;
          byte = (if v \<noteq> 0 then byte OR 0x80 else byte);
          out = vec_push ROUTING_VEC_CAP out byte
      in if v = 0 then out else push_varint out v)"
  by pat_completeness auto
termination
proof (relation "measure (\<lambda>(out, v). unat v)")
  fix out :: "u8 list" and v v' :: u32 and b b' :: u8 and out' :: "u8 list"
  assume "v' = drop_bit 7 v" "v' \<noteq> 0"
  then have "v \<noteq> 0" by auto
  with \<open>v' = _\<close> show "((out', v'), out, v) \<in> measure (\<lambda>(out, v). unat v)"
    by (simp add: unat_drop_bit_less)
qed auto

declare push_varint.simps [simp del]

section \<open>Routing payloads\<close>

definition ROUTING_ERROR_NONE :: u32 where "ROUTING_ERROR_NONE = 0"
definition ROUTING_ERROR_NO_ROUTE :: u32 where "ROUTING_ERROR_NO_ROUTE = 1"
definition ROUTING_ERROR_MAX_RETRANSMIT :: u32 where "ROUTING_ERROR_MAX_RETRANSMIT = 5"
definition ROUTING_ERROR_NO_CHANNEL :: u32 where "ROUTING_ERROR_NO_CHANNEL = 6"

record routing_decode =
  rd_error_reason :: "u32 option"

definition encode_routing_error :: "u32 \<Rightarrow> u8 list" where
  "encode_routing_error reason = push_varint (vec_push ROUTING_VEC_CAP [] (push_bit 3 3)) reason"

subsection \<open>Readers advance inside the buffer\<close>

lemma read_varint64_loop_step:
  "shift \<le> 63 \<Longrightarrow> read_varint64_loop data idx shift acc =
     (if length data \<le> idx then None
      else if shift = 63 \<and> 1 < data ! idx then None
      else if data ! idx AND 0x80 = 0
        then Some (acc OR push_bit shift (ucast (data ! idx AND 0x7F)), idx + 1)
      else read_varint64_loop data (idx + 1) (shift + 7)
        (acc OR push_bit shift (ucast (data ! idx AND 0x7F))))"
  by (subst read_varint64_loop.simps) (simp only: Let_def not_less [symmetric] if_False)

lemma read_varint64_loop_bounds:
  "read_varint64_loop data idx shift acc = Some (v, e) \<Longrightarrow> shift \<le> 63 \<Longrightarrow>
   idx < e \<and> e \<le> length data \<and> 7 * (e - idx) \<le> 70 - shift"
proof (induction data idx shift acc rule: read_varint64_loop.induct)
  case (1 data idx shift acc)
  let ?b = "data ! idx"
  have step: "(if length data \<le> idx then None
      else if shift = 63 \<and> 1 < ?b then None
      else if ?b AND 0x80 = 0 then Some (acc OR push_bit shift (ucast (?b AND 0x7F)), idx + 1)
      else read_varint64_loop data (idx + 1) (shift + 7)
        (acc OR push_bit shift (ucast (?b AND 0x7F)))) = Some (v, e)"
    using "1.prems" by (simp only: read_varint64_loop_step)
  then have in_range: "idx < length data" and small: "\<not> (shift = 63 \<and> 1 < ?b)"
    by (auto split: if_splits)
  show ?case
  proof (cases "?b AND 0x80 = 0")
    case True
    with step in_range small "1.prems"(2) show ?thesis by (auto split: if_splits)
  next
    case False
    have rec: "read_varint64_loop data (idx + 1) (shift + 7)
        (acc OR push_bit shift (ucast (?b AND 0x7F))) = Some (v, e)"
      using step in_range small False by (auto split: if_splits)
    then have "shift + 7 \<le> 63"
      by (rule contrapos_pp) (simp add: read_varint64_loop.simps)
    with "1.IH" [of ?b "idx + 1" "acc OR push_bit shift (ucast (?b AND 0x7F))"] "1.prems" rec
      in_range small False
    have "idx + 1 < e \<and> e \<le> length data \<and> 7 * (e - (idx + 1)) \<le> 70 - (shift + 7)"
      by auto
    then show ?thesis by auto
  qed
qed

lemma read_varint64_bounds:
  "read_varint64 data idx = Some (v, e) \<Longrightarrow> idx < e \<and> e \<le> length data \<and> e \<le> idx + 10"
  using read_varint64_loop_bounds [of data idx 0 0 v e] by (auto simp: read_varint64_def)

lemma read_varint_bounds:
  "read_varint data idx = Some (v, e) \<Longrightarrow> idx < e \<and> e \<le> length data \<and> e \<le> idx + 10"
  using read_varint64_bounds [of data idx]
  by (fastforce simp: read_varint_def split: option.splits if_splits)

lemma skip_field_bounds:
  "skip_field data idx wire = Some e \<Longrightarrow> idx < e \<and> e \<le> length data"
  using read_varint64_bounds [of data idx] read_varint_bounds [of data idx]
  by (fastforce simp: skip_field_def split: option.splits if_splits)

subsection \<open>Decoding a routing payload\<close>

text \<open>The loop advances on every field, so it needs no bound of its own.\<close>

function decode_routing_loop :: "u8 list \<Rightarrow> nat \<Rightarrow> u32 option \<Rightarrow> routing_decode option" where
  "decode_routing_loop payload idx err =
     (if idx < length payload then
        (case read_varint payload idx of
           None \<Rightarrow> None
         | Some (tag, i) \<Rightarrow>
             let field = drop_bit 3 tag; wire = ucast (tag AND 7) in
             if field = 0 then None
             else if field = 3 \<and> wire = 0 then
               (case read_varint payload i of
                  None \<Rightarrow> None
                | Some (v, ni) \<Rightarrow> decode_routing_loop payload ni (Some v))
             else
               (case skip_field payload i wire of
                  None \<Rightarrow> None
                | Some i \<Rightarrow> decode_routing_loop payload i err))
      else Some \<lparr>rd_error_reason = err\<rparr>)"
  by pat_completeness auto
termination
  by (relation "measure (\<lambda>(payload, idx, err). length payload - idx)")
    (fastforce dest!: read_varint_bounds skip_field_bounds)+

declare decode_routing_loop.simps [simp del]

definition decode_routing_payload :: "u8 list \<Rightarrow> routing_decode option" where
  "decode_routing_payload payload = decode_routing_loop payload 0 None"

section \<open>Varint round trips\<close>

text \<open>The bytes a varint writer emits, for every word width.\<close>

function varint_bytes :: "'a::len word \<Rightarrow> u8 list" where
  "varint_bytes v =
     (if drop_bit 7 v = 0 then [ucast (v AND 0x7F)]
      else (ucast (v AND 0x7F) OR 0x80) # varint_bytes (drop_bit 7 v))"
  by pat_completeness auto
termination
  by (relation "measure unat") (auto intro!: unat_drop_bit_less)

declare varint_bytes.simps [simp del]

lemma push_varint_bytes:
  "length out + length (varint_bytes v) \<le> ROUTING_VEC_CAP \<Longrightarrow>
   push_varint out v = out @ varint_bytes v"
proof (induction out v rule: push_varint.induct)
  case (1 out v)
  show ?case
  proof (cases "drop_bit 7 v = 0")
    case True
    with "1.prems" show ?thesis
      by (simp add: push_varint.simps [of out v] varint_bytes.simps [of v] vec_push_def Let_def)
  next
    case False
    let ?b = "ucast (v AND 0x7F) OR 0x80 :: u8"
    have room: "length out < ROUTING_VEC_CAP"
      "length (out @ [?b]) + length (varint_bytes (drop_bit 7 v)) \<le> ROUTING_VEC_CAP"
      using "1.prems" False by (simp_all add: varint_bytes.simps [of v])
    have "push_varint (out @ [?b]) (drop_bit 7 v) = (out @ [?b]) @ varint_bytes (drop_bit 7 v)"
      using "1.IH" [of "ucast (v AND 0x7F)" "drop_bit 7 v" ?b "out @ [?b]"] False room
      by (simp add: vec_push_def)
    then show ?thesis
      using False room
      by (simp add: push_varint.simps [of out v] varint_bytes.simps [of v] vec_push_def Let_def)
  qed
qed

lemma ucast_low7_or_high:
  fixes v :: "'a::len word"
  assumes "LENGTH('a) \<le> 64"
  shows "push_bit s (ucast (v AND 0x7F)) OR push_bit (s + 7) (ucast (drop_bit 7 v))
    = (push_bit s (ucast v) :: u64)"
proof (rule bit_word_eqI)
  fix n assume "n < LENGTH(64)"
  have m: "(0x7F :: 'a word) = mask 7" by (simp add: mask_eq_exp_minus_1)
  have idx: "s \<le> n \<Longrightarrow> \<not> n - s < 7 \<Longrightarrow> 7 + (n - (s + 7)) = n - s" by simp
  show "bit (push_bit s (ucast (v AND 0x7F)) OR push_bit (s + 7) (ucast (drop_bit 7 v)) :: u64) n
    = bit (push_bit s (ucast v) :: u64) n"
    unfolding m using \<open>n < _\<close> assms bit_imp_le_length [of v] idx
    by (cases "n - s < 7") (auto simp: bit_simps)
qed

lemma varint_byte_bits:
  fixes v :: "'a::len word"
  shows "(ucast (v AND 0x7F) OR 0x80 :: u8) AND 0x7F = ucast (v AND 0x7F)"
    and "(ucast (v AND 0x7F) :: u8) AND 0x7F = ucast (v AND 0x7F)"
    and "(ucast (v AND 0x7F) OR 0x80 :: u8) AND 0x80 \<noteq> 0"
    and "(ucast (v AND 0x7F) :: u8) AND 0x80 = 0"
proof -
  have c: "ucast (v AND 0x7F) = (ucast v AND 0x7F :: u8)"
  proof (rule bit_word_eqI)
    fix n assume "n < LENGTH(8)"
    have m: "(0x7F :: 'a word) = mask 7" "(0x7F :: u8) = mask 7"
      by (simp_all add: mask_eq_exp_minus_1)
    show "bit (ucast (v AND 0x7F) :: u8) n = bit (ucast v AND 0x7F :: u8) n"
      unfolding m using bit_imp_le_length [of v] by (auto simp: bit_simps)
  qed
  have d: "(0x7F :: u8) AND 0x80 = 0" "(0x80 :: u8) AND 0x7F = 0" by simp_all
  show "(ucast (v AND 0x7F) OR 0x80 :: u8) AND 0x7F = ucast (v AND 0x7F)"
    by (simp add: c bit.conj_disj_distrib2 and.assoc d)
  show "(ucast (v AND 0x7F) :: u8) AND 0x7F = ucast (v AND 0x7F)"
    by (simp add: c and.assoc)
  show "(ucast (v AND 0x7F) :: u8) AND 0x80 = 0"
    by (simp add: c and.assoc d)
  show "(ucast (v AND 0x7F) OR 0x80 :: u8) AND 0x80 \<noteq> 0"
    by (simp add: c bit.conj_disj_distrib2 and.assoc d)
qed

lemma ucast_low7_push:
  fixes v :: "'a::len word"
  shows "(ucast ((ucast (v AND 0x7F) :: u8)) :: u64) = ucast (v AND 0x7F)"
proof (rule bit_word_eqI)
  fix n assume "n < LENGTH(64)"
  have m: "(0x7F :: 'a word) = mask 7" by (simp add: mask_eq_exp_minus_1)
  show "bit (ucast (ucast (v AND 0x7F) :: u8) :: u64) n = bit (ucast (v AND 0x7F) :: u64) n"
    unfolding m using \<open>n < _\<close> bit_imp_le_length [of v] by (auto simp: bit_simps)
qed

lemma unat_ucast_low7_le: "unat (ucast (v AND 0x7F) :: u8) \<le> unat (v :: 'a::len word)"
proof -
  have "unat (ucast (v AND 0x7F) :: u8) \<le> unat (v AND 0x7F)"
    by (simp add: unsigned_ucast_eq take_bit_eq_mod)
  also have "\<dots> \<le> unat v"
    using word_and_le2 [of v "0x7F"] by (simp only: word_le_nat_alt)
  finally show ?thesis .
qed

text \<open>
  Reading what was written: the invariant is bitwise, so it needs no bound on the accumulated
  value; the bound on the value left only rules out the overlong tenth byte.
\<close>

lemma read_varint64_loop_bytes:
  fixes v :: "'a::len word"
  assumes "LENGTH('a) \<le> 64" "unat v < 2 ^ (64 - shift)" "shift \<le> 63" "shift mod 7 = 0"
  shows "read_varint64_loop (pre @ varint_bytes v @ post) (length pre) shift acc =
    Some (acc OR push_bit shift (ucast v), length pre + length (varint_bytes v))"
  using assms
proof (induction v arbitrary: pre shift acc rule: varint_bytes.induct)
  case (1 v)
  let ?low = "ucast (v AND 0x7F) :: u8"
  have d7: "unat (drop_bit 7 v) = unat v div 128"
    unfolding unat_drop_bit_eq by (simp add: drop_bit_eq_div)
  show ?case
  proof (cases "drop_bit 7 v = 0")
    case True
    have whole: "push_bit shift (ucast (v AND 0x7F)) = (push_bit shift (ucast v) :: u64)"
      using ucast_low7_or_high [of shift v] "1.prems"(1) True by simp
    have "\<not> (shift = 63 \<and> 1 < ?low)"
      using "1.prems"(2) unat_ucast_low7_le [of v] by (auto simp: word_less_nat_alt)
    then show ?thesis
      using True whole "1.prems"(3)
      by (simp add: read_varint64_loop_step varint_bytes.simps [of v] nth_append
          varint_byte_bits ucast_low7_push)
  next
    case False
    then have big: "128 \<le> unat v"
      using d7 by (metis div_less not_less unat_eq_zero)
    have "shift \<noteq> 63" using "1.prems"(2) big by auto
    then have sh: "shift + 7 \<le> 63"
      using "1.prems"(3,4) by presburger
    have "unat (drop_bit 7 v) < 2 ^ (64 - (shift + 7))"
    proof -
      have "64 - shift = (64 - (shift + 7)) + 7" using sh by simp
      then have "(2::nat) ^ (64 - shift) = 2 ^ (64 - (shift + 7)) * 2 ^ 7"
        by (simp only: power_add)
      then show ?thesis using "1.prems"(2) d7 by (simp add: less_mult_imp_div_less)
    qed
    then have IH: "read_varint64_loop ((pre @ [?low OR 0x80]) @ varint_bytes (drop_bit 7 v) @ post)
        (length (pre @ [?low OR 0x80])) (shift + 7) (acc OR push_bit shift (ucast ?low)) =
      Some ((acc OR push_bit shift (ucast ?low)) OR push_bit (shift + 7) (ucast (drop_bit 7 v)),
        length (pre @ [?low OR 0x80]) + length (varint_bytes (drop_bit 7 v)))"
      by (intro "1.IH") (use False "1.prems" sh in auto)
    have join: "push_bit shift (ucast ?low) OR push_bit (shift + 7) (ucast (drop_bit 7 v)) =
        (push_bit shift (ucast v) :: u64)"
      using ucast_low7_or_high [of shift v] "1.prems"(1) by (simp add: ucast_low7_push)
    show ?thesis
      using False IH \<open>shift \<noteq> 63\<close> "1.prems"(3) join
      by (simp add: read_varint64_loop_step varint_bytes.simps [of v] nth_append
          varint_byte_bits or.assoc)
  qed
qed

lemma read_varint64_bytes:
  fixes v :: "'a::len word"
  assumes "LENGTH('a) \<le> 64"
  shows "read_varint64 (pre @ varint_bytes v @ post) (length pre) =
    Some (ucast v, length pre + length (varint_bytes v))"
proof -
  have "unat v < 2 ^ LENGTH('a)" by (rule unsigned_less)
  also have "\<dots> \<le> 2 ^ 64" by (rule power_increasing [OF assms]) simp
  finally show ?thesis
    using read_varint64_loop_bytes [of v 0 pre post 0] assms by (simp add: read_varint64_def)
qed

lemma length_varint_bytes:
  fixes v :: "'a::len word"
  shows "unat v < 2 ^ (7 * Suc k) \<Longrightarrow> length (varint_bytes v) \<le> Suc k"
proof (induction v arbitrary: k rule: varint_bytes.induct)
  case (1 v)
  show ?case
  proof (cases "drop_bit 7 v = 0")
    case True
    then show ?thesis by (simp add: varint_bytes.simps [of v])
  next
    case False
    have d7: "unat (drop_bit 7 v) = unat v div 128"
      unfolding unat_drop_bit_eq by (simp add: drop_bit_eq_div)
    then obtain j where j: "k = Suc j"
      using False "1.prems" by (cases k) (auto simp: unat_eq_zero [symmetric])
    have "unat (drop_bit 7 v) < 2 ^ (7 * Suc j)"
      unfolding d7
      by (rule less_mult_imp_div_less) (use "1.prems" j in \<open>simp add: power_add\<close>)
    then show ?thesis
      using "1.IH" [OF False, of j] False j by (simp add: varint_bytes.simps [of v])
  qed
qed

lemma length_varint_bytes_u32: "length (varint_bytes (v :: u32)) \<le> 5"
proof -
  have "unat v < 2 ^ 32" using unsigned_less [of v] by simp
  then show ?thesis using length_varint_bytes [of v 4] by simp
qed

text \<open>
  The contract of a field codec: a reader finds at the writer's position exactly the value
  written and stops exactly behind it, whatever precedes and follows.
\<close>

locale field_codec =
  fixes enc :: "'v \<Rightarrow> u8 list" and dec :: "u8 list \<Rightarrow> nat \<Rightarrow> ('v \<times> nat) option"
  assumes dec_enc: "dec (pre @ enc v @ post) (length pre) = Some (v, length pre + length (enc v))"
    and dec_advances: "dec data i = Some (v, e) \<Longrightarrow> i < e \<and> e \<le> length data"
begin

lemma enc_not_empty: "enc v \<noteq> []"
  using dec_enc [of "[]" v "[]"] dec_advances [of "enc v" 0 v 0] by auto

lemma enc_prefix_free: "enc a @ s = enc b @ t \<Longrightarrow> a = b \<and> s = t"
proof -
  assume eq: "enc a @ s = enc b @ t"
  then have "dec (enc a @ s) 0 = Some (b, length (enc b))"
    using dec_enc [of "[]" b t] by simp
  then show "a = b \<and> s = t" using dec_enc [of "[]" a s] eq by simp
qed

lemma enc_seq_inject: "concat (map enc xs) = concat (map enc ys) \<longleftrightarrow> xs = ys"
proof (induction xs arbitrary: ys)
  case Nil
  then show ?case by (cases ys) (auto simp: enc_not_empty)
next
  case (Cons x xs)
  then show ?case by (cases ys) (auto simp: enc_not_empty dest: enc_prefix_free)
qed

end

interpretation varint32: field_codec "varint_bytes :: u32 \<Rightarrow> u8 list" read_varint
proof
  show "read_varint (pre @ varint_bytes v @ post) (length pre) =
      Some (v, length pre + length (varint_bytes v))" for pre post and v :: u32
  proof -
    have "unat v < 2 ^ 32" using unsigned_less [of v, where 'a = nat] by simp
    then have "unat (ucast v :: u64) < 2 ^ 32" "ucast (ucast v :: u64) = v"
      by (simp_all add: unsigned_ucast_eq take_bit_nat_eq_self)
        (auto intro!: bit_word_eqI simp: bit_simps)
    then show ?thesis
      using read_varint64_bytes [where v = v and pre = pre and post = post]
      by (simp add: read_varint_def)
  qed
qed (use read_varint_bounds in blast)

interpretation varint64: field_codec "varint_bytes :: u64 \<Rightarrow> u8 list" read_varint64
proof
  show "read_varint64 (pre @ varint_bytes v @ post) (length pre) =
      Some (v, length pre + length (varint_bytes v))" for pre post and v :: u64
    using read_varint64_bytes [where v = v and pre = pre and post = post] by simp
qed (use read_varint64_bounds in blast)

section \<open>Properties\<close>

text \<open>
  C28. The 32-bit varint writer and reader are inverse: with room for five more bytes in the
  vector, reading at the position where the writer started gives the value back and stops
  exactly where the writer stopped, whatever follows.
\<close>

theorem varint_round_trip:
  assumes "length out + 5 \<le> ROUTING_VEC_CAP"
  shows "read_varint (push_varint out v @ post) (length out) = Some (v, length (push_varint out v))"
proof -
  have "push_varint out v = out @ varint_bytes v"
    using assms length_varint_bytes_u32 [of v] by (intro push_varint_bytes) simp
  then show ?thesis using varint32.dec_enc [of out v post] by simp
qed

theorem varint_round_trip_witness:
  "read_varint (push_varint [7, 7] 300 @ [9]) 2 = Some (300, 4)"
proof -
  have "push_varint [7, 7] 300 = [7, 7, 0xAC, 2]"
    by (simp add: ROUTING_VEC_CAP_def push_varint.simps vec_push_def)
  then show ?thesis
    using varint_round_trip [of "[7, 7]" 300 "[9]"]
    by (simp add: ROUTING_VEC_CAP_def numeral_2_eq_2)
qed

text \<open>
  A negative 32-bit number in its canonical protobuf form (sign-extended to 64 bits, then
  written as a varint) is read back as that number by the signed reader, and so is every
  non-negative one.
\<close>

theorem read_varint_i32_canonical:
  "read_varint_i32 (pre @ varint_bytes (scast (x :: u32) :: u64) @ post) (length pre) =
     Some (sint x, length pre + length (varint_bytes (scast x :: u64)))"
proof -
  have "ucast (scast x :: u64) = x"
    by (rule bit_word_eqI) (auto simp: bit_simps)
  then show ?thesis
    using varint64.dec_enc [of pre "scast x" post] by (simp add: read_varint_i32_def)
qed

text \<open>
  Every reader of the protobuf layer advances and stays inside the buffer, by at most ten
  bytes for a varint. This is what makes the field loops above them finite and their indexing
  safe.
\<close>

theorem readers_advance_in_bounds:
  "(read_varint64 data idx = Some (v, e) \<longrightarrow> idx < e \<and> e \<le> length data \<and> e \<le> idx + 10) \<and>
   (read_varint data idx = Some (w, e) \<longrightarrow> idx < e \<and> e \<le> length data \<and> e \<le> idx + 10) \<and>
   (skip_field data idx wire = Some e \<longrightarrow> idx < e \<and> e \<le> length data)"
  by (simp add: read_varint64_bounds read_varint_bounds skip_field_bounds)

theorem readers_advance_in_bounds_witness:
  "skip_field [0xFF, 1, 2, 3, 4, 5] 1 5 = Some 5 \<and> (5::nat) \<le> length [0xFF, 1, 2, 3, 4, 5 :: u8]"
  using readers_advance_in_bounds [of "[0xFF, 1, 2, 3, 4, 5]" 1 0 5 0 5]
  by (simp add: skip_field_def)

text \<open>
  An acknowledgement's routing payload decodes to exactly the error reason it was built
  with, for every 32-bit reason.
\<close>

theorem routing_error_round_trip:
  "decode_routing_payload (encode_routing_error reason) = Some \<lparr>rd_error_reason = Some reason\<rparr>"
proof -
  have enc: "encode_routing_error reason = 24 # varint_bytes reason"
    using push_varint_bytes [of "[24]" reason] length_varint_bytes_u32 [of reason]
    by (simp add: encode_routing_error_def vec_push_def ROUTING_VEC_CAP_def)
  let ?p = "24 # varint_bytes reason"
  have tag: "read_varint ?p 0 = Some (24, 1)"
    using varint32.dec_enc [of "[]" 24 "varint_bytes reason"] by (simp add: varint_bytes.simps)
  have val: "read_varint ?p 1 = Some (reason, length ?p)"
    using varint32.dec_enc [of "[24]" reason "[]"] by simp
  have "decode_routing_loop ?p 0 None = decode_routing_loop ?p (length ?p) (Some reason)"
    by (subst decode_routing_loop.simps) (simp add: tag val [unfolded One_nat_def])
  moreover have "decode_routing_loop ?p (length ?p) (Some reason) =
      Some \<lparr>rd_error_reason = Some reason\<rparr>"
    by (subst decode_routing_loop.simps) simp
  ultimately show ?thesis
    by (simp only: enc decode_routing_payload_def)
qed

end
