(* ===== verification/Dedup.thy ===== *)
theory Dedup
  imports Prelude
begin

text \<open>
  The two caches that decide whether a packet was seen before: \<open>PacketHistory\<close>
  (\<open>packet_history.rs\<close>, keyed by sender and packet id, with the largest hop limit heard)
  and \<open>BridgeDedupCache\<close> (\<open>bridge.rs\<close>, keyed by sender, id and target radio). Both are
  rings: an array of fixed size with a head, where the next new entry overwrites the oldest.
  The locale \<open>ring_cache\<close> states that contract once; its lemmas say for how long an
  entry is kept, and both caches interpret it.
\<close>

section \<open>Rings that overwrite their oldest entry\<close>

text \<open>
  Slots from the newest to the oldest, and what a store does: the newest comes first and the
  oldest falls out. \<open>newest_first\<close> reads the array backwards from the head.
\<close>

definition newest_first :: "'e list \<Rightarrow> nat \<Rightarrow> 'e list" where
  "newest_first xs h = rev (rotate h xs)"

lemma newest_first_put:
  assumes "h < length xs"
  shows "newest_first (xs[h := e]) (Suc h mod length xs) = e # butlast (newest_first xs h)"
proof -
  have split: "xs = take h xs @ xs ! h # drop (Suc h) xs"
    using assms by (rule id_take_nth_drop)
  have rot: "rotate h xs = xs ! h # drop (Suc h) xs @ take h xs"
    using assms by (simp add: rotate_drop_take Cons_nth_drop_Suc [symmetric])
  have upd: "xs[h := e] = take h xs @ e # drop (Suc h) xs"
    using assms by (simp add: upd_conv_take_nth_drop)
  have "rotate (Suc h mod length xs) (xs[h := e]) = rotate (Suc h) (xs[h := e])"
    by (metis length_list_update rotate_conv_mod)
  also have "\<dots> = rotate1 (rotate h (xs[h := e]))" by simp
  also have "rotate h (xs[h := e]) = e # drop (Suc h) xs @ take h xs"
    using assms upd by (simp add: rotate_drop_take)
  finally show ?thesis using rot by (simp add: newest_first_def butlast_append)
qed

lemma length_newest_first [simp]: "length (newest_first xs h) = length xs"
  by (simp add: newest_first_def)

lemma set_newest_first [simp]: "set (newest_first xs h) = set xs"
  by (simp add: newest_first_def)

lemma map_newest_first: "map f (newest_first xs h) = newest_first (map f xs) h"
  by (simp add: newest_first_def rev_map rotate_map)

text \<open>
  The contract: \<open>ins\<close> leaves the ring alone when the key cannot be stored or is already
  known, and otherwise pushes the key in front of the slots and drops the oldest slot. A blank
  slot has a key that is not valid, so it never counts as known.
\<close>

locale ring_cache =
  fixes N :: nat and inv :: "'s \<Rightarrow> bool" and slots :: "'s \<Rightarrow> 'k list"
    and valid :: "'k \<Rightarrow> bool" and storable :: "'x \<Rightarrow> bool" and key :: "'x \<Rightarrow> 'k"
    and ins :: "'x \<Rightarrow> 's \<Rightarrow> 's"
  assumes ring_inv: "inv s \<Longrightarrow> inv (ins x s)"
    and ring_length: "inv s \<Longrightarrow> length (slots s) = N"
    and ring_slots: "inv s \<Longrightarrow> slots (ins x s) =
      (if \<not> storable x \<or> valid (key x) \<and> key x \<in> set (slots s) then slots s
       else key x # butlast (slots s))"
begin

lemma fold_inv: "inv s \<Longrightarrow> inv (fold ins xs s)"
  by (induction xs arbitrary: s) (auto intro: ring_inv)

lemma ins_age:
  assumes "inv s" "i < N" "k \<in> set (take i (slots s))"
  shows "k \<in> set (take (Suc i) (slots (ins x s)))"
proof -
  have "set (take i (slots s)) \<subseteq> set (take (Suc i) (slots s))"
    by (intro set_take_subset_set_take) simp
  moreover have "take (Suc i) (key x # butlast (slots s)) = key x # take i (slots s)"
    using assms(1,2) by (auto simp: butlast_conv_take ring_length min_def)
  ultimately show ?thesis using assms by (auto simp: ring_slots)
qed

lemma fold_age:
  "inv s \<Longrightarrow> k \<in> set (take i (slots s)) \<Longrightarrow> i + length xs \<le> N \<Longrightarrow>
   k \<in> set (take (i + length xs) (slots (fold ins xs s)))"
proof (induction xs arbitrary: i s)
  case (Cons x xs)
  then have "k \<in> set (take (Suc i) (slots (ins x s)))"
    by (intro ins_age) auto
  with Cons.IH [of "ins x s" "Suc i"] Cons.prems show ?case
    by (simp add: ring_inv)
qed simp

text \<open>The last \<open>N\<close> keys stored before anything else is stored stay known.\<close>

lemma fresh_in_front:
  "inv s \<Longrightarrow> storable x \<Longrightarrow> valid (key x) \<Longrightarrow> key x \<notin> set (slots s) \<Longrightarrow> 0 < N \<Longrightarrow>
   key x \<in> set (take 1 (slots (ins x s)))"
  by (simp add: ring_slots)

lemma retained:
  assumes "inv s" "storable x" "valid (key x)" "key x \<notin> set (slots s)" "length ys < N"
  shows "key x \<in> set (slots (fold ins ys (ins x s)))"
  using fold_age [OF ring_inv [OF assms(1)] fresh_in_front [OF assms(1-4)], of ys] assms(5)
  by (auto dest: in_set_takeD)

lemma no_false_positive:
  "inv s \<Longrightarrow> k \<in> set (slots (fold ins xs s)) \<Longrightarrow>
   k \<in> set (slots s) \<or> (\<exists>x \<in> set xs. storable x \<and> key x = k)"
proof (induction xs arbitrary: s)
  case (Cons x xs)
  then have "k \<in> set (slots (ins x s)) \<or> (\<exists>x \<in> set xs. storable x \<and> key x = k)"
    by (auto simp: ring_inv)
  with Cons.prems(1) show ?case
    by (auto simp: ring_slots split: if_splits dest: in_set_butlastD)
qed simp

lemma fold_fresh_slots:
  assumes "inv s" "\<forall>x \<in> set xs. storable x \<and> valid (key x) \<and> key x \<notin> set (slots s)"
    "distinct (map key xs)" "length xs \<le> N"
  shows "slots (fold ins xs s) = rev (map key xs) @ take (N - length xs) (slots s)"
  using assms
proof (induction xs rule: rev_induct)
  case Nil
  then show ?case by (simp add: ring_length)
next
  case (snoc x xs)
  define t where "t = fold ins xs s"
  have t: "slots t = rev (map key xs) @ take (N - length xs) (slots s)" "inv t"
    using snoc fold_inv [of s xs] by (auto simp: t_def)
  have "key x \<notin> set (slots t)"
    using t snoc.prems by (auto dest: in_set_takeD)
  then have "slots (ins x t) = key x # butlast (slots t)"
    using t(2) snoc.prems by (simp add: ring_slots)
  also have "butlast (slots t) = rev (map key xs) @ take (N - length (xs @ [x])) (slots s)"
    using t(1) ring_length [OF snoc.prems(1)] snoc.prems(4)
    by (auto simp: butlast_append butlast_take)
  finally show ?case by (simp add: t_def)
qed

text \<open>And \<open>N\<close> new keys push everything older out.\<close>

lemma forgotten:
  assumes "inv s" "\<forall>x \<in> set xs. storable x \<and> valid (key x) \<and> key x \<notin> set (slots s)"
    "distinct (map key xs)" "length xs = N" "k \<in> set (slots s)"
  shows "k \<notin> set (slots (fold ins xs s))"
  using fold_fresh_slots [OF assms(1-3)] assms(2,4,5) by auto

end

section \<open>Packet history\<close>

definition HISTORY_SIZE :: nat where "HISTORY_SIZE = 64"

record history_entry =
  he_from :: u32
  he_id :: u32
  he_max_hop_limit :: u8

datatype observe_result = ObsNew | ObsDuplicate | ObsUpgraded

record packet_history =
  hist_entries :: "history_entry list"
  hist_head :: nat

definition history_new :: packet_history where
  "history_new = \<lparr>hist_entries =
     replicate HISTORY_SIZE \<lparr>he_from = 0, he_id = 0, he_max_hop_limit = 0\<rparr>, hist_head = 0\<rparr>"

definition history_matches :: "u32 \<Rightarrow> u32 \<Rightarrow> history_entry \<Rightarrow> bool" where
  "history_matches frm pid e \<longleftrightarrow> he_from e = frm \<and> he_id e = pid \<and> he_from e \<noteq> 0"

definition history_find :: "packet_history \<Rightarrow> u32 \<Rightarrow> u32 \<Rightarrow> history_entry option" where
  "history_find s frm pid = find (history_matches frm pid) (hist_entries s)"

text \<open>\<open>find_mut\<close> gives the place of the entry instead of a copy of it.\<close>

definition history_find_mut :: "packet_history \<Rightarrow> u32 \<Rightarrow> u32 \<Rightarrow> nat option" where
  "history_find_mut s frm pid = position (history_matches frm pid) (hist_entries s)"

definition history_store :: "packet_history \<Rightarrow> u32 \<Rightarrow> u32 \<Rightarrow> u8 \<Rightarrow> packet_history" where
  "history_store s frm pid hop_limit =
     (case history_find_mut s frm pid of
        Some i \<Rightarrow>
          if he_max_hop_limit (hist_entries s ! i) < hop_limit then
            s\<lparr>hist_entries := (hist_entries s)
                [i := (hist_entries s ! i)\<lparr>he_max_hop_limit := hop_limit\<rparr>]\<rparr>
          else s
      | None \<Rightarrow>
          s\<lparr>hist_entries := (hist_entries s)[hist_head s :=
                \<lparr>he_from = frm, he_id = pid, he_max_hop_limit = hop_limit\<rparr>],
            hist_head := (hist_head s + 1) mod HISTORY_SIZE\<rparr>)"

definition observe ::
  "packet_history \<Rightarrow> u32 \<Rightarrow> u32 \<Rightarrow> u8 \<Rightarrow> packet_history \<times> observe_result" where
  "observe s frm pid hop_limit =
     (if pid = 0 then (s, ObsNew)
      else
        (case history_find s frm pid of
           Some e \<Rightarrow>
             if he_max_hop_limit e < hop_limit
             then (history_store s frm pid hop_limit, ObsUpgraded)
             else (s, ObsDuplicate)
         | None \<Rightarrow> (history_store s frm pid hop_limit, ObsNew)))"

definition history_max_hop_limit :: "packet_history \<Rightarrow> u32 \<Rightarrow> u32 \<Rightarrow> u8 option" where
  "history_max_hop_limit s frm pid = map_option he_max_hop_limit (history_find s frm pid)"

definition is_duplicate :: "packet_history \<Rightarrow> u32 \<Rightarrow> u32 \<Rightarrow> bool" where
  "is_duplicate s frm pid \<longleftrightarrow> history_find s frm pid \<noteq> None"

definition history_remember :: "packet_history \<Rightarrow> u32 \<Rightarrow> u32 \<Rightarrow> packet_history" where
  "history_remember s frm pid = history_store s frm pid 0"

section \<open>Bridge dedup cache\<close>

definition BRIDGE_DEDUP_SIZE :: nat where "BRIDGE_DEDUP_SIZE = 32"

record bridge_dedup_entry =
  be_from :: u32
  be_id :: u32
  be_target_radio :: u8

record bridge_dedup_cache =
  bridge_entries :: "bridge_dedup_entry list"
  bridge_head :: nat

definition bridge_dedup_new :: bridge_dedup_cache where
  "bridge_dedup_new = \<lparr>bridge_entries =
     replicate BRIDGE_DEDUP_SIZE \<lparr>be_from = 0, be_id = 0, be_target_radio = 0\<rparr>, bridge_head = 0\<rparr>"

definition bridge_seen :: "bridge_dedup_cache \<Rightarrow> u32 \<Rightarrow> u32 \<Rightarrow> u8 \<Rightarrow> bool" where
  "bridge_seen s frm pid target \<longleftrightarrow>
     (if frm = 0 \<or> pid = 0 then False
      else list_ex (\<lambda>e. be_from e = frm \<and> be_id e = pid \<and> be_target_radio e = target)
             (bridge_entries s))"

definition bridge_remember ::
  "bridge_dedup_cache \<Rightarrow> u32 \<Rightarrow> u32 \<Rightarrow> u8 \<Rightarrow> bridge_dedup_cache" where
  "bridge_remember s frm pid target =
     (if frm = 0 \<or> pid = 0 then s
      else if bridge_seen s frm pid target then s
      else s\<lparr>bridge_entries := (bridge_entries s)[bridge_head s :=
               \<lparr>be_from = frm, be_id = pid, be_target_radio = target\<rparr>],
             bridge_head := (bridge_head s + 1) mod BRIDGE_DEDUP_SIZE\<rparr>)"

section \<open>Both caches are ring caches\<close>

definition history_inv :: "packet_history \<Rightarrow> bool" where
  "history_inv s \<longleftrightarrow> length (hist_entries s) = HISTORY_SIZE \<and> hist_head s < HISTORY_SIZE"

definition history_slots :: "packet_history \<Rightarrow> (u32 \<times> u32) list" where
  "history_slots s = map (\<lambda>e. (he_from e, he_id e)) (newest_first (hist_entries s) (hist_head s))"

definition bridge_inv :: "bridge_dedup_cache \<Rightarrow> bool" where
  "bridge_inv s \<longleftrightarrow>
     length (bridge_entries s) = BRIDGE_DEDUP_SIZE \<and> bridge_head s < BRIDGE_DEDUP_SIZE"

definition bridge_slots :: "bridge_dedup_cache \<Rightarrow> (u32 \<times> u32 \<times> u8) list" where
  "bridge_slots s = map (\<lambda>e. (be_from e, be_id e, be_target_radio e))
     (newest_first (bridge_entries s) (bridge_head s))"

lemma history_find_None:
  "history_find s frm pid = None \<longleftrightarrow> frm = 0 \<or> (frm, pid) \<notin> set (history_slots s)"
  by (auto simp: history_find_def history_matches_def history_slots_def find_None_iff)

lemma is_duplicate_iff: "is_duplicate s frm pid \<longleftrightarrow> frm \<noteq> 0 \<and> (frm, pid) \<in> set (history_slots s)"
  using history_find_None [of s frm pid] by (simp add: is_duplicate_def)

lemma history_find_mut_iff:
  "history_find s frm pid = map_option (\<lambda>i. hist_entries s ! i) (history_find_mut s frm pid)"
  by (simp add: history_find_def history_find_mut_def find_position)

lemma history_find_mutD:
  "history_find_mut s frm pid = Some i \<Longrightarrow>
   i < length (hist_entries s) \<and> history_matches frm pid (hist_entries s ! i)"
  using position_SomeD [of "history_matches frm pid"] by (simp add: history_find_mut_def)

lemma history_store_inv: "history_inv s \<Longrightarrow> history_inv (history_store s frm pid hl)"
  by (auto simp: history_inv_def history_store_def HISTORY_SIZE_def split: option.splits)

lemma history_store_slots:
  assumes "history_inv s"
  shows "history_slots (history_store s frm pid hl) =
    (if is_duplicate s frm pid then history_slots s
     else (frm, pid) # butlast (history_slots s))"
proof (cases "history_find_mut s frm pid")
  case None
  then have "\<not> is_duplicate s frm pid"
    by (simp add: is_duplicate_def history_find_mut_iff)
  with None assms show ?thesis
    using newest_first_put [of "hist_head s" "hist_entries s"]
    by (simp add: history_store_def history_slots_def history_inv_def map_butlast)
next
  case (Some i)
  have same: "map (\<lambda>e. (he_from e, he_id e))
      ((hist_entries s)[i := (hist_entries s ! i)\<lparr>he_max_hop_limit := hl\<rparr>]) =
    map (\<lambda>e. (he_from e, he_id e)) (hist_entries s)"
    using history_find_mutD [OF Some] by (intro nth_equalityI) (auto simp: nth_list_update)
  from Some have "is_duplicate s frm pid"
    by (simp add: is_duplicate_def history_find_mut_iff)
  with Some same show ?thesis
    by (simp add: history_store_def history_slots_def map_newest_first)
qed

lemma observe_store:
  "fst (observe s frm pid hl) = (if pid = 0 then s else history_store s frm pid hl)"
  by (auto simp: observe_def history_store_def history_find_mut_iff split: option.splits)

interpretation history: ring_cache HISTORY_SIZE history_inv history_slots
  "\<lambda>(frm, pid). frm \<noteq> 0" "\<lambda>(frm, pid, hl). pid \<noteq> 0" "\<lambda>(frm, pid, hl). (frm, pid)"
  "\<lambda>(frm, pid, hl) s. fst (observe s frm pid hl)"
proof unfold_locales
  show "history_inv s \<Longrightarrow> length (history_slots s) = HISTORY_SIZE" for s
    by (simp add: history_slots_def history_inv_def)
qed (auto simp: observe_store history_store_inv history_store_slots is_duplicate_iff
    split: prod.splits)

lemma bridge_seen_iff:
  "bridge_seen s frm pid r \<longleftrightarrow> frm \<noteq> 0 \<and> pid \<noteq> 0 \<and> (frm, pid, r) \<in> set (bridge_slots s)"
  by (auto simp: bridge_seen_def bridge_slots_def list_ex_iff)

lemma bridge_remember_slots:
  assumes "bridge_inv s"
  shows "bridge_slots (bridge_remember s frm pid r) =
    (if frm = 0 \<or> pid = 0 \<or> bridge_seen s frm pid r then bridge_slots s
     else (frm, pid, r) # butlast (bridge_slots s))"
  using assms newest_first_put [of "bridge_head s" "bridge_entries s"]
  by (auto simp: bridge_remember_def bridge_slots_def bridge_inv_def map_butlast)

lemma bridge_remember_inv: "bridge_inv s \<Longrightarrow> bridge_inv (bridge_remember s frm pid r)"
  by (auto simp: bridge_inv_def bridge_remember_def BRIDGE_DEDUP_SIZE_def)

interpretation bridge: ring_cache BRIDGE_DEDUP_SIZE bridge_inv bridge_slots
  "\<lambda>(frm, pid, r). frm \<noteq> 0 \<and> pid \<noteq> 0" "\<lambda>(frm, pid, r). frm \<noteq> 0 \<and> pid \<noteq> 0" "\<lambda>x. x"
  "\<lambda>(frm, pid, r) s. bridge_remember s frm pid r"
proof unfold_locales
  show "bridge_inv s \<Longrightarrow> length (bridge_slots s) = BRIDGE_DEDUP_SIZE" for s
    by (simp add: bridge_slots_def bridge_inv_def)
qed (auto simp: bridge_remember_slots bridge_remember_inv bridge_seen_iff split: prod.splits)

lemma history_new_inv: "history_inv history_new"
  by (simp add: history_inv_def history_new_def HISTORY_SIZE_def)

lemma bridge_new_inv: "bridge_inv bridge_dedup_new"
  by (simp add: bridge_inv_def bridge_dedup_new_def BRIDGE_DEDUP_SIZE_def)

section \<open>The largest hop limit heard\<close>

text \<open>
  A store raises the entry of its own packet, and it leaves the lookup of every packet alone that
  is not in the slot it may reuse.
\<close>

lemma history_store_max_hop:
  assumes "history_inv s" and free: "\<not> history_matches f' i' (hist_entries s ! hist_head s)"
  shows "history_max_hop_limit (history_store s f i h) f' i' =
    (if f' = f \<and> i' = i \<and> f \<noteq> 0
     then Some (case history_max_hop_limit s f i of None \<Rightarrow> h | Some m \<Rightarrow> max m h)
     else history_max_hop_limit s f' i')"
proof (cases "history_find_mut s f i")
  case None
  have hd: "hist_head s < length (hist_entries s)" using assms(1) by (simp add: history_inv_def)
  from None have nf: "find (history_matches f i) (hist_entries s) = None"
    using history_find_mut_iff [of s f i] by (simp add: history_find_def)
  let ?e = "\<lparr>he_from = f, he_id = i, he_max_hop_limit = h\<rparr>"
  have new: "history_find (history_store s f i h) f' i' =
      find (history_matches f' i') ((hist_entries s)[hist_head s := ?e])"
    using None by (simp add: history_store_def history_find_def)
  show ?thesis
  proof (cases "f' = f \<and> i' = i \<and> f \<noteq> 0")
    case True
    then have "history_matches f i ?e" by (simp add: history_matches_def)
    with True new find_update_fresh [OF nf hd] nf show ?thesis
      by (simp add: history_max_hop_limit_def history_find_def)
  next
    case False
    then have "\<not> history_matches f' i' ?e" by (auto simp: history_matches_def)
    with False new find_update_other [of "hist_head s" "hist_entries s" "history_matches f' i'", OF hd free] show ?thesis
      by (auto simp: history_max_hop_limit_def history_find_def)
  qed
next
  case (Some j)
  have j: "j < length (hist_entries s)" "history_matches f i (hist_entries s ! j)"
    using history_find_mutD [OF Some] by auto
  have pos: "position (history_matches f i) (hist_entries s) = Some j"
    using Some by (simp add: history_find_mut_def)
  let ?e = "(hist_entries s ! j)\<lparr>he_max_hop_limit := h\<rparr>"
  have old: "history_max_hop_limit s f i = Some (he_max_hop_limit (hist_entries s ! j))"
    using Some by (simp add: history_max_hop_limit_def history_find_mut_iff)
  show ?thesis
  proof (cases "f' = f \<and> i' = i")
    case True
    moreover have "history_matches f i ?e" "f \<noteq> 0" using j by (auto simp: history_matches_def)
    ultimately show ?thesis
      using Some old find_update_first [OF pos]
      by (auto simp: history_store_def history_max_hop_limit_def history_find_def max_def)
  next
    case False
    then have "\<not> history_matches f' i' ?e" "\<not> history_matches f' i' (hist_entries s ! j)"
      using j by (auto simp: history_matches_def)
    with False Some find_update_other [OF j(1)] show ?thesis
      by (auto simp: history_store_def history_max_hop_limit_def history_find_def)
  qed
qed

text \<open>
  A packet that is only among the \<open>n\<close> newest slots is not in the slot that is reused next, and one
  more store puts it at most one place further back.
\<close>

definition newer_than :: "nat \<Rightarrow> packet_history \<Rightarrow> u32 \<Rightarrow> u32 \<Rightarrow> bool" where
  "newer_than n s f i \<longleftrightarrow> history_inv s \<and> (f, i) \<notin> set (drop n (history_slots s))"

lemma newer_than_head:
  assumes "newer_than n s f i" "n < HISTORY_SIZE"
  shows "\<not> history_matches f i (hist_entries s ! hist_head s)"
proof -
  have inv: "length (hist_entries s) = HISTORY_SIZE" "hist_head s < HISTORY_SIZE"
    using assms(1) by (auto simp: newer_than_def history_inv_def)
  let ?e = "hist_entries s ! hist_head s"
  have "last (newest_first (hist_entries s) (hist_head s)) = ?e" "newest_first (hist_entries s) (hist_head s) \<noteq> []"
    using inv by (auto simp: newest_first_def last_rev rotate_drop_take hd_append hd_drop_conv_nth)
  then have "last (drop n (history_slots s)) = (he_from ?e, he_id ?e)" "drop n (history_slots s) \<noteq> []"
    using assms(2) inv by (simp_all add: history_slots_def last_map)
  then have "(he_from ?e, he_id ?e) \<in> set (drop n (history_slots s))" by (metis last_in_set)
  then show ?thesis using assms(1) by (auto simp: newer_than_def history_matches_def)
qed

lemma newer_than_store:
  assumes "newer_than n s f i"
  shows "newer_than (Suc n) (history_store s f' i' h) f i"
proof -
  have "set (drop n (butlast (history_slots s))) \<subseteq> set (drop n (history_slots s))"
    by (auto simp: butlast_conv_take drop_take dest: in_set_takeD)
  moreover have "set (drop (Suc n) (history_slots s)) \<subseteq> set (drop n (history_slots s))"
    by (rule set_drop_subset_set_drop) simp
  ultimately show ?thesis
    using assms history_store_inv history_store_slots by (auto simp: newer_than_def)
qed

text \<open>The observations of a packet in a list of them.\<close>

definition heard :: "(u32 \<times> u32 \<times> u8) list \<Rightarrow> u32 \<Rightarrow> u32 \<Rightarrow> u8 set" where
  "heard xs f i = {h. (f, i, h) \<in> set xs}"

definition observe_all :: "(u32 \<times> u32 \<times> u8) list \<Rightarrow> packet_history \<Rightarrow> packet_history" where
  "observe_all = fold (\<lambda>(f, i, h) s. fst (observe s f i h))"

lemma finite_heard: "finite (heard xs f i)"
  by (rule finite_subset [of _ "(\<lambda>(f, i, h). h) ` set xs"]) (force simp: heard_def)+

lemma observe_all_max_hop:
  assumes "history_inv s" "\<not> is_duplicate s f i" "length xs \<le> HISTORY_SIZE" "f \<noteq> 0" "i \<noteq> 0"
  shows "newer_than (length xs) (observe_all xs s) f i \<and>
    history_max_hop_limit (observe_all xs s) f i =
      (if heard xs f i = {} then None else Some (Max (heard xs f i)))"
  using assms(3)
proof (induction xs rule: rev_induct)
  case Nil
  show ?case
    using assms(1,2,4)
    by (simp add: observe_all_def heard_def newer_than_def is_duplicate_iff history_max_hop_limit_def history_find_None)
next
  case (snoc x xs)
  obtain f' i' h where x: "x = (f', i', h)" by (cases x)
  define t where "t = observe_all xs s"
  have new: "newer_than (length xs) t f i" and n: "length xs < HISTORY_SIZE"
    and mx: "history_max_hop_limit t f i =
      (if heard xs f i = {} then None else Some (Max (heard xs f i)))"
    using snoc by (simp_all add: t_def)
  have inv: "history_inv t" using new by (simp add: newer_than_def)
  have step: "observe_all (xs @ [x]) s = (if i' = 0 then t else history_store t f' i' h)"
    by (simp add: observe_all_def t_def x observe_store)
  have "set (drop (Suc (length xs)) (history_slots t)) \<subseteq> set (drop (length xs) (history_slots t))"
    by (rule set_drop_subset_set_drop) simp
  then have new': "newer_than (length (xs @ [x])) (observe_all (xs @ [x]) s) f i"
    using newer_than_store [OF new] new by (auto simp: step newer_than_def)
  have hrd: "heard (xs @ [x]) f i = (if f' = f \<and> i' = i then insert h (heard xs f i) else heard xs f i)"
    by (auto simp: heard_def x)
  have "history_max_hop_limit (observe_all (xs @ [x]) s) f i =
      (if heard (xs @ [x]) f i = {} then None else Some (Max (heard (xs @ [x]) f i)))"
    using assms(4,5) mx finite_heard [of xs f i]
    by (auto simp: step hrd history_store_max_hop [OF inv newer_than_head [OF new n]] max.commute)
  with new' show ?case by simp
qed

section \<open>Properties\<close>

text \<open>
  C18. What a history tells about a packet that it did not hold, after any sequence of at most 64
  observations, from any well-formed state: it reports the largest hop limit the packet was heard
  with in them, and nothing when it was not heard. The next observation of the packet is New when it
  was not heard, Upgraded when its hop limit is above every one heard, and Duplicate otherwise.
\<close>

theorem observe_reports_largest_hop_limit:
  assumes "history_inv s" "\<not> is_duplicate s f i" "length xs \<le> HISTORY_SIZE" "f \<noteq> 0" "i \<noteq> 0"
  shows "history_max_hop_limit (observe_all xs s) f i =
      (if heard xs f i = {} then None else Some (Max (heard xs f i))) \<and>
    snd (observe (observe_all xs s) f i h) =
      (if heard xs f i = {} then ObsNew
       else if \<forall>h' \<in> heard xs f i. h' < h then ObsUpgraded else ObsDuplicate)"
proof -
  have mx: "history_max_hop_limit (observe_all xs s) f i =
      (if heard xs f i = {} then None else Some (Max (heard xs f i)))"
    using observe_all_max_hop [OF assms] by blast
  moreover have "snd (observe s f i h) =
      (case history_max_hop_limit s f i of None \<Rightarrow> ObsNew
       | Some m \<Rightarrow> if m < h then ObsUpgraded else ObsDuplicate)" for s
    using assms(5) by (auto simp: observe_def history_max_hop_limit_def split: option.splits)
  ultimately show ?thesis
    using finite_heard [of xs f i] by auto
qed

theorem observe_reports_largest_hop_limit_witness:
  "history_max_hop_limit (observe_all [(7, 1, 2), (8, 1, 6), (7, 1, 3)] (fst (observe history_new 8 5 1))) 7 1 = Some 3 \<and>
   snd (observe (observe_all [(7, 1, 2), (8, 1, 6), (7, 1, 3)] (fst (observe history_new 8 5 1))) 7 1 4) = ObsUpgraded"
proof -
  let ?s = "fst (observe history_new 8 5 1)"
  have inv: "history_inv ?s" using history.ring_inv [OF history_new_inv, of "(8, 5, 1)"] by simp
  have "history_slots ?s = (8, 5) # butlast (history_slots history_new)" "set (history_slots history_new) \<subseteq> {(0, 0)}"
    using history_store_slots [OF history_new_inv, of 8 5 1]
    by (auto simp: observe_store is_duplicate_iff history_slots_def history_new_def newest_first_def HISTORY_SIZE_def
        dest: in_set_butlastD)
  then have fresh: "\<not> is_duplicate ?s 7 1" by (auto simp: is_duplicate_iff dest: in_set_butlastD)
  have "heard [(7, 1, 2), (8, 1, 6), (7, 1, 3)] 7 1 = {2, 3}" by (auto simp: heard_def)
  then show ?thesis
    using observe_reports_largest_hop_limit [OF inv fresh, of "[(7, 1, 2), (8, 1, 6), (7, 1, 3)]" 4]
    by (simp add: HISTORY_SIZE_def)
qed

text \<open>
  C29. How long the history keeps a packet, from any well-formed state: a packet that was new
  stays a duplicate through any 63 further observations, and is forgotten after 64 further
  observations of packets that were not in the history either.
\<close>

theorem history_retention:
  fixes h :: u8
  assumes "history_inv s" "f \<noteq> 0" "i \<noteq> 0" "\<not> is_duplicate s f i"
  defines "t \<equiv> fst (observe s f i h)"
  shows "(length xs < HISTORY_SIZE \<longrightarrow> is_duplicate (observe_all xs t) f i) \<and>
    (length xs = HISTORY_SIZE \<and> distinct (map (\<lambda>(f, i, h). (f, i)) xs) \<and>
     (\<forall>(f', i', h') \<in> set xs. f' \<noteq> 0 \<and> i' \<noteq> 0 \<and> \<not> is_duplicate t f' i') \<longrightarrow>
       \<not> is_duplicate (observe_all xs t) f i)"
proof (intro conjI impI)
  have fresh: "(f, i) \<notin> set (history_slots s)" using assms by (simp add: is_duplicate_iff)
  assume "length xs < HISTORY_SIZE"
  then show "is_duplicate (observe_all xs t) f i"
    using history.retained [OF assms(1), of "(f, i, h)" xs] assms(2,3) fresh
    by (simp add: is_duplicate_iff observe_all_def t_def)
next
  have inv: "history_inv t" using history.ring_inv [OF assms(1), of "(f, i, h)"] by (simp add: t_def)
  have inn: "(f, i) \<in> set (history_slots t)"
    using history.fresh_in_front [OF assms(1), of "(f, i, h)"] assms(2-4)
    by (auto simp: t_def is_duplicate_iff HISTORY_SIZE_def dest: in_set_takeD)
  assume "length xs = HISTORY_SIZE \<and> distinct (map (\<lambda>(f, i, h). (f, i)) xs) \<and>
     (\<forall>(f', i', h') \<in> set xs. f' \<noteq> 0 \<and> i' \<noteq> 0 \<and> \<not> is_duplicate t f' i')"
  then show "\<not> is_duplicate (observe_all xs t) f i"
    using history.forgotten [OF inv, of xs "(f, i)"] inn
    by (fastforce simp: is_duplicate_iff observe_all_def split: prod.splits)
qed

theorem history_retention_witness:
  "is_duplicate (observe_all [(9, 1, 3), (9, 2, 3)] (fst (observe history_new 7 1 2))) 7 1"
  using history_retention [OF history_new_inv, where h = 2 and f = 7 and i = 1 and
      xs = "[(9, 1, 3), (9, 2, 3)]"]
  by (simp add: HISTORY_SIZE_def is_duplicate_def history_find_def history_new_def
      find_None_iff history_matches_def)

text \<open>
  A bridge leg is reported as already forwarded only when that packet was remembered for
  that very radio, and a leg remembered when it was unknown is reported for at least the next
  31 legs remembered.
\<close>

theorem bridge_dedup_exact:
  assumes "bridge_inv s" "\<not> bridge_seen s f i r" "f \<noteq> 0" "i \<noteq> 0"
  defines "put \<equiv> fold (\<lambda>(f, i, r) s. bridge_remember s f i r)"
  shows "(length xs < BRIDGE_DEDUP_SIZE \<longrightarrow> bridge_seen (put xs (bridge_remember s f i r)) f i r) \<and>
    (bridge_seen (put xs s) f i r \<longrightarrow> (f, i, r) \<in> set xs)"
proof (intro conjI impI)
  have fresh: "(f, i, r) \<notin> set (bridge_slots s)" using assms by (simp add: bridge_seen_iff)
  show "length xs < BRIDGE_DEDUP_SIZE \<Longrightarrow> bridge_seen (put xs (bridge_remember s f i r)) f i r"
    using bridge.retained [OF assms(1), of "(f, i, r)" xs] assms(3,4) fresh
    by (simp add: bridge_seen_iff put_def)
  show "bridge_seen (put xs s) f i r \<Longrightarrow> (f, i, r) \<in> set xs"
    using bridge.no_false_positive [OF assms(1), of "(f, i, r)" xs] fresh
    by (auto simp: bridge_seen_iff put_def)
qed

theorem bridge_dedup_exact_witness:
  "bridge_seen (fold (\<lambda>(f, i, r) s. bridge_remember s f i r) [(7, 1, 2), (8, 1, 1)]
     (bridge_remember bridge_dedup_new 7 1 1)) 7 1 1"
  using bridge_dedup_exact [OF bridge_new_inv, of 7 1 1 "[(7, 1, 2), (8, 1, 1)]"]
  by (simp add: BRIDGE_DEDUP_SIZE_def bridge_seen_def bridge_dedup_new_def list_ex_iff)

end
