(* ===== verification/Pool.thy ===== *)
theory Pool
  imports Wire
begin

text \<open>
  The packet pool (\<open>pool.rs\<close>): sixteen slots handed out by index and generation. A handle
  is good while its slot is in use and has the handle's generation, so a handle kept after its
  release is refused even when the slot is in use again. The lemmas show that the good handles
  are exactly those handed out and not released, whatever the order of operations.
\<close>

section \<open>Model\<close>

definition MAX_PACKET_PAYLOAD :: nat where
  "MAX_PACKET_PAYLOAD = MAX_LORA_PAYLOAD_LEN - PACKET_HEADER_LEN"

definition POOL_SIZE :: nat where "POOL_SIZE = 16"

record packet_handle =
  hd_index :: nat
  hd_generation :: u32

record packet_slot =
  ps_header :: packet_header
  ps_payload :: "u8 list"
  ps_payload_len :: u16

definition slot_empty :: packet_slot where
  "slot_empty =
     \<lparr>ps_header = \<lparr>ph_to = 0, ph_from = 0, ph_id = 0, ph_flags = 0, ph_channel = 0,
        ph_next_hop = 0, ph_relay_node = 0\<rparr>,
      ps_payload = replicate MAX_PACKET_PAYLOAD 0, ps_payload_len = 0\<rparr>"

record packet_pool =
  pool_slots :: "packet_slot list"
  pool_used :: "bool list"
  pool_generations :: "u32 list"

definition pool_new :: packet_pool where
  "pool_new = \<lparr>pool_slots = replicate POOL_SIZE slot_empty,
     pool_used = replicate POOL_SIZE False, pool_generations = replicate POOL_SIZE 0\<rparr>"

definition pool_alloc :: "packet_pool \<Rightarrow> packet_pool \<times> packet_handle option" where
  "pool_alloc p =
     (case position Not (pool_used p) of
        Some i \<Rightarrow>
          let g = pool_generations p ! i + 1 in
          (p\<lparr>pool_used := (pool_used p)[i := True],
             pool_slots := (pool_slots p)[i := slot_empty],
             pool_generations := (pool_generations p)[i := g]\<rparr>,
           Some \<lparr>hd_index = i, hd_generation = g\<rparr>)
      | None \<Rightarrow> (p, None))"

definition pool_get :: "packet_pool \<Rightarrow> packet_handle \<Rightarrow> packet_slot option" where
  "pool_get p h =
     (if hd_index h < POOL_SIZE \<and> pool_used p ! hd_index h
         \<and> pool_generations p ! hd_index h = hd_generation h
      then Some (pool_slots p ! hd_index h) else None)"

definition pool_release :: "packet_pool \<Rightarrow> packet_handle \<Rightarrow> packet_pool" where
  "pool_release p h =
     (if pool_get p h \<noteq> None then p\<lparr>pool_used := (pool_used p)[hd_index h := False]\<rparr> else p)"

text \<open>
  \<open>get_mut\<close> lends the slot out; what the borrower leaves in it is written back, so the
  model takes the borrower's change of the slot.
\<close>

definition pool_get_mut ::
  "packet_pool \<Rightarrow> packet_handle \<Rightarrow> (packet_slot \<Rightarrow> packet_slot) \<Rightarrow> packet_pool option" where
  "pool_get_mut p h change =
     (if hd_index h < POOL_SIZE \<and> pool_used p ! hd_index h
         \<and> pool_generations p ! hd_index h = hd_generation h
      then Some (p\<lparr>pool_slots :=
             (pool_slots p)[hd_index h := change (pool_slots p ! hd_index h)]\<rparr>)
      else None)"

definition free_count :: "packet_pool \<Rightarrow> nat" where
  "free_count p = length (filter Not (pool_used p))"

text \<open>
  \<open>PacketGuard\<close>: making a guard panics on a bad handle (None), \<open>slot\<close> is the
  borrow of its slot, dropping it releases the handle.
\<close>

record packet_guard =
  pg_handle :: packet_handle
  pg_pool :: packet_pool

definition guard_new :: "packet_pool \<Rightarrow> packet_handle \<Rightarrow> packet_guard option" where
  "guard_new p h = (if pool_get p h \<noteq> None then Some \<lparr>pg_handle = h, pg_pool = p\<rparr> else None)"

definition guard_slot :: "packet_guard \<Rightarrow> (packet_slot \<Rightarrow> packet_slot) \<Rightarrow> packet_guard option" where
  "guard_slot g change =
     map_option (\<lambda>p. g\<lparr>pg_pool := p\<rparr>) (pool_get_mut (pg_pool g) (pg_handle g) change)"

definition guard_drop :: "packet_guard \<Rightarrow> packet_pool" where
  "guard_drop g = pool_release (pg_pool g) (pg_handle g)"

section \<open>Invariant\<close>

definition pool_inv :: "packet_pool \<Rightarrow> bool" where
  "pool_inv p \<longleftrightarrow> length (pool_slots p) = POOL_SIZE \<and> length (pool_used p) = POOL_SIZE
     \<and> length (pool_generations p) = POOL_SIZE"

definition good :: "packet_pool \<Rightarrow> packet_handle \<Rightarrow> bool" where
  "good p h \<longleftrightarrow> pool_get p h \<noteq> None"

lemma good_iff:
  "good p h \<longleftrightarrow> hd_index h < POOL_SIZE \<and> pool_used p ! hd_index h
     \<and> pool_generations p ! hd_index h = hd_generation h"
  by (simp add: good_def pool_get_def)

lemma pool_new_inv: "pool_inv pool_new"
  by (simp add: pool_inv_def pool_new_def)

lemma pool_alloc_inv: "pool_inv p \<Longrightarrow> pool_inv (fst (pool_alloc p))"
  by (simp add: pool_alloc_def pool_inv_def Let_def split: option.splits)

lemma pool_release_inv: "pool_inv p \<Longrightarrow> pool_inv (pool_release p h)"
  by (simp add: pool_release_def pool_inv_def)

lemma pool_get_mut_inv: "pool_inv p \<Longrightarrow> pool_get_mut p h f = Some q \<Longrightarrow> pool_inv q"
  by (auto simp: pool_get_mut_def pool_inv_def split: if_splits)

lemma handle_eqI: "hd_index h = hd_index h' \<Longrightarrow> hd_generation h = hd_generation h' \<Longrightarrow> h = (h' :: packet_handle)"
  by simp

text \<open>Allocating adds one good handle, which was not good before, and keeps the others.\<close>

lemma pool_alloc_good:
  assumes "pool_inv p" "pool_alloc p = (q, Some h)"
  shows "good q h" "\<not> good p h" "hd_index k \<noteq> hd_index h \<Longrightarrow> pool_get q k = pool_get p k"
    "good q k \<longleftrightarrow> good p k \<or> k = h" "pool_get q h = Some slot_empty"
proof -
  obtain i where i: "position Not (pool_used p) = Some i"
    using assms(2) by (auto simp: pool_alloc_def split: option.splits)
  have ip: "i < POOL_SIZE" "\<not> pool_used p ! i"
    using position_SomeD [OF i] assms(1) by (auto simp: pool_inv_def)
  have q: "q = p\<lparr>pool_used := (pool_used p)[i := True],
      pool_slots := (pool_slots p)[i := slot_empty],
      pool_generations := (pool_generations p)[i := pool_generations p ! i + 1]\<rparr>"
    and h: "h = \<lparr>hd_index = i, hd_generation = pool_generations p ! i + 1\<rparr>"
    using assms(2) i by (auto simp: pool_alloc_def Let_def)
  show "good q h" "\<not> good p h" "pool_get q h = Some slot_empty"
    using ip assms(1) by (simp_all add: good_iff pool_get_def q h pool_inv_def)
  show other: "hd_index k \<noteq> hd_index h \<Longrightarrow> pool_get q k = pool_get p k" for k
    by (simp add: pool_get_def q h)
  show "good q k \<longleftrightarrow> good p k \<or> k = h"
  proof (cases "hd_index k = i")
    case True
    then show ?thesis
      using ip assms(1) by (cases k) (auto simp: good_iff q h pool_inv_def)
  next
    case False
    then show ?thesis using other [of k] by (auto simp: good_def h)
  qed
qed

lemma pool_release_good:
  assumes "pool_inv p"
  shows "good (pool_release p h) k \<longleftrightarrow> good p k \<and> k \<noteq> h"
    and "hd_index k \<noteq> hd_index h \<Longrightarrow> pool_get (pool_release p h) k = pool_get p k"
  using assms
  by (auto simp: pool_release_def good_iff pool_get_def pool_inv_def nth_list_update
      intro: handle_eqI)

lemma good_same_index: "good p h \<Longrightarrow> good p k \<Longrightarrow> hd_index h = hd_index k \<Longrightarrow> h = k"
  by (auto simp: good_iff intro: handle_eqI)

lemma good_in_range: "card {h. good p h} + free_count p = POOL_SIZE" if "pool_inv p"
proof -
  have "bij_betw hd_index {h. good p h} {i. i < POOL_SIZE \<and> pool_used p ! i}"
  proof (rule bij_betw_imageI)
    show "inj_on hd_index {h. good p h}" by (auto intro!: inj_onI good_same_index)
    have "i \<in> hd_index ` {h. good p h}" if "i < POOL_SIZE" "pool_used p ! i" for i
      using that
      by (intro image_eqI [of _ _ "\<lparr>hd_index = i, hd_generation = pool_generations p ! i\<rparr>"])
        (auto simp: good_iff)
    then show "hd_index ` {h. good p h} = {i. i < POOL_SIZE \<and> pool_used p ! i}"
      by (auto simp: good_iff)
  qed
  then have "card {h. good p h} = card {i. i < length (pool_used p) \<and> pool_used p ! i}"
    using that by (simp add: bij_betw_same_card pool_inv_def)
  also have "\<dots> = length (filter (\<lambda>b. b) (pool_used p))"
    by (simp add: length_filter_conv_card)
  finally show ?thesis
    using that sum_length_filter_compl [of "\<lambda>b. b" "pool_used p"]
    by (simp add: free_count_def pool_inv_def)
qed

lemma finite_handles: "finite {h. good p h}"
  by (rule finite_imageD [of hd_index]) (auto intro!: inj_onI good_same_index
      finite_subset [of _ "{..<POOL_SIZE}"] simp: good_iff)

lemma pool_alloc_None: "pool_alloc p = (q, None) \<longleftrightarrow> q = p \<and> free_count p = 0"
proof -
  have "position Not (pool_used p) = None \<longleftrightarrow> filter Not (pool_used p) = []"
    unfolding position_None_iff filter_empty_conv ..
  then have free: "position Not (pool_used p) = None \<longleftrightarrow> free_count p = 0"
    by (simp only: free_count_def length_0_conv)
  show ?thesis
  proof (cases "position Not (pool_used p)")
    case None
    with free show ?thesis by (simp add: pool_alloc_def eq_commute [of p])
  next
    case (Some i)
    with free show ?thesis by (simp add: pool_alloc_def Let_def)
  qed
qed

section \<open>The allocator's contract\<close>

text \<open>
  A client may do anything in any order, release stale handles included. The contract says
  that the handles a pool accepts are then exactly the outstanding ones.
\<close>

datatype 'h pool_op = Alloc | Release 'h

fun run_pool ::
  "('p \<Rightarrow> 'p \<times> 'h option) \<Rightarrow> ('p \<Rightarrow> 'h \<Rightarrow> 'p) \<Rightarrow> 'h pool_op list \<Rightarrow> 'p \<times> 'h set \<Rightarrow> 'p \<times> 'h set" where
  "run_pool alloc release [] st = st"
| "run_pool alloc release (Alloc # ops) (p, out) =
     (case alloc p of
        (q, None) \<Rightarrow> run_pool alloc release ops (q, out)
      | (q, Some h) \<Rightarrow> run_pool alloc release ops (q, insert h out))"
| "run_pool alloc release (Release h # ops) (p, out) =
     run_pool alloc release ops (release p h, out - {h})"

locale slot_allocator =
  fixes inv :: "'p \<Rightarrow> bool" and alloc :: "'p \<Rightarrow> 'p \<times> 'h option" and release :: "'p \<Rightarrow> 'h \<Rightarrow> 'p"
    and held :: "'p \<Rightarrow> 'h set" and capacity :: nat
  assumes alloc_inv: "inv p \<Longrightarrow> inv (fst (alloc p))"
    and release_inv: "inv p \<Longrightarrow> inv (release p h)"
    and alloc_Some: "inv p \<Longrightarrow> alloc p = (q, Some h) \<Longrightarrow> h \<notin> held p \<and> held q = insert h (held p)"
    and alloc_None: "inv p \<Longrightarrow> alloc p = (q, None) \<Longrightarrow> q = p \<and> card (held p) = capacity"
    and release_held: "inv p \<Longrightarrow> held (release p h) = held p - {h}"
begin

lemma run_outstanding:
  "inv p \<Longrightarrow> held p = out \<Longrightarrow> run_pool alloc release ops (p, out) = (q, out') \<Longrightarrow>
   inv q \<and> held q = out'"
proof (induction ops arbitrary: p out)
  case (Cons op ops)
  show ?case
  proof (cases op)
    case Alloc
    obtain q1 r where al: "alloc p = (q1, r)" by (cases "alloc p")
    then have "inv q1" using alloc_inv [OF Cons.prems(1)] by simp
    then show ?thesis
      using Cons.IH [of q1] Cons.prems Alloc al alloc_Some [of p q1] alloc_None [of p q1]
      by (cases r) auto
  next
    case (Release h)
    then show ?thesis
      using Cons.IH [of "release p h"] Cons.prems by (simp add: release_inv release_held)
  qed
qed simp

end

interpretation pool: slot_allocator pool_inv pool_alloc pool_release "\<lambda>p. {h. good p h}" POOL_SIZE
proof unfold_locales
  show "q = p \<and> card {h. good p h} = POOL_SIZE" if "pool_inv p" "pool_alloc p = (q, None)" for p q
    using that good_in_range [of p] pool_alloc_None [of p q] by simp
qed (auto simp: pool_alloc_inv pool_release_inv pool_alloc_good pool_release_good pool_alloc_None)

section \<open>Stale handles\<close>

text \<open>
  A slot's generation only moves when the slot is handed out, by one each time: after \<open>m\<close>
  allocations of the slot it is \<open>m\<close> further, and with none it is still free.
\<close>

definition stale_after :: "packet_handle \<Rightarrow> nat \<Rightarrow> packet_pool \<Rightarrow> bool" where
  "stale_after h n p \<longleftrightarrow> (\<exists>m \<le> n.
     pool_generations p ! hd_index h = hd_generation h + of_nat m \<and>
     (m = 0 \<longrightarrow> \<not> pool_used p ! hd_index h))"

lemma stale_after_refused:
  assumes "stale_after h n p" "n < 2 ^ 32"
  shows "\<not> good p h"
proof
  assume "good p h"
  then obtain m where "m \<le> n" "(of_nat m :: u32) = 0" "m \<noteq> 0"
    using assms(1) by (auto simp: stale_after_def good_iff)
  moreover have "unat (of_nat m :: u32) = m"
    using \<open>m \<le> n\<close> assms(2) by (simp add: unsigned_of_nat take_bit_nat_eq_self)
  ultimately show False by simp
qed

lemma stale_after_alloc:
  assumes "pool_inv p" "stale_after h n p" "hd_index h < POOL_SIZE"
  shows "stale_after h (Suc n) (fst (pool_alloc p))"
proof -
  obtain m where m: "m \<le> n" "pool_generations p ! hd_index h = hd_generation h + of_nat m"
    "m = 0 \<longrightarrow> \<not> pool_used p ! hd_index h"
    using assms(2) by (auto simp: stale_after_def)
  show ?thesis
  proof (cases "position Not (pool_used p) = Some (hd_index h)")
    case True
    then have "pool_generations (fst (pool_alloc p)) ! hd_index h = hd_generation h + of_nat (Suc m)"
      using assms(1,3) m(2) by (simp add: pool_alloc_def pool_inv_def Let_def)
    then show ?thesis unfolding stale_after_def using m(1) by (blast intro: Suc_le_mono [THEN iffD2])
  next
    case False
    then have "pool_generations (fst (pool_alloc p)) ! hd_index h = pool_generations p ! hd_index h"
      "pool_used (fst (pool_alloc p)) ! hd_index h = pool_used p ! hd_index h"
      by (auto simp: pool_alloc_def Let_def split: option.splits)
    then show ?thesis unfolding stale_after_def using m by (metis le_SucI)
  qed
qed

lemma stale_after_release:
  assumes "pool_inv p" "stale_after h n p"
  shows "stale_after h n (pool_release p k)"
proof -
  have "pool_generations (pool_release p k) = pool_generations p"
    "pool_used (pool_release p k) ! i \<Longrightarrow> pool_used p ! i" for i
    using assms(1)
    by (cases "i = hd_index k"; auto simp: pool_release_def pool_get_def pool_inv_def split: if_splits)+
  with assms(2) show ?thesis unfolding stale_after_def by auto
qed

lemma stale_after_run:
  assumes "pool_inv p" "stale_after h n p" "hd_index h < POOL_SIZE"
  shows "stale_after h (n + length (filter (\<lambda>x. x = Alloc) ops))
    (fst (run_pool pool_alloc pool_release ops (p, out)))"
  using assms
proof (induction ops arbitrary: p n out)
  case (Cons op ops)
  show ?case
  proof (cases op)
    case Alloc
    obtain q r where al: "pool_alloc p = (q, r)" by (cases "pool_alloc p")
    then have "pool_inv q" "stale_after h (Suc n) q"
      using pool_alloc_inv [OF Cons.prems(1)] stale_after_alloc [OF Cons.prems] by simp_all
    then show ?thesis
      using Cons.IH [of q "Suc n"] Cons.prems(3) Alloc al by (cases r) auto
  next
    case (Release k)
    then show ?thesis
      using Cons.IH [of "pool_release p k" n] Cons.prems
      by (simp add: pool_release_inv stale_after_release)
  qed
qed simp

section \<open>Properties\<close>

text \<open>
  C12. Exclusive ownership: from a new pool, after any sequence of allocations and releases
  (releases of stale or invented handles included), the handles the pool accepts are exactly
  those handed out and not yet released, no two of them share a slot, and the free count is
  what is left of the sixteen slots. An allocation fails only when all sixteen are held.
\<close>

theorem pool_exclusive_ownership:
  assumes "run_pool pool_alloc pool_release ops (pool_new, {}) = (p, outstanding)"
  shows "{h. pool_get p h \<noteq> None} = outstanding \<and> inj_on hd_index outstanding \<and>
    card outstanding + free_count p = POOL_SIZE \<and>
    (snd (pool_alloc p) = None \<longleftrightarrow> card outstanding = POOL_SIZE)"
proof -
  have "{h. good pool_new h} = {}"
    by (auto simp: good_iff pool_new_def)
  then have p: "pool_inv p" "{h. good p h} = outstanding"
    using pool.run_outstanding [OF pool_new_inv _ assms] by auto
  moreover have "snd (pool_alloc p) = None \<longleftrightarrow> free_count p = 0"
    using pool_alloc_None [of p "fst (pool_alloc p)"]
    by (metis (no_types, lifting) pool_alloc_None prod.collapse snd_conv)
  ultimately show ?thesis
    using good_in_range [OF p(1)] good_same_index [of p]
    by (auto simp: good_def intro!: inj_onI)
qed

theorem pool_exclusive_ownership_witness:
  "\<exists>p out. run_pool pool_alloc pool_release
     [Alloc, Alloc, Release \<lparr>hd_index = 0, hd_generation = 1\<rparr>] (pool_new, {}) = (p, out) \<and>
     card out + free_count p = POOL_SIZE"
  using pool_exclusive_ownership
    [of "[Alloc, Alloc, Release \<lparr>hd_index = 0, hd_generation = 1\<rparr>]"
      "fst (run_pool pool_alloc pool_release
        [Alloc, Alloc, Release \<lparr>hd_index = 0, hd_generation = 1\<rparr>] (pool_new, {}))"
      "snd (run_pool pool_alloc pool_release
        [Alloc, Alloc, Release \<lparr>hd_index = 0, hd_generation = 1\<rparr>] (pool_new, {}))"]
  by (metis prod.collapse)

text \<open>
  C30. A released handle stays refused through any further operations with fewer than
  \<open>2 ^ 32\<close> allocations, even when its slot has been handed out again in between.
\<close>

theorem stale_handle_refused:
  assumes "pool_inv p" "pool_get p h \<noteq> None"
    "length (filter (\<lambda>x. x = Alloc) ops) < 2 ^ 32"
  shows "pool_get (fst (run_pool pool_alloc pool_release ops (pool_release p h, out))) h = None"
proof -
  have h: "hd_index h < POOL_SIZE" "pool_generations p ! hd_index h = hd_generation h"
    using assms(2) by (auto simp: pool_get_def split: if_splits)
  have "stale_after h 0 (pool_release p h)"
    using assms(1,2) h by (simp add: stale_after_def pool_release_def pool_inv_def)
  from stale_after_run [OF pool_release_inv [OF assms(1)] this h(1), of ops out] assms(3)
  have "\<not> good (fst (run_pool pool_alloc pool_release ops (pool_release p h, out))) h"
    by (intro stale_after_refused) auto
  then show ?thesis by (simp add: good_def)
qed

theorem stale_handle_refused_witness:
  "pool_get (fst (run_pool pool_alloc pool_release [Alloc]
     (pool_release (fst (pool_alloc pool_new)) \<lparr>hd_index = 0, hd_generation = 1\<rparr>, {})))
     \<lparr>hd_index = 0, hd_generation = 1\<rparr> = None"
proof -
  have "pool_get (fst (pool_alloc pool_new)) \<lparr>hd_index = 0, hd_generation = 1\<rparr> \<noteq> None"
    by (simp add: pool_get_def pool_alloc_def pool_new_def POOL_SIZE_def eval_nat_numeral Let_def)
  then show ?thesis
    using stale_handle_refused [OF pool_alloc_inv [OF pool_new_inv], of _ "[Alloc]" "{}"] by simp
qed

text \<open>
  A guard keeps its slot for as long as it lives: changes through it never fail and touch
  no other handle's slot, and dropping it gives the slot back exactly once, with every other
  handle unaffected.
\<close>

theorem guard_owns_slot:
  assumes "pool_inv p" "guard_new p h = Some g"
  shows "\<exists>g'. guard_slot g change = Some g' \<and>
    pool_get (pg_pool g') h = map_option change (pool_get p h) \<and>
    pool_get (guard_drop g') h = None \<and>
    free_count (guard_drop g') = free_count p + 1 \<and>
    (\<forall>k. k \<noteq> h \<longrightarrow> pool_get (pg_pool g') k = pool_get p k \<and>
      pool_get (guard_drop g') k = pool_get p k)"
proof -
  have g: "g = \<lparr>pg_handle = h, pg_pool = p\<rparr>" "good p h"
    using assms(2) by (auto simp: guard_new_def good_def split: if_splits)
  let ?q = "p\<lparr>pool_slots := (pool_slots p)[hd_index h := change (pool_slots p ! hd_index h)]\<rparr>"
  have sl: "guard_slot g change = Some \<lparr>pg_handle = h, pg_pool = ?q\<rparr>"
    using g by (simp add: guard_slot_def pool_get_mut_def good_iff)
  have q: "pool_inv ?q" "good ?q k = good p k" for k
    using assms(1) by (simp_all add: pool_inv_def good_iff)
  have keep: "pool_get ?q k = pool_get p k" if "k \<noteq> h" for k
    using that g(2) good_same_index [of p k h]
    by (cases "good p k"; cases "hd_index k = hd_index h") (auto simp: pool_get_def good_iff)
  have own: "pool_get ?q h = map_option change (pool_get p h)"
    using g(2) assms(1) by (simp add: pool_get_def good_iff pool_inv_def)
  have dr: "pool_get (pool_release ?q h) k = (if k = h then None else pool_get p k)" for k
  proof (cases "hd_index k = hd_index h")
    case True
    then have "good p k \<Longrightarrow> k = h" using good_same_index [of p k h] g(2) by simp
    then show ?thesis
      using pool_release_good(1) [OF q(1), of h k] q(2) [of k]
      by (auto simp: good_def)
  next
    case False
    then show ?thesis using pool_release_good(2) [OF q(1), of k h] keep [of k] by auto
  qed
  have "{k. good (pool_release ?q h) k} = {k. good p k} - {h}"
    using pool_release_good(1) [OF q(1)] q(2) by auto
  then have "card {k. good (pool_release ?q h) k} + 1 = card {k. good p k}"
    using g(2) good_in_range [OF assms(1)]
    by (metis Suc_eq_plus1 card.remove finite_handles mem_Collect_eq)
  then have "free_count (pool_release ?q h) = free_count p + 1"
    using good_in_range [OF assms(1)] good_in_range [OF pool_release_inv [OF q(1), of h]] by simp
  with sl own keep dr show ?thesis by (simp add: guard_drop_def)
qed

theorem guard_owns_slot_witness:
  "\<exists>g g'. guard_new (fst (pool_alloc pool_new)) \<lparr>hd_index = 0, hd_generation = 1\<rparr> = Some g \<and>
     guard_slot g (\<lambda>s. s\<lparr>ps_payload_len := 3\<rparr>) = Some g' \<and>
     free_count (guard_drop g') = free_count (fst (pool_alloc pool_new)) + 1"
proof -
  have "pool_get (fst (pool_alloc pool_new)) \<lparr>hd_index = 0, hd_generation = 1\<rparr> \<noteq> None"
    by (simp add: pool_get_def pool_alloc_def pool_new_def POOL_SIZE_def eval_nat_numeral Let_def)
  then obtain g where
    "guard_new (fst (pool_alloc pool_new)) \<lparr>hd_index = 0, hd_generation = 1\<rparr> = Some g"
    by (simp add: guard_new_def)
  then show ?thesis
    using guard_owns_slot [OF pool_alloc_inv [OF pool_new_inv],
        of _ g "\<lambda>s. s\<lparr>ps_payload_len := 3\<rparr>"] by blast
qed

end
