(* ===== verification/HopHealth.thy ===== *)
theory HopHealth
  imports Prelude
begin

text \<open>
  Next-hop health (\<open>hop_health.rs\<close>): eight entries counting the consecutive unanswered
  packets per (destination, next hop). Two misses without a success make the pair suspect until
  ten minutes pass without a further miss. Reading an expired entry clears it, so
  \<open>find_live\<close> and \<open>is_suspect\<close> return the table too.
\<close>

section \<open>Model\<close>

definition HOP_HEALTH_SUSPECT_MISSES :: u8 where "HOP_HEALTH_SUSPECT_MISSES = 2"
definition HOP_HEALTH_SUSPECT_TTL_MS :: u32 where "HOP_HEALTH_SUSPECT_TTL_MS = 10 * 60 * 1000"
definition MAX_HOP_HEALTH :: nat where "MAX_HOP_HEALTH = 8"

record hop_health_entry =
  hh_destination :: u32
  hh_next_hop :: u32
  hh_consecutive_misses :: u8
  hh_last_miss_ms :: u32

definition hop_entry_empty :: hop_health_entry where
  "hop_entry_empty = \<lparr>hh_destination = 0, hh_next_hop = 0, hh_consecutive_misses = 0,
     hh_last_miss_ms = 0\<rparr>"

definition is_occupied :: "hop_health_entry \<Rightarrow> bool" where
  "is_occupied e \<longleftrightarrow> hh_destination e \<noteq> 0 \<and> hh_next_hop e \<noteq> 0"

datatype hop_health_event =
    HopNone
  | BecameSuspect u32 u32 u8
  | BecameHealthy u32 u32

type_synonym hop_health = "hop_health_entry list"

definition hop_health_new :: hop_health where
  "hop_health_new = replicate MAX_HOP_HEALTH hop_entry_empty"

definition hop_matches :: "u32 \<Rightarrow> u32 \<Rightarrow> hop_health_entry \<Rightarrow> bool" where
  "hop_matches destination next_hop e \<longleftrightarrow>
     is_occupied e \<and> hh_destination e = destination \<and> hh_next_hop e = next_hop"

definition hop_find :: "hop_health \<Rightarrow> u32 \<Rightarrow> u32 \<Rightarrow> nat option" where
  "hop_find s destination next_hop = position (hop_matches destination next_hop) s"

definition find_live :: "hop_health \<Rightarrow> u32 \<Rightarrow> u32 \<Rightarrow> u32 \<Rightarrow> hop_health \<times> nat option" where
  "find_live s destination next_hop now_ms =
     (case hop_find s destination next_hop of
        None \<Rightarrow> (s, None)
      | Some idx \<Rightarrow>
          if HOP_HEALTH_SUSPECT_TTL_MS \<le> now_ms - hh_last_miss_ms (s ! idx)
          then (s[idx := hop_entry_empty], None)
          else (s, Some idx))"

definition is_suspect :: "hop_health \<Rightarrow> u32 \<Rightarrow> u32 \<Rightarrow> u32 \<Rightarrow> hop_health \<times> bool" where
  "is_suspect s destination next_hop now_ms =
     (if destination = 0 \<or> next_hop = 0 then (s, False)
      else
        (case find_live s destination next_hop now_ms of
           (s, None) \<Rightarrow> (s, False)
         | (s, Some idx) \<Rightarrow> (s, HOP_HEALTH_SUSPECT_MISSES \<le> hh_consecutive_misses (s ! idx))))"

text \<open>The closure that picks the slot to reuse: the last one of the largest age.\<close>

fun oldest_loop :: "u32 \<Rightarrow> hop_health_entry list \<Rightarrow> nat \<Rightarrow> nat \<Rightarrow> u32 \<Rightarrow> nat" where
  "oldest_loop now_ms [] i best best_age = best"
| "oldest_loop now_ms (e # es) i best best_age =
     (let age = now_ms - hh_last_miss_ms e in
      if best_age \<le> age then oldest_loop now_ms es (Suc i) i age
      else oldest_loop now_ms es (Suc i) best best_age)"

definition record_miss ::
  "hop_health \<Rightarrow> u32 \<Rightarrow> u32 \<Rightarrow> u32 \<Rightarrow> hop_health \<times> hop_health_event" where
  "record_miss s destination next_hop now_ms =
     (if destination = 0 \<or> next_hop = 0 then (s, HopNone)
      else
        (case find_live s destination next_hop now_ms of
           (s, Some idx) \<Rightarrow>
             let misses = sat_add (hh_consecutive_misses (s ! idx)) 1;
                 s = s[idx := (s ! idx)\<lparr>hh_consecutive_misses := misses, hh_last_miss_ms := now_ms\<rparr>]
             in (s, if misses = HOP_HEALTH_SUSPECT_MISSES
                    then BecameSuspect next_hop destination misses else HopNone)
         | (s, None) \<Rightarrow>
             let idx = (case position (\<lambda>e. \<not> is_occupied e) s of
                          Some i \<Rightarrow> i
                        | None \<Rightarrow> oldest_loop now_ms s 0 0 0)
             in (s[idx := \<lparr>hh_destination = destination, hh_next_hop = next_hop,
                           hh_consecutive_misses = 1, hh_last_miss_ms = now_ms\<rparr>], HopNone)))"

definition record_success :: "hop_health \<Rightarrow> u32 \<Rightarrow> u32 \<Rightarrow> hop_health \<times> hop_health_event" where
  "record_success s destination next_hop =
     (if destination = 0 \<or> next_hop = 0 then (s, HopNone)
      else
        (case hop_find s destination next_hop of
           None \<Rightarrow> (s, HopNone)
         | Some idx \<Rightarrow>
             let was_suspect = HOP_HEALTH_SUSPECT_MISSES \<le> hh_consecutive_misses (s ! idx) in
             (s[idx := hop_entry_empty],
              if was_suspect then BecameHealthy next_hop destination else HopNone)))"

section \<open>Invariant\<close>

abbreviation hop_key :: "hop_health_entry \<Rightarrow> u32 \<times> u32" where
  "hop_key e \<equiv> (hh_destination e, hh_next_hop e)"

definition hop_inv :: "hop_health \<Rightarrow> bool" where
  "hop_inv s \<longleftrightarrow> length s = MAX_HOP_HEALTH \<and> distinct (map hop_key (filter is_occupied s))"

interpretation hop_table: keyed_table hop_inv "filter is_occupied" hop_key
  by unfold_locales (simp add: hop_inv_def)

text \<open>What the table knows about a pair.\<close>

definition hop_lookup :: "hop_health \<Rightarrow> u32 \<Rightarrow> u32 \<Rightarrow> hop_health_entry option" where
  "hop_lookup s d n = find (hop_matches d n) s"

lemma hop_empty_not_occupied [simp]: "\<not> is_occupied hop_entry_empty"
  by (simp add: is_occupied_def hop_entry_empty_def)

lemma hop_lookup_find: "hop_lookup s d n = map_option (\<lambda>i. s ! i) (hop_find s d n)"
  by (simp add: hop_lookup_def hop_find_def find_position)

lemma hop_findD: "hop_find s d n = Some i \<Longrightarrow> i < length s \<and> hop_matches d n (s ! i)"
  using position_SomeD [of "hop_matches d n" s i] by (simp add: hop_find_def)

lemma hop_lookup_SomeD: "hop_lookup s d n = Some e \<Longrightarrow> e \<in> set s \<and> hop_matches d n e"
  by (auto simp: hop_lookup_def find_Some_iff)

lemma hop_lookup_key: "hop_lookup s d n = lookup_key hop_key (d, n) (filter is_occupied s)"
  by (simp add: hop_lookup_def hop_matches_def [abs_def] find_filter)

lemma hop_index_unique:
  "hop_inv s \<Longrightarrow> i < length s \<Longrightarrow> j < length s \<Longrightarrow> hop_matches d n (s ! i) \<Longrightarrow>
   hop_matches d n (s ! j) \<Longrightarrow> i = j"
  using filter_key_index [of hop_key is_occupied s i j] by (auto simp: hop_inv_def hop_matches_def)

lemma hop_new_inv: "hop_inv hop_health_new"
proof -
  have "filter is_occupied (replicate n hop_entry_empty) = []" for n
    by (simp add: filter_empty_conv)
  then show ?thesis by (simp add: hop_inv_def hop_health_new_def)
qed

subsection \<open>Overwriting one place\<close>

lemma hop_clear_inv: "hop_inv s \<Longrightarrow> hop_inv (s[i := hop_entry_empty])"
  unfolding hop_inv_def by (auto intro!: distinct_filter_update)

lemma hop_set_inv:
  assumes "hop_inv s" "hop_matches d n e"
    "\<And>j. j < length s \<Longrightarrow> hop_matches d n (s ! j) \<Longrightarrow> j = i"
  shows "hop_inv (s[i := e])"
  using assms unfolding hop_inv_def
  by (auto simp: hop_matches_def intro!: distinct_filter_update)

lemma hop_lookup_clear:
  assumes "hop_inv s" "hop_find s d n = Some i"
  shows "hop_lookup (s[i := hop_entry_empty]) d' n' =
    (if d' = d \<and> n' = n then None else hop_lookup s d' n')"
proof -
  have i: "i < length s" "hop_matches d n (s ! i)" using hop_findD [OF assms(2)] by auto
  have e: "\<not> hop_matches d' n' hop_entry_empty" by (simp add: hop_matches_def)
  show ?thesis
  proof (cases "d' = d \<and> n' = n")
    case True
    have "\<not> hop_matches d n (s[i := hop_entry_empty] ! j)" if "j < length s" for j
      using hop_index_unique [OF assms(1) that i(1), of d n] that i e True
      by (cases "j = i") auto
    then have "\<not> hop_matches d n x" if "x \<in> set (s[i := hop_entry_empty])" for x
      using that by (metis in_set_conv_nth length_list_update)
    with True show ?thesis by (auto simp: hop_lookup_def find_None_iff)
  next
    case False
    then have "\<not> hop_matches d' n' (s ! i)" using i(2) by (auto simp: hop_matches_def)
    with False e i show ?thesis
      by (auto simp: hop_lookup_def find_update_other)
  qed
qed

lemma hop_lookup_set:
  assumes "hop_inv s" "i < length s" "hop_matches d n e"
    "\<And>j. j < length s \<Longrightarrow> hop_matches d n (s ! j) \<Longrightarrow> j = i"
  shows "hop_lookup (s[i := e]) d' n' =
    (if d' = d \<and> n' = n then Some e
     else if hop_matches d' n' (s ! i) then None else hop_lookup s d' n')"
proof -
  have inv: "hop_inv (s[i := e])" by (rule hop_set_inv [OF assms(1,3,4)])
  have iff: "hop_lookup t a b = Some x \<longleftrightarrow> x \<in> set t \<and> hop_matches a b x" if "hop_inv t" for t a b x
    using hop_table.lookup_Some_iff [OF that] by (auto simp: hop_lookup_key hop_matches_def)
  show ?thesis
  proof (cases "d' = d \<and> n' = n")
    case True
    then show ?thesis using iff [OF inv, of d n e] assms(2,3) by (simp add: set_update_memI)
  next
    case other: False
    then have ne: "\<not> hop_matches d' n' e" using assms(3) by (auto simp: hop_matches_def)
    show ?thesis
    proof (cases "hop_matches d' n' (s ! i)")
      case True
      have "\<not> hop_matches d' n' (s[i := e] ! j)" if "j < length s" for j
        using hop_index_unique [OF assms(1) that assms(2), of d' n'] that True ne
        by (cases "j = i") auto
      then have "find (hop_matches d' n') (s[i := e]) = None"
        unfolding find_None_iff by (metis in_set_conv_nth length_list_update)
      with True other show ?thesis by (auto simp: hop_lookup_def)
    next
      case False
      with other ne assms(2) show ?thesis by (auto simp: hop_lookup_def find_update_other)
    qed
  qed
qed

subsection \<open>The slot to reuse\<close>

lemma oldest_loop_spec:
  assumes "if pre = [] then age = 0 else best < length pre \<and>
      age = now - hh_last_miss_ms (pre ! best) \<and> (\<forall>e \<in> set pre. now - hh_last_miss_ms e \<le> age)"
    "pre @ es \<noteq> []"
  shows "let b = oldest_loop now es (length pre) best age in b < length (pre @ es) \<and>
    (\<forall>e \<in> set (pre @ es). now - hh_last_miss_ms e \<le> now - hh_last_miss_ms ((pre @ es) ! b))"
  using assms
proof (induction es arbitrary: pre best age)
  case Nil
  then show ?case by (auto simp: Let_def split: if_splits)
next
  case (Cons e es)
  define a where "a = now - hh_last_miss_ms e"
  show ?case
  proof (cases "age \<le> a")
    case True
    have "\<forall>x \<in> set (pre @ [e]). now - hh_last_miss_ms x \<le> a"
      using Cons.prems(1) True by (auto simp: a_def split: if_splits)
    then have "let b = oldest_loop now es (length (pre @ [e])) (length pre) a in
        b < length ((pre @ [e]) @ es) \<and> (\<forall>x \<in> set ((pre @ [e]) @ es).
          now - hh_last_miss_ms x \<le> now - hh_last_miss_ms (((pre @ [e]) @ es) ! b))"
      by (intro Cons.IH) (auto simp: a_def nth_append)
    then show ?thesis using True by (simp add: a_def)
  next
    case False
    then have "pre \<noteq> []" using Cons.prems(1) by auto
    moreover have "a \<le> age" using False by simp
    ultimately have "let b = oldest_loop now es (length (pre @ [e])) best age in
        b < length ((pre @ [e]) @ es) \<and> (\<forall>x \<in> set ((pre @ [e]) @ es).
          now - hh_last_miss_ms x \<le> now - hh_last_miss_ms (((pre @ [e]) @ es) ! b))"
      using Cons.prems(1) by (intro Cons.IH) (auto simp: a_def nth_append)
    then show ?thesis using False by (simp add: a_def)
  qed
qed

lemma oldest_slot:
  fixes now :: u32
  assumes "s \<noteq> []"
  defines "b \<equiv> oldest_loop now s 0 0 0"
  shows "b < length s \<and> (\<forall>e \<in> set s. now - hh_last_miss_ms e \<le> now - hh_last_miss_ms (s ! b))"
  using oldest_loop_spec [of "[]" 0 0 now s] assms by (simp add: Let_def)

subsection \<open>Effects on what the table knows\<close>

definition hop_live :: "hop_health \<Rightarrow> u32 \<Rightarrow> u32 \<Rightarrow> u32 \<Rightarrow> hop_health_entry option" where
  "hop_live s d n now =
     (case hop_lookup s d n of
        Some e \<Rightarrow> if now - hh_last_miss_ms e < HOP_HEALTH_SUSPECT_TTL_MS then Some e else None
      | None \<Rightarrow> None)"

lemma find_live_effect:
  assumes "hop_inv s" "find_live s d n now = (t, r)"
  shows "hop_inv t" "length t = length s"
    "hop_lookup t d' n' = (if d' = d \<and> n' = n then hop_live s d n now else hop_lookup s d' n')"
    "r = hop_find t d n"
    "hop_lookup s d n \<noteq> None \<Longrightarrow> r = None \<Longrightarrow> \<exists>e \<in> set t. \<not> is_occupied e"
proof -
  have "hop_inv t \<and> length t = length s \<and>
    hop_lookup t d' n' = (if d' = d \<and> n' = n then hop_live s d n now else hop_lookup s d' n') \<and>
    r = hop_find t d n \<and>
    (hop_lookup s d n \<noteq> None \<longrightarrow> r = None \<longrightarrow> (\<exists>e \<in> set t. \<not> is_occupied e))"
  proof (cases "hop_find s d n")
    case None
    then have "t = s" "r = None" "hop_lookup s d n = None"
      using assms(2) by (simp_all add: find_live_def hop_lookup_find)
    with None assms(1) show ?thesis by (simp add: hop_live_def)
  next
    case (Some i)
    have i: "i < length s" using hop_findD [OF Some] by simp
    have old: "hop_lookup s d n = Some (s ! i)" using Some by (simp add: hop_lookup_find)
    show ?thesis
    proof (cases "now - hh_last_miss_ms (s ! i) < HOP_HEALTH_SUSPECT_TTL_MS")
      case True
      then have "t = s" "r = Some i"
        using assms(2) Some by (simp_all add: find_live_def not_le [symmetric])
      with True old Some assms(1) show ?thesis by (simp add: hop_live_def)
    next
      case False
      then have t: "t = s[i := hop_entry_empty]" "r = None"
        using assms(2) Some by (simp_all add: find_live_def not_less)
      have live: "hop_live s d n now = None" using False old by (simp add: hop_live_def)
      have gone: "hop_lookup t d n = None" using hop_lookup_clear [OF assms(1) Some, of d n] t by simp
      then have "hop_find t d n = None" by (simp add: hop_lookup_find)
      moreover have "hop_entry_empty \<in> set t" using i t by (simp add: set_update_memI)
      then have "\<exists>e \<in> set t. \<not> is_occupied e" using hop_empty_not_occupied by blast
      ultimately show ?thesis
        using t live hop_lookup_clear [OF assms(1) Some, of d' n'] assms(1)
        by (simp add: hop_clear_inv)
    qed
  qed
  then show "hop_inv t" "length t = length s"
    "hop_lookup t d' n' = (if d' = d \<and> n' = n then hop_live s d n now else hop_lookup s d' n')"
    "r = hop_find t d n"
    "hop_lookup s d n \<noteq> None \<Longrightarrow> r = None \<Longrightarrow> \<exists>e \<in> set t. \<not> is_occupied e"
    by blast+
qed

lemma is_suspect_effect:
  assumes "hop_inv s" "is_suspect s d n now = (t, b)"
  shows "hop_inv t" "b \<longleftrightarrow> (\<exists>e. hop_live s d n now = Some e \<and> 2 \<le> hh_consecutive_misses e)"
    "(d', n') \<noteq> (d, n) \<Longrightarrow> hop_lookup t d' n' = hop_lookup s d' n'"
proof -
  obtain u r where u: "find_live s d n now = (u, r)" by (cases "find_live s d n now")
  note fl = find_live_effect [OF assms(1) u]
  have "hop_live s d n now = hop_lookup u d n" using fl(3) [of d n] by simp
  moreover have "d = 0 \<or> n = 0 \<Longrightarrow> hop_live s d n now = None"
    by (auto simp: hop_live_def hop_lookup_def hop_matches_def is_occupied_def
        dest!: hop_lookup_SomeD [unfolded hop_lookup_def] split: option.splits)
  ultimately show "hop_inv t" "b \<longleftrightarrow> (\<exists>e. hop_live s d n now = Some e \<and> 2 \<le> hh_consecutive_misses e)"
    "(d', n') \<noteq> (d, n) \<Longrightarrow> hop_lookup t d' n' = hop_lookup s d' n'"
    using assms u fl(1,4) fl(3) [of d' n']
    by (auto simp: is_suspect_def HOP_HEALTH_SUSPECT_MISSES_def hop_lookup_find
        split: if_splits option.splits)
qed

lemma record_success_effect:
  assumes "hop_inv s"
  shows "hop_inv (fst (record_success s d n))"
    "d \<noteq> 0 \<Longrightarrow> n \<noteq> 0 \<Longrightarrow> hop_lookup (fst (record_success s d n)) d' n' =
      (if d' = d \<and> n' = n then None else hop_lookup s d' n')"
proof -
  show "hop_inv (fst (record_success s d n))"
    using assms by (auto simp: record_success_def Let_def hop_clear_inv split: option.splits)
  assume "d \<noteq> 0" "n \<noteq> 0"
  then show "hop_lookup (fst (record_success s d n)) d' n' =
      (if d' = d \<and> n' = n then None else hop_lookup s d' n')"
    using hop_lookup_clear [OF assms, of d n]
    by (cases "hop_find s d n") (auto simp: record_success_def Let_def hop_lookup_find [of s d n])
qed

lemma record_miss_live:
  assumes "hop_inv s" "d \<noteq> 0" "n \<noteq> 0" "hop_live s d n now = Some e"
  defines "m \<equiv> sat_add (hh_consecutive_misses e) 1"
  shows "hop_inv (fst (record_miss s d n now))"
    "hop_lookup (fst (record_miss s d n now)) d' n' =
      (if d' = d \<and> n' = n then Some (e\<lparr>hh_consecutive_misses := m, hh_last_miss_ms := now\<rparr>)
       else hop_lookup s d' n')"
    "snd (record_miss s d n now) = (if m = 2 then BecameSuspect n d m else HopNone)"
proof -
  obtain t r where t: "find_live s d n now = (t, r)" by (cases "find_live s d n now")
  note fl = find_live_effect [OF assms(1) t]
  obtain i where i: "r = Some i" "hop_find t d n = Some i" "t ! i = e"
    using fl(4) fl(3) [of d n] assms(4) by (auto simp: hop_lookup_find)
  have im: "i < length t" "hop_matches d n (t ! i)" using hop_findD [OF i(2)] by auto
  let ?e = "e\<lparr>hh_consecutive_misses := m, hh_last_miss_ms := now\<rparr>"
  have me: "hop_matches d n ?e" using im i(3) by (auto simp: hop_matches_def is_occupied_def)
  have uniq: "j < length t \<Longrightarrow> hop_matches d n (t ! j) \<Longrightarrow> j = i" for j
    using hop_index_unique [OF fl(1) _ im(1)] im(2) by blast
  have rm: "record_miss s d n now = (t[i := ?e], if m = 2 then BecameSuspect n d m else HopNone)"
    using assms(2,3) t i by (simp add: record_miss_def Let_def m_def HOP_HEALTH_SUSPECT_MISSES_def)
  show "hop_inv (fst (record_miss s d n now))"
    using hop_set_inv [OF fl(1) me uniq] by (simp add: rm)
  show "snd (record_miss s d n now) = (if m = 2 then BecameSuspect n d m else HopNone)"
    by (simp add: rm)
  have "(d', n') \<noteq> (d, n) \<Longrightarrow> \<not> hop_matches d' n' (t ! i)"
    using im(2) by (auto simp: hop_matches_def)
  then show "hop_lookup (fst (record_miss s d n now)) d' n' =
      (if d' = d \<and> n' = n then Some ?e else hop_lookup s d' n')"
    using hop_lookup_set [OF fl(1) im(1) me uniq, of d' n'] fl(3) [of d' n'] by (auto simp: rm)
qed

lemma record_miss_new:
  assumes "hop_inv s" "d \<noteq> 0" "n \<noteq> 0" "hop_live s d n now = None"
  shows "hop_inv (fst (record_miss s d n now))"
    "hop_lookup (fst (record_miss s d n now)) d n =
      Some \<lparr>hh_destination = d, hh_next_hop = n, hh_consecutive_misses = 1, hh_last_miss_ms = now\<rparr>"
    "snd (record_miss s d n now) = HopNone"
    "(d', n') \<noteq> (d, n) \<Longrightarrow>
      hop_lookup (fst (record_miss s d n now)) d' n' = hop_lookup s d' n' \<or>
      hop_lookup s d n = None \<and> (\<forall>e \<in> set s. is_occupied e) \<and>
      (\<exists>v. hop_lookup s d' n' = Some v \<and>
        (\<forall>e \<in> set s. now - hh_last_miss_ms e \<le> now - hh_last_miss_ms v))"
proof -
  obtain t r where t: "find_live s d n now = (t, r)" by (cases "find_live s d n now")
  note fl = find_live_effect [OF assms(1) t]
  have r: "r = None" "hop_find t d n = None"
    using fl(4) fl(3) [of d n] assms(4) by (auto simp: hop_lookup_find)
  define i where "i = (case position (\<lambda>e. \<not> is_occupied e) t of
      Some i \<Rightarrow> i | None \<Rightarrow> oldest_loop now t 0 0 0)"
  let ?e = "\<lparr>hh_destination = d, hh_next_hop = n, hh_consecutive_misses = 1, hh_last_miss_ms = now\<rparr>"
  have tne: "t \<noteq> []" using fl(1) by (auto simp: hop_inv_def MAX_HOP_HEALTH_def)
  have i: "i < length t"
    using oldest_slot [OF tne, of now] by (auto simp: i_def position_less split: option.splits)
  have me: "hop_matches d n ?e" using assms(2,3) by (simp add: hop_matches_def is_occupied_def)
  have uniq: "j < length t \<Longrightarrow> hop_matches d n (t ! j) \<Longrightarrow> j = i" for j
    using r(2) by (auto simp: hop_find_def position_None_iff)
  have rm: "record_miss s d n now = (t[i := ?e], HopNone)"
    using assms(2,3) t r by (simp add: record_miss_def Let_def i_def)
  note set = hop_lookup_set [OF fl(1) i me uniq]
  show "hop_inv (fst (record_miss s d n now))" using hop_set_inv [OF fl(1) me uniq] by (simp add: rm)
  show "hop_lookup (fst (record_miss s d n now)) d n = Some ?e"
    using set [of d n] by (simp add: rm)
  show "snd (record_miss s d n now) = HopNone" by (simp add: rm)
  assume other: "(d', n') \<noteq> (d, n)"
  show "hop_lookup (fst (record_miss s d n now)) d' n' = hop_lookup s d' n' \<or>
      hop_lookup s d n = None \<and> (\<forall>e \<in> set s. is_occupied e) \<and>
      (\<exists>v. hop_lookup s d' n' = Some v \<and>
        (\<forall>e \<in> set s. now - hh_last_miss_ms e \<le> now - hh_last_miss_ms v))"
  proof (cases "hop_matches d' n' (t ! i)")
    case False
    then show ?thesis using set [of d' n'] fl(3) [of d' n'] other by (auto simp: rm)
  next
    case True
    then have "is_occupied (t ! i)" by (simp add: hop_matches_def)
    then have full: "position (\<lambda>e. \<not> is_occupied e) t = None" "i = oldest_loop now t 0 0 0"
      by (auto simp: i_def split: option.splits dest: position_holds)
    then have all: "\<forall>e \<in> set t. is_occupied e" by (simp add: position_None_iff)
    then have absent: "hop_lookup s d n = None" using fl(5) r(1) by blast
    then have "t = s" using t by (auto simp: find_live_def hop_lookup_find split: option.splits)
    moreover have "hop_lookup t d' n' = Some (t ! i)"
      using True i hop_table.lookup_Some_iff [OF fl(1), of "(d', n')" "t ! i"]
      by (auto simp: hop_lookup_key hop_matches_def)
    ultimately show ?thesis
      using absent all full(2) oldest_slot [OF tne, of now] by auto
  qed
qed

lemma hop_new_live [simp]: "hop_live hop_health_new d n now = None"
proof -
  have "find (hop_matches d n) (replicate k hop_entry_empty) = None" for k
    by (auto simp: find_None_iff hop_matches_def)
  then show ?thesis by (simp add: hop_live_def hop_lookup_def hop_health_new_def)
qed

section \<open>Properties\<close>

text \<open>
  What one miss does: the pair's count goes up by one (from nothing, or from an entry that
  has expired, to one) with the time of the miss, and the pair is reported suspect exactly when
  the count reaches two. Every other pair keeps its entry, except that a pair unknown to a full
  table takes the place of the entry with the oldest miss.
\<close>

theorem record_miss_counts:
  assumes "hop_inv s" "d \<noteq> 0" "n \<noteq> 0" "record_miss s d n now = (s', ev)"
  defines "m \<equiv> (case hop_live s d n now of None \<Rightarrow> 1 | Some e \<Rightarrow> sat_add (hh_consecutive_misses e) 1)"
  shows "hop_inv s' \<and>
    hop_lookup s' d n = Some \<lparr>hh_destination = d, hh_next_hop = n,
      hh_consecutive_misses = m, hh_last_miss_ms = now\<rparr> \<and>
    ev = (if m = 2 then BecameSuspect n d 2 else HopNone) \<and>
    (\<forall>d' n'. (d', n') \<noteq> (d, n) \<longrightarrow>
      hop_lookup s' d' n' = hop_lookup s d' n' \<or>
      hop_lookup s d n = None \<and> (\<forall>e \<in> set s. is_occupied e) \<and>
      (\<exists>v. hop_lookup s d' n' = Some v \<and>
        (\<forall>e \<in> set s. now - hh_last_miss_ms e \<le> now - hh_last_miss_ms v)))"
proof (cases "hop_live s d n now")
  case None
  have s': "s' = fst (record_miss s d n now)" "ev = snd (record_miss s d n now)"
    using assms(4) by simp_all
  show ?thesis
    unfolding s' using record_miss_new [OF assms(1-3) None] by (auto simp: m_def None)
next
  case (Some e)
  have s': "s' = fst (record_miss s d n now)" "ev = snd (record_miss s d n now)"
    using assms(4) by simp_all
  have "hop_lookup s d n = Some e"
    using Some by (auto simp: hop_live_def split: option.splits if_splits)
  then have "hh_destination e = d" "hh_next_hop e = n"
    using hop_lookup_SomeD [of s d n e] by (auto simp: hop_matches_def)
  then show ?thesis
    unfolding s' using record_miss_live [OF assms(1-3) Some] by (auto simp: m_def Some)
qed

theorem record_miss_counts_witness:
  "hop_lookup (fst (record_miss hop_health_new 5 6 1000)) 5 6 =
     Some \<lparr>hh_destination = 5, hh_next_hop = 6, hh_consecutive_misses = 1, hh_last_miss_ms = 1000\<rparr>"
  using record_miss_counts [OF hop_new_inv, of 5 6 1000
      "fst (record_miss hop_health_new 5 6 1000)" "snd (record_miss hop_health_new 5 6 1000)"]
  by simp

text \<open>Consecutive misses of one pair, each within the time to live of the one before.\<close>

fun spaced :: "u32 list \<Rightarrow> bool" where
  "spaced (t # t' # ts) \<longleftrightarrow> t' - t < HOP_HEALTH_SUSPECT_TTL_MS \<and> spaced (t' # ts)"
| "spaced _ \<longleftrightarrow> True"

lemma spaced_snoc: "spaced (ts @ [t]) \<longleftrightarrow>
    spaced ts \<and> (ts \<noteq> [] \<longrightarrow> t - last ts < HOP_HEALTH_SUSPECT_TTL_MS)"
  by (induction ts rule: spaced.induct) auto

definition record_misses :: "u32 \<Rightarrow> u32 \<Rightarrow> u32 list \<Rightarrow> hop_health \<Rightarrow> hop_health" where
  "record_misses d n = fold (\<lambda>t s. fst (record_miss s d n t))"

lemma record_misses_lookup:
  assumes "hop_inv s" "d \<noteq> 0" "n \<noteq> 0" "ts \<noteq> []" "spaced ts" "hop_live s d n (hd ts) = None"
  shows "hop_inv (record_misses d n ts s) \<and>
    (\<exists>e. hop_lookup (record_misses d n ts s) d n = Some e \<and> hh_last_miss_ms e = last ts \<and>
      unat (hh_consecutive_misses e) = min (length ts) 255)"
  using assms(4-6)
proof (induction ts rule: rev_induct)
  case (snoc t ts)
  define u where "u = record_misses d n ts s"
  have step: "record_misses d n (ts @ [t]) s = fst (record_miss u d n t)"
    by (simp add: record_misses_def u_def)
  show ?case
  proof (cases "ts = []")
    case True
    then show ?thesis
      using record_miss_new [OF assms(1-3), of t] snoc.prems by (simp add: step u_def record_misses_def)
  next
    case False
    then obtain e where u: "hop_inv u" and e: "hop_lookup u d n = Some e" "hh_last_miss_ms e = last ts"
      "unat (hh_consecutive_misses e) = min (length ts) 255"
      using snoc by (auto simp: spaced_snoc u_def)
    have "hop_live u d n t = Some e"
      using e snoc.prems(2) False by (simp add: hop_live_def spaced_snoc)
    from record_miss_live [OF u assms(2,3) this] show ?thesis
      using e(3) by (auto simp: step rust_arith)
  qed
qed simp

text \<open>
  C31. A next hop is suspect exactly while it has missed at least twice in a row and its last
  miss is less than ten minutes old: after any run of misses, each within the time to live of
  the one before, starting from a state with no live entry.
\<close>

theorem suspect_after_two_misses:
  assumes "hop_inv s" "d \<noteq> 0" "n \<noteq> 0" "ts \<noteq> []" "spaced ts" "hop_live s d n (hd ts) = None"
  shows "snd (is_suspect (record_misses d n ts s) d n now) \<longleftrightarrow>
    2 \<le> length ts \<and> now - last ts < HOP_HEALTH_SUSPECT_TTL_MS"
proof -
  obtain e where u: "hop_inv (record_misses d n ts s)"
    and e: "hop_lookup (record_misses d n ts s) d n = Some e" "hh_last_miss_ms e = last ts"
      "unat (hh_consecutive_misses e) = min (length ts) 255"
    using record_misses_lookup [OF assms] by auto
  have "2 \<le> hh_consecutive_misses e \<longleftrightarrow> 2 \<le> length ts"
    using e(3) by (auto simp: word_le_nat_alt)
  then show ?thesis
    using is_suspect_effect(2) [OF u, of d n now] e(1,2)
    by (cases "is_suspect (record_misses d n ts s) d n now") (simp add: hop_live_def)
qed

theorem suspect_after_two_misses_witness:
  "snd (is_suspect (record_misses 5 6 [1000, 2000] hop_health_new) 5 6 3000)"
  using suspect_after_two_misses [OF hop_new_inv, of 5 6 "[1000, 2000]" 3000]
  by (simp add: HOP_HEALTH_SUSPECT_TTL_MS_def)

text \<open>
  One success clears a pair whatever its history: it is not suspect at any later time, no
  other pair is touched, and the recovery is reported exactly when the count had reached two.
\<close>

theorem success_clears_suspicion:
  assumes "hop_inv s" "d \<noteq> 0" "n \<noteq> 0" "record_success s d n = (s', ev)"
  shows "\<not> snd (is_suspect s' d n now) \<and>
    (\<forall>d' n'. (d', n') \<noteq> (d, n) \<longrightarrow> hop_lookup s' d' n' = hop_lookup s d' n') \<and>
    (ev = BecameHealthy n d \<longleftrightarrow> (\<exists>e. hop_lookup s d n = Some e \<and> 2 \<le> hh_consecutive_misses e))"
proof -
  have s': "s' = fst (record_success s d n)" "ev = snd (record_success s d n)" using assms(4) by simp_all
  note eff = record_success_effect [OF assms(1), of d n]
  have "hop_live s' d n now = None" using eff(2) assms(2,3) by (simp add: s' hop_live_def)
  moreover have "hop_inv s'" using eff(1) by (simp add: s')
  ultimately have "\<not> snd (is_suspect s' d n now)"
    using is_suspect_effect(2) [of s' d n now] by (cases "is_suspect s' d n now") simp
  moreover have "ev = BecameHealthy n d \<longleftrightarrow>
      (\<exists>e. hop_lookup s d n = Some e \<and> 2 \<le> hh_consecutive_misses e)"
    using assms(2,3) unfolding s'
    by (auto simp: record_success_def hop_lookup_find Let_def HOP_HEALTH_SUSPECT_MISSES_def
        split: option.splits)
  ultimately show ?thesis using eff(2) assms(2,3) by (auto simp: s')
qed

theorem success_clears_suspicion_witness:
  "\<not> snd (is_suspect (fst (record_success (fst (record_miss hop_health_new 5 6 1000)) 5 6)) 5 6 2000)"
proof -
  have "hop_inv (fst (record_miss hop_health_new 5 6 1000))"
    using record_miss_new(1) [OF hop_new_inv, of 5 6 1000] by simp
  from success_clears_suspicion [OF this, of 5 6, OF _ _ surjective_pairing] show ?thesis by simp
qed

end
