(* ===== verification/Capability.thy ===== *)
theory Capability
  imports Prelude
begin

text \<open>
  What the router knows about the nodes it hears (\<open>capability.rs\<close>, with the role
  classification of \<open>sr_role.rs\<close> and the role numbers of \<open>nodeinfo.rs\<close>): a table of at
  most 64 records, live in a prefix of the array. Nodes that speak the signal routing protocol
  are never displaced by others; expired records are swap-removed.
\<close>

section \<open>Roles\<close>

definition DEVICE_ROLE_CLIENT :: u32 where "DEVICE_ROLE_CLIENT = 0"
definition DEVICE_ROLE_CLIENT_MUTE :: u32 where "DEVICE_ROLE_CLIENT_MUTE = 1"
definition DEVICE_ROLE_ROUTER :: u32 where "DEVICE_ROLE_ROUTER = 2"
definition DEVICE_ROLE_ROUTER_CLIENT :: u32 where "DEVICE_ROLE_ROUTER_CLIENT = 3"
definition DEVICE_ROLE_REPEATER :: u32 where "DEVICE_ROLE_REPEATER = 4"
definition DEVICE_ROLE_TRACKER :: u32 where "DEVICE_ROLE_TRACKER = 5"
definition DEVICE_ROLE_SENSOR :: u32 where "DEVICE_ROLE_SENSOR = 6"
definition DEVICE_ROLE_TAK :: u32 where "DEVICE_ROLE_TAK = 7"
definition DEVICE_ROLE_CLIENT_HIDDEN :: u32 where "DEVICE_ROLE_CLIENT_HIDDEN = 8"
definition DEVICE_ROLE_LOST_AND_FOUND :: u32 where "DEVICE_ROLE_LOST_AND_FOUND = 9"
definition DEVICE_ROLE_TAK_TRACKER :: u32 where "DEVICE_ROLE_TAK_TRACKER = 10"
definition DEVICE_ROLE_ROUTER_LATE :: u32 where "DEVICE_ROLE_ROUTER_LATE = 11"
definition DEVICE_ROLE_CLIENT_BASE :: u32 where "DEVICE_ROLE_CLIENT_BASE = 12"

definition role_is_mute :: "u32 \<Rightarrow> bool" where
  "role_is_mute role \<longleftrightarrow> role \<in> {DEVICE_ROLE_CLIENT_MUTE, DEVICE_ROLE_TRACKER,
     DEVICE_ROLE_CLIENT_HIDDEN, DEVICE_ROLE_LOST_AND_FOUND}"

definition role_is_active_routing :: "u32 \<Rightarrow> bool" where
  "role_is_active_routing role \<longleftrightarrow> role \<in> {DEVICE_ROLE_CLIENT, DEVICE_ROLE_ROUTER,
     DEVICE_ROLE_ROUTER_CLIENT, DEVICE_ROLE_REPEATER, DEVICE_ROLE_ROUTER_LATE,
     DEVICE_ROLE_CLIENT_BASE}"

definition role_is_passive :: "u32 \<Rightarrow> bool" where
  "role_is_passive role \<longleftrightarrow> \<not> role_is_mute role \<and> \<not> role_is_active_routing role"

definition role_may_send_topology :: "u32 \<Rightarrow> bool" where
  "role_may_send_topology role \<longleftrightarrow> role \<in> {DEVICE_ROLE_CLIENT, DEVICE_ROLE_CLIENT_MUTE,
     DEVICE_ROLE_ROUTER, DEVICE_ROLE_ROUTER_CLIENT, DEVICE_ROLE_REPEATER, DEVICE_ROLE_ROUTER_LATE,
     DEVICE_ROLE_TRACKER, DEVICE_ROLE_SENSOR, DEVICE_ROLE_TAK, DEVICE_ROLE_CLIENT_HIDDEN,
     DEVICE_ROLE_TAK_TRACKER, DEVICE_ROLE_CLIENT_BASE}"

section \<open>Model\<close>

definition MAX_CAPABILITY_RECORDS :: nat where "MAX_CAPABILITY_RECORDS = 64"
definition TOPOLOGY_BROADCAST_MS :: u32 where "TOPOLOGY_BROADCAST_MS = 900000"
definition CAPABILITY_TTL_MS :: u32 where "CAPABILITY_TTL_MS = 3 * TOPOLOGY_BROADCAST_MS + 20000"

datatype capability_status = CapUnknown | CapLegacy | CapPassive | CapSrActive

definition is_signal_routing :: "capability_status \<Rightarrow> bool" where
  "is_signal_routing c \<longleftrightarrow> c = CapSrActive \<or> c = CapPassive"

record capability_record =
  cr_node_id :: u32
  cr_status :: capability_status
  cr_role :: u32
  cr_last_updated_ms :: u32

record capability_cache =
  cap_records :: "capability_record list"
  cap_count :: nat

definition cap_new :: capability_cache where
  "cap_new = \<lparr>cap_records = replicate MAX_CAPABILITY_RECORDS
     \<lparr>cr_node_id = 0, cr_status = CapUnknown, cr_role = 0, cr_last_updated_ms = 0\<rparr>,
     cap_count = 0\<rparr>"

definition cap_clear :: "capability_cache \<Rightarrow> capability_cache" where
  "cap_clear s = s\<lparr>cap_count := 0\<rparr>"

definition cap_live :: "capability_cache \<Rightarrow> capability_record list" where
  "cap_live s = take (cap_count s) (cap_records s)"

definition cap_find :: "capability_cache \<Rightarrow> u32 \<Rightarrow> capability_record option" where
  "cap_find s node = find (\<lambda>r. cr_node_id r = node) (cap_live s)"

text \<open>\<open>find_mut\<close> gives the place of the record.\<close>

definition cap_find_mut :: "capability_cache \<Rightarrow> u32 \<Rightarrow> nat option" where
  "cap_find_mut s node = position (\<lambda>r. cr_node_id r = node) (cap_live s)"

definition cap_expired :: "u32 \<Rightarrow> capability_record \<Rightarrow> bool" where
  "cap_expired now_ms r \<longleftrightarrow>
     (let age = now_ms - cr_last_updated_ms r in CAPABILITY_TTL_MS < age \<and> age < 0x80000000)"

definition status_at :: "capability_cache \<Rightarrow> u32 \<Rightarrow> u32 \<Rightarrow> u32 \<Rightarrow> capability_status" where
  "status_at s node my_node now_ms =
     (case cap_find s node of
        None \<Rightarrow> CapUnknown
      | Some r \<Rightarrow>
          if cr_node_id r = my_node \<and> my_node \<noteq> 0 then cr_status r
          else if now_ms \<noteq> 0 \<and> cap_expired now_ms r then CapUnknown
          else cr_status r)"

definition cap_status :: "capability_cache \<Rightarrow> u32 \<Rightarrow> capability_status" where
  "cap_status s node = status_at s node 0 0"

definition record_count :: "capability_cache \<Rightarrow> nat" where
  "record_count s = cap_count s"

definition cap_role :: "capability_cache \<Rightarrow> u32 \<Rightarrow> u32 option" where
  "cap_role s node = map_option cr_role (cap_find s node)"

definition capability_from_role :: "u32 \<Rightarrow> capability_status" where
  "capability_from_role role = (if role_is_mute role then CapLegacy else CapUnknown)"

text \<open>
  The place for a new record, as both tracking functions choose it: behind the live ones, or,
  in a full table, the oldest record that is not signal routing (the last one among equals).
\<close>

definition cap_victim :: "capability_cache \<Rightarrow> u32 \<Rightarrow> (nat \<times> capability_record) option" where
  "cap_victim s now_ms =
     max_by_key (\<lambda>(i, r). now_ms - cr_last_updated_ms r)
       (filter (\<lambda>(i, r). \<not> is_signal_routing (cr_status r))
          (zip [0..<length (cap_records s)] (cap_records s)))"

definition cap_insert :: "capability_cache \<Rightarrow> u32 \<Rightarrow> capability_record \<Rightarrow> capability_cache" where
  "cap_insert s now_ms rec =
     (if cap_count s = MAX_CAPABILITY_RECORDS then
        (case cap_victim s now_ms of
           None \<Rightarrow> s
         | Some (idx, _) \<Rightarrow> s\<lparr>cap_records := (cap_records s)[idx := rec]\<rparr>)
      else s\<lparr>cap_count := cap_count s + 1, cap_records := (cap_records s)[cap_count s := rec]\<rparr>)"

definition track_role :: "capability_cache \<Rightarrow> u32 \<Rightarrow> u32 \<Rightarrow> u32 \<Rightarrow> capability_cache" where
  "track_role s node role now_ms =
     (if node = 0 then s
      else
        let legacy = capability_from_role role in
        (case cap_find_mut s node of
           Some i \<Rightarrow>
             let r = (cap_records s ! i)\<lparr>cr_role := role\<rparr>;
                 r = (if \<not> is_signal_routing (cr_status r)
                      then r\<lparr>cr_last_updated_ms := now_ms, cr_status := legacy\<rparr> else r)
             in s\<lparr>cap_records := (cap_records s)[i := r]\<rparr>
         | None \<Rightarrow>
             cap_insert s now_ms \<lparr>cr_node_id = node, cr_status = legacy, cr_role = role,
               cr_last_updated_ms = now_ms\<rparr>))"

definition track_topology :: "capability_cache \<Rightarrow> u32 \<Rightarrow> bool \<Rightarrow> u32 \<Rightarrow> capability_cache" where
  "track_topology s node active now_ms =
     (if node = 0 then s
      else
        let status = (if active then CapSrActive else CapPassive) in
        (case cap_find_mut s node of
           Some i \<Rightarrow> s\<lparr>cap_records := (cap_records s)[i := (cap_records s ! i)
                       \<lparr>cr_last_updated_ms := now_ms, cr_status := status\<rparr>]\<rparr>
         | None \<Rightarrow>
             cap_insert s now_ms \<lparr>cr_node_id = node, cr_status = status, cr_role = 0,
               cr_last_updated_ms = now_ms\<rparr>))"

text \<open>
  The loop of \<open>prune\<close>, with \<open>remove_at\<close> written out and the array of nodes to report as
  a list that stops growing at its capacity.
\<close>

definition cap_remove_at :: "capability_record list \<Rightarrow> nat \<Rightarrow> nat \<Rightarrow> capability_record list \<times> nat" where
  "cap_remove_at rs n i = ((if i + 1 < n then rs[i := rs ! (n - 1)] else rs), n - 1)"

function prune_loop ::
  "u32 \<Rightarrow> u32 \<Rightarrow> capability_record list \<Rightarrow> nat \<Rightarrow> nat \<Rightarrow> u32 list \<Rightarrow>
   capability_record list \<times> nat \<times> u32 list" where
  "prune_loop now_ms my_node rs n i out =
     (if i < n then
        let r = rs ! i in
        if cr_node_id r = my_node then prune_loop now_ms my_node rs n (i + 1) out
        else if cap_expired now_ms r then
          let out = (if is_signal_routing (cr_status r) \<and> length out < MAX_CAPABILITY_RECORDS
                     then out @ [cr_node_id r] else out)
          in prune_loop now_ms my_node (fst (cap_remove_at rs n i)) (snd (cap_remove_at rs n i)) i out
        else prune_loop now_ms my_node rs n (i + 1) out
      else (rs, n, out))"
  by pat_completeness auto
termination
  by (relation "measure (\<lambda>(now, my, rs, n, i, out). n - i)") (auto simp: cap_remove_at_def)

declare prune_loop.simps [simp del]

definition prune :: "capability_cache \<Rightarrow> u32 \<Rightarrow> u32 \<Rightarrow> capability_cache \<times> u32 list" where
  "prune s now_ms my_node =
     (case prune_loop now_ms my_node (cap_records s) (cap_count s) 0 [] of
        (rs, n, out) \<Rightarrow> (s\<lparr>cap_records := rs, cap_count := n\<rparr>, out))"

definition publishes_topology :: "capability_cache \<Rightarrow> u32 \<Rightarrow> bool" where
  "publishes_topology s node \<longleftrightarrow> cap_status s node \<in> {CapSrActive, CapPassive}"

definition is_immediate_relay_router :: "capability_cache \<Rightarrow> u32 \<Rightarrow> bool" where
  "is_immediate_relay_router s node \<longleftrightarrow>
     (if publishes_topology s node then False
      else cap_role s node \<in> Some ` {DEVICE_ROLE_ROUTER, DEVICE_ROLE_REPEATER, DEVICE_ROLE_ROUTER_CLIENT})"

definition will_not_cancel_for_us :: "capability_cache \<Rightarrow> u32 \<Rightarrow> bool" where
  "will_not_cancel_for_us s node \<longleftrightarrow>
     (if cap_status s node = CapSrActive then False
      else (case cap_role s node of
              None \<Rightarrow> False
            | Some role \<Rightarrow> role \<in> {DEVICE_ROLE_ROUTER, DEVICE_ROLE_ROUTER_LATE}))"

definition is_legacy :: "capability_cache \<Rightarrow> u32 \<Rightarrow> bool" where
  "is_legacy s node \<longleftrightarrow> cap_status s node = CapLegacy"

definition is_legacy_router :: "capability_cache \<Rightarrow> u32 \<Rightarrow> bool" where
  "is_legacy_router s node \<longleftrightarrow>
     (if cap_status s node \<noteq> CapLegacy then False
      else (case cap_role s node of
              None \<Rightarrow> False
            | Some role \<Rightarrow> role \<in> {DEVICE_ROLE_ROUTER, DEVICE_ROLE_ROUTER_LATE,
                DEVICE_ROLE_ROUTER_CLIENT, DEVICE_ROLE_REPEATER}))"

section \<open>Invariant\<close>

definition cap_inv :: "capability_cache \<Rightarrow> bool" where
  "cap_inv s \<longleftrightarrow> length (cap_records s) = MAX_CAPABILITY_RECORDS \<and>
     cap_count s \<le> MAX_CAPABILITY_RECORDS \<and>
     distinct (map cr_node_id (cap_live s)) \<and> (\<forall>r \<in> set (cap_live s). cr_node_id r \<noteq> 0)"

interpretation caps: keyed_table cap_inv cap_live cr_node_id
  by unfold_locales (simp add: cap_inv_def)

lemma cap_find_Some_iff:
  "cap_inv s \<Longrightarrow> cap_find s node = Some r \<longleftrightarrow> r \<in> set (cap_live s) \<and> cr_node_id r = node"
  using caps.lookup_Some_iff [of s node r] by (simp add: cap_find_def)

lemma cap_find_None_iff: "cap_find s node = None \<longleftrightarrow> node \<notin> cr_node_id ` set (cap_live s)"
  using caps.lookup_None_iff [of node s] by (simp add: cap_find_def)

lemma length_cap_live: "cap_inv s \<Longrightarrow> length (cap_live s) = cap_count s"
  by (simp add: cap_live_def cap_inv_def)

lemma cap_find_mutD:
  "cap_find_mut s node = Some i \<Longrightarrow> cap_inv s \<Longrightarrow>
   i < cap_count s \<and> i < length (cap_live s) \<and> cr_node_id (cap_live s ! i) = node \<and>
   cap_live s ! i = cap_records s ! i"
  using position_SomeD [of "\<lambda>r. cr_node_id r = node" "cap_live s" i]
  by (auto simp: cap_find_mut_def cap_live_def cap_inv_def)

lemma cap_find_mut_None: "cap_find_mut s node = None \<longleftrightarrow> cap_find s node = None"
  by (simp add: cap_find_mut_def cap_find_def find_position)

lemma cap_find_find_mut: "cap_find_mut s node = Some i \<Longrightarrow> cap_find s node = Some (cap_live s ! i)"
  by (simp add: cap_find_mut_def cap_find_def find_position)

subsection \<open>Tracking\<close>

lemma cap_set_inv:
  assumes "cap_inv s" "i < cap_count s" "cr_node_id r \<noteq> 0"
    "\<And>j. j < cap_count s \<Longrightarrow> j \<noteq> i \<Longrightarrow> cr_node_id (cap_live s ! j) \<noteq> cr_node_id r"
  defines "t \<equiv> s\<lparr>cap_records := (cap_records s)[i := r]\<rparr>"
  shows "cap_inv t" "cap_live t = (cap_live s)[i := r]"
proof -
  show live: "cap_live t = (cap_live s)[i := r]"
    by (simp add: t_def cap_live_def table_simps)
  have "distinct (map cr_node_id ((cap_live s)[i := r]))"
    using assms(1,4) by (intro distinct_map_update) (auto simp: cap_inv_def length_cap_live [OF assms(1)])
  moreover have "set ((cap_live s)[i := r]) \<subseteq> insert r (set (cap_live s))"
    by (rule set_update_subset_insert)
  ultimately show "cap_inv t"
    using assms(1,3) live by (auto simp: cap_inv_def t_def)
qed

lemma cap_set_find:
  assumes "cap_inv s" "i < cap_count s" "cr_node_id r \<noteq> 0"
    "\<And>j. j < cap_count s \<Longrightarrow> j \<noteq> i \<Longrightarrow> cr_node_id (cap_live s ! j) \<noteq> cr_node_id r"
  shows "cap_find (s\<lparr>cap_records := (cap_records s)[i := r]\<rparr>) k =
    (if k = cr_node_id r then Some r
     else if k = cr_node_id (cap_live s ! i) then None else cap_find s k)"
  using caps.lookup_update [OF assms(1) cap_set_inv(1,2) [OF assms], of k]
    length_cap_live [OF assms(1)] assms(2)
  by (simp add: cap_find_def)

lemma cap_same_index:
  "cap_inv s \<Longrightarrow> i < cap_count s \<Longrightarrow> j < cap_count s \<Longrightarrow> j \<noteq> i \<Longrightarrow>
   cr_node_id (cap_live s ! j) \<noteq> cr_node_id (cap_live s ! i)"
  using nth_eq_iff_index_eq [of "map cr_node_id (cap_live s)" j i] length_cap_live [of s]
  by (simp add: cap_inv_def)

lemma enum_mem: "(i, x) \<in> set (zip [0..<length xs] xs) \<longleftrightarrow> i < length xs \<and> x = xs ! i"
  by (auto simp: set_zip intro!: exI [of _ i])

lemma cap_victimD:
  assumes "cap_victim s now = Some (i, r)"
  shows "i < length (cap_records s) \<and> r = cap_records s ! i \<and> \<not> is_signal_routing (cr_status r) \<and>
    (\<forall>r' \<in> set (cap_records s). \<not> is_signal_routing (cr_status r') \<longrightarrow>
      now - cr_last_updated_ms r' \<le> now - cr_last_updated_ms r)"
proof -
  let ?zs = "filter (\<lambda>(i, r). \<not> is_signal_routing (cr_status r))
      (zip [0..<length (cap_records s)] (cap_records s))"
  have m: "(i, r) \<in> set ?zs" "\<forall>z \<in> set ?zs. (\<lambda>(i, r). now - cr_last_updated_ms r) z \<le>
      (\<lambda>(i, r). now - cr_last_updated_ms r) (i, r)"
    using max_by_key_SomeD [OF assms [unfolded cap_victim_def]] by blast+
  have "now - cr_last_updated_ms r' \<le> now - cr_last_updated_ms r"
    if "r' \<in> set (cap_records s)" "\<not> is_signal_routing (cr_status r')" for r'
  proof -
    from that(1) obtain j where "j < length (cap_records s)" "cap_records s ! j = r'"
      by (auto simp: in_set_conv_nth)
    then have "(j, r') \<in> set ?zs" using that(2) by (auto simp: enum_mem)
    with m(2) show ?thesis by fastforce
  qed
  with m(1) show ?thesis by (auto simp: enum_mem)
qed

text \<open>
  Inserting a node that is not in the table: it goes behind the others while there is room; a
  full table gives up its oldest record that is not signal routing, or refuses the newcomer.
\<close>

lemma cap_insert_cases:
  assumes "cap_inv s" "cr_node_id r \<noteq> 0" "cap_find s (cr_node_id r) = None"
  shows "cap_inv (cap_insert s now r)" and
    "(cap_count s < MAX_CAPABILITY_RECORDS \<and> (\<forall>k. cap_find (cap_insert s now r) k =
        (if k = cr_node_id r then Some r else cap_find s k))) \<or>
     (cap_count s = MAX_CAPABILITY_RECORDS \<and> cap_insert s now r = s \<and>
        (\<forall>v \<in> set (cap_live s). is_signal_routing (cr_status v))) \<or>
     (cap_count s = MAX_CAPABILITY_RECORDS \<and> (\<exists>v \<in> set (cap_live s).
        \<not> is_signal_routing (cr_status v) \<and>
        (\<forall>r' \<in> set (cap_live s). \<not> is_signal_routing (cr_status r') \<longrightarrow>
          now - cr_last_updated_ms r' \<le> now - cr_last_updated_ms v) \<and>
        (\<forall>k. cap_find (cap_insert s now r) k =
          (if k = cr_node_id r then Some r else if k = cr_node_id v then None else cap_find s k))))"
    (is "?room \<or> ?refused \<or> ?displaced")
proof -
  have fresh: "cr_node_id r \<notin> cr_node_id ` set (cap_live s)"
    using assms(3) by (simp add: cap_find_None_iff)
  have "cap_inv (cap_insert s now r) \<and> (?room \<or> ?refused \<or> ?displaced)"
  proof (cases "cap_count s = MAX_CAPABILITY_RECORDS")
    case False
    then have n: "cap_count s < length (cap_records s)" using assms(1) by (simp add: cap_inv_def)
    have live: "cap_live (cap_insert s now r) = cap_live s @ [r]"
      using False n by (simp add: cap_insert_def cap_live_def take_snoc_update)
    have "cap_inv (cap_insert s now r)"
      using assms(1,2) fresh n live False by (auto simp: cap_inv_def cap_insert_def)
    moreover have ?room
      using caps.lookup_snoc [of "cap_insert s now r" s r, OF live fresh] n assms(1)
      by (simp add: cap_find_def cap_inv_def)
    ultimately show ?thesis by blast
  next
    case full: True
    then have all: "cap_live s = cap_records s" using assms(1) by (simp add: cap_live_def cap_inv_def)
    show ?thesis
    proof (cases "cap_victim s now")
      case None
      then have "\<forall>v \<in> set (cap_records s). is_signal_routing (cr_status v)"
        by (fastforce simp: cap_victim_def max_by_key_None_iff filter_empty_conv enum_mem in_set_conv_nth)
      with None full all assms(1) show ?thesis by (simp add: cap_insert_def)
    next
      case (Some z)
      obtain i v where z: "z = (i, v)" by (cases z)
      note vic = cap_victimD [OF Some [unfolded z]]
      have i: "i < cap_count s" using vic full assms(1) by (simp add: cap_inv_def)
      have ins: "cap_insert s now r = s\<lparr>cap_records := (cap_records s)[i := r]\<rparr>"
        using Some z full by (simp add: cap_insert_def)
      have others: "cr_node_id (cap_live s ! j) \<noteq> cr_node_id r" if "j < cap_count s" for j
        using fresh that length_cap_live [OF assms(1)] by (metis imageI nth_mem)
      have "cap_inv (cap_insert s now r)"
        unfolding ins by (rule cap_set_inv(1) [OF assms(1) i assms(2)]) (rule others)
      moreover have "\<forall>k. cap_find (cap_insert s now r) k =
          (if k = cr_node_id r then Some r else if k = cr_node_id v then None else cap_find s k)"
        unfolding ins using cap_set_find [OF assms(1) i assms(2)] others vic all by simp
      moreover have "v \<in> set (cap_live s)" "\<not> is_signal_routing (cr_status v)"
        "\<forall>r' \<in> set (cap_live s). \<not> is_signal_routing (cr_status r') \<longrightarrow>
          now - cr_last_updated_ms r' \<le> now - cr_last_updated_ms v"
        using vic all by auto
      ultimately show ?thesis using full by blast
    qed
  qed
  then show "cap_inv (cap_insert s now r)" "?room \<or> ?refused \<or> ?displaced" by blast+
qed

lemma cap_new_inv: "cap_inv cap_new"
  by (simp add: cap_inv_def cap_new_def cap_live_def)

lemma cap_clear_inv: "cap_inv s \<Longrightarrow> cap_inv (cap_clear s)"
  by (simp add: cap_inv_def cap_clear_def cap_live_def)

lemma cap_set_same:
  assumes "cap_inv s" "node \<noteq> 0" "cap_find_mut s node = Some i" "cr_node_id r = node"
  defines "t \<equiv> s\<lparr>cap_records := (cap_records s)[i := r]\<rparr>"
  shows "cap_inv t" "cap_find t k = (if k = node then Some r else cap_find s k)"
proof -
  note i = cap_find_mutD [OF assms(3,1)]
  have other: "j < cap_count s \<Longrightarrow> j \<noteq> i \<Longrightarrow> cr_node_id (cap_live s ! j) \<noteq> cr_node_id r" for j
    using cap_same_index [OF assms(1), of i j] i assms(4) by metis
  show "cap_inv t"
    unfolding t_def by (rule cap_set_inv(1) [OF assms(1)]) (use i assms(2,4) other in auto)
  have "cr_node_id r \<noteq> 0" using assms(2,4) by simp
  from cap_set_find [OF assms(1) _ this other, where k = k] i assms(4)
  show "cap_find t k = (if k = node then Some r else cap_find s k)"
    by (auto simp: t_def)
qed

lemma track_role_inv:
  assumes "cap_inv s"
  shows "cap_inv (track_role s node role now)"
proof (cases "cap_find_mut s node")
  case None
  then show ?thesis
    using assms cap_insert_cases(1) [OF assms]
    by (simp add: track_role_def Let_def cap_find_mut_None [symmetric])
next
  case (Some i)
  have "cr_node_id (cap_records s ! i) = node" using cap_find_mutD [OF Some assms] by metis
  then show ?thesis
    using assms cap_set_same(1) [OF assms _ Some] Some by (simp add: track_role_def Let_def)
qed

lemma track_topology_inv:
  assumes "cap_inv s"
  shows "cap_inv (track_topology s node active now)"
proof (cases "cap_find_mut s node")
  case None
  then show ?thesis
    using assms cap_insert_cases(1) [OF assms]
    by (simp add: track_topology_def Let_def cap_find_mut_None [symmetric])
next
  case (Some i)
  have "cr_node_id (cap_records s ! i) = node" using cap_find_mutD [OF Some assms] by metis
  then show ?thesis
    using assms cap_set_same(1) [OF assms _ Some] Some by (simp add: track_topology_def Let_def)
qed

subsection \<open>Pruning\<close>

definition cap_dropped :: "u32 \<Rightarrow> u32 \<Rightarrow> capability_record \<Rightarrow> bool" where
  "cap_dropped now my_node r \<longleftrightarrow> cr_node_id r \<noteq> my_node \<and> cap_expired now r"

lemma prune_loop_swap_prune:
  assumes "n \<le> length rs" "i \<le> n" "length out + (n - i) \<le> MAX_CAPABILITY_RECORDS"
    "prune_loop now my_node rs n i out = (rs', n', out')"
  shows "swap_prune (cap_dropped now my_node) rs n i = (rs', n') \<and>
    set out' = set out \<union> cr_node_id ` {r \<in> set (drop i (take n rs)).
      cap_dropped now my_node r \<and> is_signal_routing (cr_status r)}"
  using assms
proof (induction now my_node rs n i out rule: prune_loop.induct)
  case (1 now my_node rs n i out)
  show ?case
  proof (cases "i < n")
    case False
    with "1.prems" show ?thesis by (simp add: prune_loop.simps swap_prune.simps)
  next
    case i: True
    note peel = drop_take_peel [OF i "1.prems"(1)]
    show ?thesis
    proof (cases "cap_dropped now my_node (rs ! i)")
      case False
      have rec: "prune_loop now my_node rs n (i + 1) out = (rs', n', out')"
        using "1.prems"(4) i False
        by (auto simp: prune_loop.simps [of now my_node rs n i] cap_dropped_def Let_def split: if_splits)
      have "swap_prune (cap_dropped now my_node) rs n (i + 1) = (rs', n') \<and>
        set out' = set out \<union> cr_node_id ` {r \<in> set (drop (i + 1) (take n rs)).
          cap_dropped now my_node r \<and> is_signal_routing (cr_status r)}"
      proof (cases "cr_node_id (rs ! i) = my_node")
        case True
        show ?thesis by (rule "1.IH"(1)) (use True i "1.prems" rec in auto)
      next
        case ne: False
        show ?thesis
          by (rule "1.IH"(3)) (use ne False i "1.prems" rec in \<open>auto simp: cap_dropped_def\<close>)
      qed
      moreover have "swap_prune (cap_dropped now my_node) rs n i =
          swap_prune (cap_dropped now my_node) rs n (i + 1)"
        using i False by (subst swap_prune.simps) simp
      ultimately show ?thesis using peel False by auto
    next
      case True
      let ?zs = "if i < n - 1 then rs[i := rs ! (n - 1)] else rs"
      let ?out = "if is_signal_routing (cr_status (rs ! i)) then out @ [cr_node_id (rs ! i)] else out"
      have rm: "cap_remove_at rs n i = (?zs, n - 1)"
        using i by (auto simp: cap_remove_at_def)
      have room: "length out < MAX_CAPABILITY_RECORDS" using "1.prems"(3) i by simp
      have rec: "prune_loop now my_node ?zs (n - 1) i ?out = (rs', n', out')"
        using "1.prems"(4) i True room
        by (simp add: prune_loop.simps [of now my_node rs n i] cap_dropped_def Let_def rm)
      have "swap_prune (cap_dropped now my_node) ?zs (n - 1) i = (rs', n') \<and>
        set out' = set ?out \<union> cr_node_id ` {r \<in> set (drop i (take (n - 1) ?zs)).
          cap_dropped now my_node r \<and> is_signal_routing (cr_status r)}"
        using True i "1.prems" rec room
        by (intro "1.IH"(2) [of "rs ! i" ?out, unfolded rm fst_conv snd_conv])
          (auto simp: cap_dropped_def)
      moreover have "set (drop i (take n rs)) = insert (rs ! i) (set (drop i (take (n - 1) ?zs)))"
        using arg_cong [OF mset_drop_swap_out [OF i "1.prems"(1)], of set_mset] by simp
      moreover have "swap_prune (cap_dropped now my_node) rs n i =
          swap_prune (cap_dropped now my_node) ?zs (n - 1) i"
        using i True by (subst swap_prune.simps) simp
      ultimately show ?thesis using True by auto
    qed
  qed
qed

lemma prune_effect:
  assumes "cap_inv s" "prune s now my_node = (t, out)"
  shows "cap_inv t" "set (cap_live t) = {r \<in> set (cap_live s). \<not> cap_dropped now my_node r}"
    "set out = cr_node_id ` {r \<in> set (cap_live s).
      cap_dropped now my_node r \<and> is_signal_routing (cr_status r)}"
proof -
  obtain rs n where l: "prune_loop now my_node (cap_records s) (cap_count s) 0 [] = (rs, n, out)"
    and t: "t = s\<lparr>cap_records := rs, cap_count := n\<rparr>"
    using assms(2) by (auto simp: prune_def split: prod.splits)
  have cnt: "cap_count s \<le> length (cap_records s)" using assms(1) by (simp add: cap_inv_def)
  have sp: "swap_prune (cap_dropped now my_node) (cap_records s) (cap_count s) 0 = (rs, n)"
    "set out = cr_node_id ` {r \<in> set (cap_live s).
      cap_dropped now my_node r \<and> is_signal_routing (cr_status r)}"
    using prune_loop_swap_prune [OF cnt _ _ l] assms(1) by (auto simp: cap_inv_def cap_live_def)
  show live: "set (cap_live t) = {r \<in> set (cap_live s). \<not> cap_dropped now my_node r}"
    using swap_prune_set [OF cnt sp(1)] by (simp add: t cap_live_def)
  show "cap_inv t"
    using live assms(1) swap_prune_mset(2,3) [OF cnt sp(1)]
      swap_prune_distinct [OF cnt sp(1), of cr_node_id]
    by (auto simp: cap_inv_def cap_live_def t)
  show "set out = cr_node_id ` {r \<in> set (cap_live s).
      cap_dropped now my_node r \<and> is_signal_routing (cr_status r)}" by (rule sp(2))
qed

subsection \<open>Who stays in the table\<close>

lemma cap_insert_keeps_sr:
  assumes "cap_inv s" "cr_node_id new \<noteq> 0" "cap_find s (cr_node_id new) = None"
    "cap_find s k = Some r" "is_signal_routing (cr_status r)"
  shows "cap_find (cap_insert s now new) k = Some r"
proof -
  have ne: "k \<noteq> cr_node_id new" using assms(3,4) by auto
  have kr: "r \<in> set (cap_live s)" "cr_node_id r = k"
    using assms(4) cap_find_Some_iff [OF assms(1), of k r] by simp_all
  have vic: "k \<noteq> cr_node_id v" if "v \<in> set (cap_live s)" "\<not> is_signal_routing (cr_status v)" for v
  proof
    assume "k = cr_node_id v"
    then have "v = r" using kr by (intro caps.key_unique [OF assms(1) that(1)]) simp_all
    with that(2) assms(5) show False by simp
  qed
  consider (room) "\<forall>k. cap_find (cap_insert s now new) k =
        (if k = cr_node_id new then Some new else cap_find s k)"
    | (refused) "cap_insert s now new = s"
    | (displaced) v where "v \<in> set (cap_live s)" "\<not> is_signal_routing (cr_status v)"
        "\<forall>k. cap_find (cap_insert s now new) k = (if k = cr_node_id new then Some new
           else if k = cr_node_id v then None else cap_find s k)"
    using cap_insert_cases(2) [OF assms(1-3), of now] by (elim disjE conjE bexE) metis+
  then show ?thesis
  proof cases
    case room
    show ?thesis using room [rule_format, of k] ne assms(4) by (simp only: if_False)
  next
    case refused
    show ?thesis unfolding refused by (rule assms(4))
  next
    case (displaced v)
    show ?thesis
      using displaced(3) [rule_format, of k] ne vic [OF displaced(1,2)] assms(4)
      by (simp only: if_False)
  qed
qed

lemma track_role_other:
  assumes "cap_inv s" "cap_find s k = Some r" "is_signal_routing (cr_status r)"
  shows "\<exists>r'. cap_find (track_role s node role now) k = Some r' \<and>
    cr_status r' = cr_status r \<and> cr_last_updated_ms r' = cr_last_updated_ms r"
proof (cases "node = 0")
  case False
  show ?thesis
  proof (cases "cap_find_mut s node")
    case (Some i)
    note i = cap_find_mutD [OF Some assms(1)] cap_find_find_mut [OF Some]
    then have nid: "cr_node_id (cap_records s ! i) = node" by metis
    have same: "cap_records s ! i = r" if "k = node" using i assms(2) that by simp
    define r' where "r' = (if \<not> is_signal_routing (cr_status (cap_records s ! i))
        then (cap_records s ! i)\<lparr>cr_role := role, cr_last_updated_ms := now,
          cr_status := capability_from_role role\<rparr>
        else (cap_records s ! i)\<lparr>cr_role := role\<rparr>)"
    have tr: "track_role s node role now = s\<lparr>cap_records := (cap_records s)[i := r']\<rparr>"
      using Some False by (simp add: track_role_def Let_def r'_def)
    have "cr_node_id r' = node" by (simp add: r'_def nid)
    then have "cap_find (track_role s node role now) k = (if k = node then Some r' else cap_find s k)"
      unfolding tr by (rule cap_set_same(2) [OF assms(1) False Some])
    then show ?thesis using same assms(2,3) by (cases "k = node") (simp_all add: r'_def)
  next
    case None
    let ?new = "\<lparr>cr_node_id = node, cr_status = capability_from_role role, cr_role = role,
      cr_last_updated_ms = now\<rparr>"
    have tr: "track_role s node role now = cap_insert s now ?new"
      using None False by (simp add: track_role_def Let_def)
    have abs: "cap_find s node = None" using None by (simp add: cap_find_mut_None)
    have "cap_find (cap_insert s now ?new) k = Some r"
      by (rule cap_insert_keeps_sr [OF assms(1)]) (use abs False assms(2,3) in auto)
    then show ?thesis by (simp add: tr)
  qed
qed (simp add: track_role_def assms)

lemma track_topology_other:
  assumes "cap_inv s" "cap_find s k = Some r" "is_signal_routing (cr_status r)" "node \<noteq> k"
  shows "cap_find (track_topology s node active now) k = Some r"
proof (cases "node = 0")
  case False
  define status where "status = (if active then CapSrActive else CapPassive)"
  show ?thesis
  proof (cases "cap_find_mut s node")
    case (Some i)
    have "cr_node_id (cap_records s ! i) = node" using cap_find_mutD [OF Some assms(1)] by metis
    then show ?thesis
      using cap_set_same(2) [OF assms(1) False Some, of "(cap_records s ! i)
          \<lparr>cr_last_updated_ms := now, cr_status := status\<rparr>" k] Some False assms(2,4)
      by (simp add: track_topology_def Let_def status_def)
  next
    case None
    let ?new = "\<lparr>cr_node_id = node, cr_status = status, cr_role = 0, cr_last_updated_ms = now\<rparr>"
    have tr: "track_topology s node active now = cap_insert s now ?new"
      using None False by (simp add: track_topology_def Let_def status_def)
    have abs: "cap_find s node = None" using None by (simp add: cap_find_mut_None)
    show ?thesis
      unfolding tr by (rule cap_insert_keeps_sr [OF assms(1)]) (use abs False assms(2,3) in auto)
  qed
qed (simp add: track_topology_def assms)

text \<open>The observations that reach the cache between two prunes.\<close>

datatype cap_observation =
    HeardRole u32 u32 u32
  | HeardTopology u32 bool u32

fun cap_observe :: "cap_observation \<Rightarrow> capability_cache \<Rightarrow> capability_cache" where
  "cap_observe (HeardRole node role now) s = track_role s node role now"
| "cap_observe (HeardTopology node active now) s = track_topology s node active now"

lemma cap_observe_inv: "cap_inv s \<Longrightarrow> cap_inv (cap_observe ob s)"
  by (cases ob) (simp_all add: track_role_inv track_topology_inv)

lemma track_topology_self:
  assumes "cap_inv s" "cap_find s k = Some r"
  shows "\<exists>r'. cap_find (track_topology s k active now) k = Some r' \<and> is_signal_routing (cr_status r')"
proof -
  obtain i where i: "cap_find_mut s k = Some i"
    using assms(2) cap_find_mut_None [of s k] by (cases "cap_find_mut s k") auto
  have "k \<noteq> 0" using assms cap_find_Some_iff [of s k r] by (auto simp: cap_inv_def)
  moreover have "cr_node_id (cap_records s ! i) = k" using cap_find_mutD [OF i assms(1)] by metis
  ultimately show ?thesis
    using cap_set_same(2) [OF assms(1) _ i, where k = k] i
    by (simp add: track_topology_def Let_def is_signal_routing_def)
qed

section \<open>Properties\<close>

text \<open>
  C15. Through any sequence of observations, however many nodes are heard, the table stays
  well-formed (at most 64 live records, one per node, none for node 0) and a node known to speak
  the signal routing protocol is never displaced and never demoted: only a prune can remove it.
\<close>

theorem signal_routing_nodes_stay:
  assumes "cap_inv s" "cap_find s k = Some r" "is_signal_routing (cr_status r)"
  shows "cap_inv (fold cap_observe obs s) \<and>
    (\<exists>r'. cap_find (fold cap_observe obs s) k = Some r' \<and> is_signal_routing (cr_status r'))"
  using assms
proof (induction obs arbitrary: s r)
  case (Cons ob obs)
  have "\<exists>r'. cap_find (cap_observe ob s) k = Some r' \<and> is_signal_routing (cr_status r')"
  proof (cases ob)
    case (HeardRole node role now)
    then show ?thesis using track_role_other [OF Cons.prems, of node role now] Cons.prems(3) by auto
  next
    case (HeardTopology node active now)
    then show ?thesis
      using track_topology_other [OF Cons.prems, of node active now]
        track_topology_self [OF Cons.prems(1,2), of active now] Cons.prems(3)
      by (cases "node = k") auto
  qed
  then obtain r' where r': "cap_find (cap_observe ob s) k = Some r'" "is_signal_routing (cr_status r')"
    by blast
  from Cons.IH [OF cap_observe_inv [OF Cons.prems(1)] r'] show ?case by simp
qed auto

theorem signal_routing_nodes_stay_witness:
  "\<exists>r. cap_find (fold cap_observe [HeardRole 8 2 5, HeardRole 9 1 6] (track_topology cap_new 7 True 1)) 7
     = Some r \<and> is_signal_routing (cr_status r)"
proof -
  have "cap_find (track_topology cap_new 7 True 1) 7 =
      Some \<lparr>cr_node_id = 7, cr_status = CapSrActive, cr_role = 0, cr_last_updated_ms = 1\<rparr>"
    by (simp add: track_topology_def cap_find_mut_def cap_live_def cap_new_def cap_insert_def
        cap_find_def MAX_CAPABILITY_RECORDS_def take_Suc_conv_app_nth)
  from signal_routing_nodes_stay [OF track_topology_inv [OF cap_new_inv] this,
      of "[HeardRole 8 2 5, HeardRole 9 1 6]"]
  show ?thesis by (simp add: is_signal_routing_def)
qed

text \<open>
  C32. Pruning removes exactly the expired records of other nodes, reports exactly those of
  them that spoke the signal routing protocol, and is invisible to status queries at the same
  time: every node has the status it had before.
\<close>

theorem prune_exact:
  assumes "cap_inv s" "now \<noteq> 0" "prune s now my_node = (t, cleared)"
  shows "cap_inv t \<and>
    set (cap_live t) = {r \<in> set (cap_live s). cr_node_id r = my_node \<or> \<not> cap_expired now r} \<and>
    set cleared = cr_node_id ` {r \<in> set (cap_live s). cr_node_id r \<noteq> my_node \<and>
      cap_expired now r \<and> is_signal_routing (cr_status r)} \<and>
    (\<forall>node. status_at t node my_node now = status_at s node my_node now)"
proof -
  note pr = prune_effect [OF assms(1,3)]
  have "status_at t node my_node now = status_at s node my_node now" for node
  proof -
    have f: "cap_find t node = (case cap_find s node of None \<Rightarrow> None
        | Some r \<Rightarrow> if \<not> cap_dropped now my_node r then Some r else None)"
      using caps.lookup_restrict [OF assms(1) pr(1,2), of node] by (simp add: cap_find_def)
    have "my_node \<noteq> 0 \<or> cr_node_id r \<noteq> my_node" if "cap_find s node = Some r" for r
      using that assms(1) cap_find_Some_iff [OF assms(1), of node r] by (auto simp: cap_inv_def)
    then show ?thesis
      using assms(2) by (auto simp: status_at_def f cap_dropped_def split: option.splits)
  qed
  then show ?thesis using pr by (auto simp: cap_dropped_def)
qed

theorem prune_exact_witness:
  "status_at (fst (prune (track_topology cap_new 7 True 1) 5000000 3)) 7 3 5000000 =
     status_at (track_topology cap_new 7 True 1) 7 3 5000000"
  using prune_exact [OF track_topology_inv [OF cap_new_inv], of 5000000 7 True 1 3, OF _ surjective_pairing]
  by simp

end
