(* ===== verification/Float32.thy ===== *)
theory Float32
  imports Prelude Complex_Main "HOL-Library.Log_Nat"
begin

text \<open>
  The \<open>f32\<close> arithmetic the crates use for costs and percentages. A value is not a number, an
  infinity or a rational; an operation on finite values computes the exact rational and rounds
  it to the nearest representable one, ties to the even significand (24 bits, exponents down to
  -149, overflow to infinity). The sign of zero is not kept: no code modelled here divides by a
  zero or reads its sign. The locale \<open>rounding\<close> states what proofs need of the rounding:
  it is monotone and leaves representable values alone.
\<close>

section \<open>Rounding\<close>

definition rne :: "rat \<Rightarrow> int" where
  "rne q =
     (let f = \<lfloor>q\<rfloor>; r = q - of_int f in
      if r < 1 / 2 then f else if 1 / 2 < r then f + 1 else if even f then f else f + 1)"

definition ilog2 :: "rat \<Rightarrow> int" where
  "ilog2 a =
     (case quotient_of a of (p, q) \<Rightarrow>
        let k = bitlen p - bitlen q in if 2 powi k \<le> a then k else k - 1)"

definition ulp_exp :: "rat \<Rightarrow> int" where
  "ulp_exp a = max (- 149) (ilog2 a - 23)"

definition round_pos :: "rat \<Rightarrow> rat" where
  "round_pos a = (let u = 2 powi ulp_exp a in of_int (rne (a / u)) * u)"

definition rnd :: "rat \<Rightarrow> rat" where
  "rnd a = (if a = 0 then 0 else if 0 < a then round_pos a else - round_pos (- a))"

datatype f32 = NaN | PInf | NInf | Fin rat

definition round32 :: "rat \<Rightarrow> f32" where
  "round32 q =
     (let r = rnd q in
      if 2 ^ 128 \<le> r then PInf else if r \<le> - (2 ^ 128) then NInf else Fin r)"

section \<open>Operations\<close>

definition is_finite :: "f32 \<Rightarrow> bool" where
  "is_finite x \<longleftrightarrow> (case x of Fin _ \<Rightarrow> True | _ \<Rightarrow> False)"

fun f32_neg :: "f32 \<Rightarrow> f32" where
  "f32_neg NaN = NaN" | "f32_neg PInf = NInf" | "f32_neg NInf = PInf" | "f32_neg (Fin a) = Fin (- a)"

fun f32_add :: "f32 \<Rightarrow> f32 \<Rightarrow> f32" where
  "f32_add (Fin a) (Fin b) = round32 (a + b)"
| "f32_add PInf (Fin b) = PInf" | "f32_add (Fin a) PInf = PInf" | "f32_add PInf PInf = PInf"
| "f32_add NInf (Fin b) = NInf" | "f32_add (Fin a) NInf = NInf" | "f32_add NInf NInf = NInf"
| "f32_add _ _ = NaN"

definition f32_sub :: "f32 \<Rightarrow> f32 \<Rightarrow> f32" where
  "f32_sub x y = f32_add x (f32_neg y)"

definition inf_times :: "f32 \<Rightarrow> rat \<Rightarrow> f32" where
  "inf_times x b = (if b = 0 then NaN else if 0 < b then x else f32_neg x)"

fun f32_mul :: "f32 \<Rightarrow> f32 \<Rightarrow> f32" where
  "f32_mul (Fin a) (Fin b) = round32 (a * b)"
| "f32_mul NaN _ = NaN" | "f32_mul _ NaN = NaN"
| "f32_mul x (Fin b) = inf_times x b" | "f32_mul (Fin a) x = inf_times x a"
| "f32_mul PInf x = x" | "f32_mul NInf x = f32_neg x"

fun f32_div :: "f32 \<Rightarrow> f32 \<Rightarrow> f32" where
  "f32_div (Fin a) (Fin b) =
     (if b = 0 then (if a = 0 then NaN else if 0 < a then PInf else NInf) else round32 (a / b))"
| "f32_div NaN _ = NaN" | "f32_div _ NaN = NaN"
| "f32_div (Fin a) _ = Fin 0"
| "f32_div x (Fin b) = (if b < 0 then f32_neg x else x)"
| "f32_div _ _ = NaN"

fun f32_less :: "f32 \<Rightarrow> f32 \<Rightarrow> bool" where
  "f32_less NaN _ = False" | "f32_less _ NaN = False"
| "f32_less (Fin a) (Fin b) = (a < b)"
| "f32_less NInf NInf = False" | "f32_less NInf _ = True" | "f32_less _ NInf = False"
| "f32_less PInf _ = False" | "f32_less _ PInf = True"

definition f32_le :: "f32 \<Rightarrow> f32 \<Rightarrow> bool" where
  "f32_le x y \<longleftrightarrow> x \<noteq> NaN \<and> y \<noteq> NaN \<and> \<not> f32_less y x"

text \<open>\<open>f32::min\<close>, \<open>f32::max\<close> (the other operand when one is not a number), \<open>clamp\<close>.\<close>

definition f32_min :: "f32 \<Rightarrow> f32 \<Rightarrow> f32" where
  "f32_min x y = (if x = NaN then y else if y = NaN then x else if f32_less y x then y else x)"

definition f32_max :: "f32 \<Rightarrow> f32 \<Rightarrow> f32" where
  "f32_max x y = (if x = NaN then y else if y = NaN then x else if f32_less x y then y else x)"

definition f32_clamp :: "f32 \<Rightarrow> f32 \<Rightarrow> f32 \<Rightarrow> f32" where
  "f32_clamp x lo hi = (let x = (if f32_less x lo then lo else x) in if f32_less hi x then hi else x)"

text \<open>\<open>x as uN\<close>: towards zero, saturating, not a number to zero.\<close>

definition f32_to_nat :: "nat \<Rightarrow> f32 \<Rightarrow> nat" where
  "f32_to_nat hi x =
     (case x of NaN \<Rightarrow> 0 | NInf \<Rightarrow> 0 | PInf \<Rightarrow> hi | Fin a \<Rightarrow> if a \<le> 0 then 0 else min hi (nat \<lfloor>a\<rfloor>))"

definition f32_to_word :: "f32 \<Rightarrow> 'a::len word" where
  "f32_to_word x = of_nat (f32_to_nat (2 ^ LENGTH('a) - 1) x)"

definition f32_of_nat :: "nat \<Rightarrow> f32" where
  "f32_of_nat n = round32 (of_nat n)"

section \<open>Rounding is monotone and exact on representable values\<close>

lemma rne_bounds: "\<lfloor>q\<rfloor> \<le> rne q" "rne q \<le> \<lfloor>q\<rfloor> + 1"
  by (simp_all add: rne_def Let_def)

lemma rne_mono:
  assumes "a \<le> b"
  shows "rne a \<le> rne b"
proof (cases "\<lfloor>a\<rfloor> = \<lfloor>b\<rfloor>")
  case True
  then show ?thesis using assms by (auto simp: rne_def Let_def)
next
  case False
  then have "\<lfloor>a\<rfloor> + 1 \<le> \<lfloor>b\<rfloor>" using floor_mono [OF assms] by simp
  then show ?thesis using rne_bounds(2) [of a] rne_bounds(1) [of b] by simp
qed

lemma rne_of_int [simp]: "rne (of_int n) = n"
  by (simp add: rne_def)

lemma rne_le_int: "a \<le> of_int n \<Longrightarrow> rne a \<le> n"
  using rne_mono [of a "of_int n"] by simp

lemma rne_ge_int: "of_int n \<le> a \<Longrightarrow> n \<le> rne a"
  using rne_mono [of "of_int n" a] by simp

lemma powi_split: "(2::rat) powi (m + n) = 2 powi m * 2 powi n"
  by (simp add: power_int_add)

lemma powi_mono: "m \<le> n \<Longrightarrow> (2::rat) powi m \<le> 2 powi n"
  by (simp add: power_int_increasing)

lemma ilog2_bounds:
  assumes "0 < a"
  shows "2 powi (ilog2 a) \<le> a" "a < 2 powi (ilog2 a + 1)"
proof -
  obtain p q where pq: "quotient_of a = (p, q)" by (cases "quotient_of a")
  have q: "0 < q" using pq by (rule quotient_of_denom_pos)
  have a: "a = of_int p / of_int q" using pq by (rule quotient_of_div)
  then have p: "0 < p" using assms q by (simp add: zero_less_divide_iff)
  have pow: "(2::rat) ^ nat n = 2 powi n" if "0 \<le> n" for n
    using that by (simp add: power_int_def)
  have bp: "1 \<le> bitlen p" "1 \<le> bitlen q"
    using p q by (simp_all add: bitlen_alt_def)
  have up: "rat_of_int x < 2 powi (bitlen x)" "2 powi (bitlen x - 1) \<le> rat_of_int x" if "0 < x" for x
  proof -
    have b: "2 ^ nat (bitlen x - 1) \<le> x \<and> x < 2 ^ nat (bitlen x)"
      by (rule bitlen_bounds [OF that])
    have one: "1 \<le> bitlen x" using that by (simp add: bitlen_alt_def)
    have "rat_of_int x < rat_of_int (2 ^ nat (bitlen x))" using b by (simp only: of_int_less_iff)
    then show "rat_of_int x < 2 powi (bitlen x)" using one pow [of "bitlen x"] by simp
    have "rat_of_int (2 ^ nat (bitlen x - 1)) \<le> rat_of_int x" using b by (simp only: of_int_le_iff)
    then show "2 powi (bitlen x - 1) \<le> rat_of_int x" using one pow [of "bitlen x - 1"] by simp
  qed
  let ?k = "bitlen p - bitlen q"
  have qpos: "0 < rat_of_int q" using q by simp
  have "a < 2 powi (?k + 1)"
  proof -
    have "rat_of_int p < 2 powi (?k + 1) * 2 powi (bitlen q - 1)"
      using up(1) [OF p] by (simp add: powi_split [symmetric])
    also have "\<dots> \<le> 2 powi (?k + 1) * rat_of_int q"
      using up(2) [OF q] by (intro mult_left_mono) simp_all
    finally show ?thesis using qpos by (simp add: a divide_less_eq)
  qed
  moreover have "2 powi (?k - 1) \<le> a"
  proof -
    have "2 powi (?k - 1) * rat_of_int q \<le> 2 powi (?k - 1) * 2 powi (bitlen q)"
      using up(1) [OF q] by (intro mult_left_mono) (simp_all add: less_imp_le)
    also have "\<dots> = 2 powi (bitlen p - 1)" by (simp add: powi_split [symmetric])
    also have "\<dots> \<le> rat_of_int p" by (rule up(2) [OF p])
    finally show ?thesis using qpos by (simp add: a le_divide_eq)
  qed
  ultimately show "2 powi (ilog2 a) \<le> a" "a < 2 powi (ilog2 a + 1)"
    by (auto simp: ilog2_def pq Let_def)
qed

lemma ilog2_mono:
  assumes "0 < a" "a \<le> b"
  shows "ilog2 a \<le> ilog2 b"
proof (rule ccontr)
  assume "\<not> ilog2 a \<le> ilog2 b"
  then have "(2::rat) powi (ilog2 b + 1) \<le> 2 powi (ilog2 a)" by (intro powi_mono) simp
  then show False using ilog2_bounds [of a] ilog2_bounds(2) [of b] assms by linarith
qed

lemma ilog2_unique:
  assumes "2 powi e \<le> a" "a < 2 powi (e + 1)"
  shows "ilog2 a = e"
proof -
  have pos: "0 < a" using assms(1) by (rule less_le_trans [rotated]) simp
  have "\<not> e + 1 \<le> ilog2 a" "\<not> ilog2 a + 1 \<le> e"
    using powi_mono [of "e + 1" "ilog2 a"] powi_mono [of "ilog2 a + 1" e]
      ilog2_bounds [OF pos] assms by linarith+
  then show ?thesis by simp
qed

lemma round_pos_mono:
  assumes "0 < a" "a \<le> b"
  shows "round_pos a \<le> round_pos b"
proof -
  let ?ea = "ulp_exp a" and ?eb = "ulp_exp b"
  have le: "?ea \<le> ?eb" using ilog2_mono [OF assms] by (simp add: ulp_exp_def)
  show ?thesis
  proof (cases "?ea = ?eb")
    case True
    have "a / 2 powi ?eb \<le> b / 2 powi ?eb" using assms(2) by (intro divide_right_mono) simp_all
    then have "rne (a / 2 powi ?eb) \<le> rne (b / 2 powi ?eb)" by (rule rne_mono)
    then show ?thesis
      by (simp add: round_pos_def True Let_def mult_right_mono)
  next
    case False
    with le have lt: "?ea + 1 \<le> ?eb" by simp
    then have eb: "?eb = ilog2 b - 23" by (simp add: ulp_exp_def max_def split: if_splits)
    have "a < 2 powi (ilog2 a + 1)" by (rule ilog2_bounds(2) [OF assms(1)])
    also have "\<dots> \<le> 2 powi (?ea + 24)" by (intro powi_mono) (simp add: ulp_exp_def)
    finally have "a / 2 powi ?ea \<le> of_int (2 ^ 24)"
      by (simp add: divide_le_eq powi_split mult.commute)
    then have "rne (a / 2 powi ?ea) \<le> 2 ^ 24" by (rule rne_le_int)
    then have "of_int (rne (a / 2 powi ?ea)) \<le> (2 ^ 24 :: rat)"
      by (metis of_int_le_iff of_int_numeral of_int_power)
    then have "round_pos a \<le> 2 ^ 24 * 2 powi ?ea"
      unfolding round_pos_def Let_def by (intro mult_right_mono) simp_all
    also have "\<dots> = 2 powi (?ea + 24)" by (simp add: powi_split)
    also have "\<dots> \<le> 2 powi (?eb + 23)" using lt by (intro powi_mono) simp
    also have "\<dots> = of_int (2 ^ 23) * 2 powi ?eb" by (simp add: powi_split)
    also have "\<dots> \<le> round_pos b"
    proof -
      have "2 powi (ilog2 b) \<le> b" using ilog2_bounds(1) [of b] assms by simp
      then have "of_int (2 ^ 23) \<le> b / 2 powi ?eb"
        using eb by (simp add: le_divide_eq powi_split [symmetric] power_int_diff)
      then have "2 ^ 23 \<le> rne (b / 2 powi ?eb)" by (rule rne_ge_int)
      then have "of_int (2 ^ 23) \<le> (of_int (rne (b / 2 powi ?eb)) :: rat)" by (simp only: of_int_le_iff)
      then show ?thesis unfolding round_pos_def Let_def by (intro mult_right_mono) simp_all
    qed
    finally show ?thesis .
  qed
qed

lemma round_pos_nonneg: "0 < a \<Longrightarrow> 0 \<le> round_pos a"
  using rne_ge_int [of 0 "a / 2 powi ulp_exp a"] by (simp add: round_pos_def Let_def)

lemma rnd_mono: "a \<le> b \<Longrightarrow> rnd a \<le> rnd b"
  using round_pos_mono [of a b] round_pos_mono [of "- b" "- a"]
    round_pos_nonneg [of b] round_pos_nonneg [of "- a"]
  by (auto simp: rnd_def)

text \<open>Integers of at most 24 bits are representable.\<close>

lemma round_pos_int:
  assumes "0 < n" "n \<le> 2 ^ 24"
  shows "round_pos (of_int n) = of_int n"
proof -
  let ?e = "ulp_exp (of_int n)"
  have pos: "0 < rat_of_int n" using assms(1) by simp
  show ?thesis
  proof (cases "n = 2 ^ 24")
    case True
    have "ilog2 (rat_of_int n) = 24"
    proof (rule antisym)
      have *: "(2::rat) powi (ilog2 (of_int n)) \<le> 2 powi 24" using ilog2_bounds(1) [OF pos] True by simp
      show "ilog2 (rat_of_int n) \<le> 24"
      proof (rule ccontr)
        assume "\<not> ilog2 (rat_of_int n) \<le> 24"
        then have "(2::rat) powi 25 \<le> 2 powi (ilog2 (of_int n))" by (intro powi_mono) simp
        with * show False by simp
      qed
      show "24 \<le> ilog2 (rat_of_int n)"
      proof (rule ccontr)
        assume "\<not> 24 \<le> ilog2 (rat_of_int n)"
        then have "(2::rat) powi (ilog2 (of_int n) + 1) \<le> 2 powi 24" by (intro powi_mono) simp
        with ilog2_bounds(2) [OF pos] True show False by simp
      qed
    qed
    then have e: "?e = 1" by (simp add: ulp_exp_def)
    have "rat_of_int n / 2 = of_int (2 ^ 23)" using True by simp
    then have "rne (rat_of_int n / 2) = 2 ^ 23" by (simp only: rne_of_int)
    moreover have "round_pos (of_int n) = of_int (rne (of_int n / 2)) * 2"
      unfolding round_pos_def Let_def e by simp
    ultimately show ?thesis using True by simp
  next
    case False
    have "ilog2 (rat_of_int n) \<le> 23"
    proof (rule ccontr)
      assume "\<not> ilog2 (rat_of_int n) \<le> 23"
      then have "(2::rat) powi 24 \<le> 2 powi (ilog2 (of_int n))" by (intro powi_mono) simp
      also have "\<dots> \<le> of_int n" by (rule ilog2_bounds(1) [OF pos])
      finally have "rat_of_int (2 ^ 24) \<le> of_int n" by simp
      then show False using assms(2) False by (simp only: of_int_le_iff)
    qed
    then have e: "?e \<le> 0" by (simp add: ulp_exp_def)
    then have u: "(1::rat) / 2 powi ?e = of_int (2 ^ nat (- ?e))"
      by (simp add: power_int_def divide_simps power_inverse)
    have "rat_of_int n / 2 powi ?e = of_int n * (1 / 2 powi ?e)" by simp
    also have "\<dots> = of_int (n * 2 ^ nat (- ?e))" by (simp only: u of_int_mult)
    finally have q: "rat_of_int n / 2 powi ?e = of_int (n * 2 ^ nat (- ?e))" .
    have "round_pos (of_int n) = of_int (n * 2 ^ nat (- ?e)) * 2 powi ?e"
      unfolding round_pos_def Let_def q rne_of_int ..
    also have "\<dots> = of_int n" unfolding q [symmetric] by simp
    finally show ?thesis .
  qed
qed

lemma rnd_int: "\<bar>n\<bar> \<le> 2 ^ 24 \<Longrightarrow> rnd (of_int n) = of_int n"
  using round_pos_int [of n] round_pos_int [of "- n"] by (auto simp: rnd_def)

lemma rnd_pow2: "rnd (2 ^ k) = 2 ^ k"
proof -
  have p: "(2::rat) powi (int k) = 2 ^ k" by simp
  have "ilog2 (2 ^ k) = int k"
    by (rule ilog2_unique) (simp_all add: power_int_add)
  then have e: "ulp_exp (2 ^ k) = int k - 23" by (simp add: ulp_exp_def)
  have "(2::rat) ^ k / 2 powi (int k - 23) = of_int (2 ^ 23)"
    by (simp add: power_int_diff)
  then have "round_pos (2 ^ k) = of_int (2 ^ 23) * 2 powi (int k - 23)"
    unfolding round_pos_def Let_def e by (simp only: rne_of_int)
  also have "\<dots> = 2 ^ k" by (simp add: power_int_diff)
  finally show ?thesis by (simp add: rnd_def)
qed

text \<open>What a rounding promises, and what follows for a value between two representable ones.\<close>

locale rounding =
  fixes r :: "rat \<Rightarrow> rat" and rep :: "rat set"
  assumes r_mono: "a \<le> b \<Longrightarrow> r a \<le> r b" and r_rep: "a \<in> rep \<Longrightarrow> r a = a"
begin

lemma r_upper: "a \<le> b \<Longrightarrow> b \<in> rep \<Longrightarrow> r a \<le> b"
  using r_mono [of a b] r_rep [of b] by simp

lemma r_lower: "b \<le> a \<Longrightarrow> b \<in> rep \<Longrightarrow> b \<le> r a"
  using r_mono [of b a] r_rep [of b] by simp

end

interpretation f32r: rounding rnd "{rat_of_int n | n. \<bar>n\<bar> \<le> 2 ^ 24} \<union> {2 ^ k | k. True}"
  by unfold_locales (auto simp: rnd_mono rnd_int rnd_pow2)

lemma rnd_le_int: "a \<le> of_int n \<Longrightarrow> \<bar>n\<bar> \<le> 2 ^ 24 \<Longrightarrow> rnd a \<le> of_int n"
  by (rule f32r.r_upper) auto

lemma rnd_ge_int: "of_int n \<le> a \<Longrightarrow> \<bar>n\<bar> \<le> 2 ^ 24 \<Longrightarrow> of_int n \<le> rnd a"
  by (rule f32r.r_lower) auto

lemma rnd_le_pow2: "a \<le> 2 ^ k \<Longrightarrow> rnd a \<le> 2 ^ k"
  by (rule f32r.r_upper) auto

lemma rnd_pos: "0 \<le> q \<Longrightarrow> 0 \<le> rnd q"
  using rnd_mono [of 0 q] by (simp add: rnd_def)

lemma round32_Fin:
  assumes "0 \<le> q" "q \<le> 2 ^ k" "k < 128"
  shows "round32 q = Fin (rnd q)"
proof -
  have "(2::rat) ^ k < 2 ^ 128" using assms(3) by (intro power_strict_increasing) simp_all
  then show ?thesis
    using rnd_pos [OF assms(1)] rnd_le_pow2 [OF assms(2)] by (simp add: round32_def)
qed

text \<open>Evaluating a rounding whose binade is known.\<close>

lemma rne_eval:
  assumes "of_int n - 1 / 2 < q" "q < of_int n + 1 / 2"
  shows "rne q = n"
proof (cases "of_int n \<le> q")
  case True
  then have "\<lfloor>q\<rfloor> = n" using assms(2) by (simp add: floor_unique)
  with assms(2) True show ?thesis by (simp add: rne_def Let_def)
next
  case False
  then have "\<lfloor>q\<rfloor> = n - 1" using assms(1) by (simp add: floor_unique)
  with assms(1) False show ?thesis by (simp add: rne_def Let_def)
qed

lemma rnd_eval:
  assumes "2 powi e \<le> a" "a < 2 powi (e + 1)" "- 126 \<le> e"
  shows "rnd a = of_int (rne (a / 2 powi (e - 23))) * 2 powi (e - 23)"
proof -
  have "0 < a" using assms(1) by (rule less_le_trans [rotated]) simp
  moreover have "ulp_exp a = e - 23"
    using ilog2_unique [OF assms(1,2)] assms(3) by (simp add: ulp_exp_def)
  ultimately show ?thesis by (simp add: rnd_def round_pos_def Let_def)
qed

end
