(* ===== verification/Downstream.thy ===== *)
theory Downstream
  imports Prelude Float32
begin

text \<open>
  The downstream table (\<open>graph/downstream.rs\<close>): which relay reaches which destination, at
  what cost, as learned from topology lists. Up to 900 entries, live in a prefix of the array,
  at most one per (destination, relay). \<open>chain_egress\<close> follows cheapest relays until one
  is a usable egress. The closures \<open>is_egress\<close> and \<open>relay_in_graph\<close> are arguments here as
  they are in the code.
\<close>

section \<open>Model\<close>

definition MAX_DOWNSTREAM :: nat where "MAX_DOWNSTREAM = 900"
definition MAX_DOWNSTREAM_CHAIN :: nat where "MAX_DOWNSTREAM_CHAIN = 16"

record chain_egress =
  ce_node :: u32
  ce_hops :: nat
  ce_cost_fixed :: u16

record downstream_entry =
  de_destination :: u32
  de_relay :: u32
  de_via_radio :: u8
  de_cost_fixed :: u16
  de_last_update_ms :: u32
  de_list_learned :: bool

record downstream_table =
  ds_entries :: "downstream_entry list"
  ds_count :: nat

definition ds_new :: downstream_table where
  "ds_new = \<lparr>ds_entries = replicate MAX_DOWNSTREAM
     \<lparr>de_destination = 0, de_relay = 0, de_via_radio = 0, de_cost_fixed = 0,
      de_last_update_ms = 0, de_list_learned = False\<rparr>, ds_count = 0\<rparr>"

definition ds_clear :: "downstream_table \<Rightarrow> downstream_table" where
  "ds_clear t = t\<lparr>ds_count := 0\<rparr>"

definition ds_entry :: "downstream_table \<Rightarrow> nat \<Rightarrow> downstream_entry option" where
  "ds_entry t i = (if i < ds_count t then Some (ds_entries t ! i) else None)"

definition ds_live :: "downstream_table \<Rightarrow> downstream_entry list" where
  "ds_live t = take (ds_count t) (ds_entries t)"

text \<open>The scan both cost lookups run: skip, or keep the first entry of smallest cost.\<close>

fun best_loop :: "(downstream_entry \<Rightarrow> bool) \<Rightarrow> downstream_entry list \<Rightarrow> u32 option \<Rightarrow> u16 \<Rightarrow>
    u32 option \<times> u16" where
  "best_loop skip [] best_relay best_cost = (best_relay, best_cost)"
| "best_loop skip (e # es) best_relay best_cost =
     (if skip e then best_loop skip es best_relay best_cost
      else if de_cost_fixed e < best_cost then best_loop skip es (Some (de_relay e)) (de_cost_fixed e)
      else best_loop skip es best_relay best_cost)"

definition relay_and_cost :: "downstream_table \<Rightarrow> u32 \<Rightarrow> u32 \<Rightarrow> u32 \<Rightarrow> (u32 \<times> u16) option" where
  "relay_and_cost t destination now_ms ttl_ms =
     (case best_loop (\<lambda>e. de_destination e \<noteq> destination \<or> ttl_ms \<le> now_ms - de_last_update_ms e)
        (ds_live t) None (- 1) of
        (best_relay, best_cost) \<Rightarrow> map_option (\<lambda>relay. (relay, best_cost)) best_relay)"

definition get_relay :: "downstream_table \<Rightarrow> u32 \<Rightarrow> u32 \<Rightarrow> u32 \<Rightarrow> u32 option" where
  "get_relay t destination now_ms ttl_ms = map_option fst (relay_and_cost t destination now_ms ttl_ms)"

definition list_downstream :: "downstream_table \<Rightarrow> u32 \<Rightarrow> u32 \<Rightarrow> u32 \<Rightarrow> (u32 \<times> u16) option" where
  "list_downstream t destination now_ms ttl_ms =
     (case best_loop (\<lambda>e. de_destination e \<noteq> destination \<or> \<not> de_list_learned e
          \<or> ttl_ms \<le> now_ms - de_last_update_ms e) (ds_live t) None (- 1) of
        (best_relay, best_cost) \<Rightarrow> map_option (\<lambda>relay. (relay, best_cost)) best_relay)"

text \<open>
  The loop of \<open>chain_egress\<close>: \<open>seen\<close> is the used part of the array, so its length is the
  hop counter.
\<close>

function chain_loop ::
  "downstream_table \<Rightarrow> u32 \<Rightarrow> u32 \<Rightarrow> (u32 \<Rightarrow> bool) \<Rightarrow> u32 \<Rightarrow> u32 list \<Rightarrow> u16 \<Rightarrow> chain_egress option" where
  "chain_loop t now_ms ttl_ms is_egress cur seen cost_fixed =
     (if MAX_DOWNSTREAM_CHAIN \<le> length seen then None
      else
        (case relay_and_cost t cur now_ms ttl_ms of
           None \<Rightarrow> None
         | Some (relay, hop_cost) \<Rightarrow>
             if relay = 0 \<or> relay = cur then None
             else if relay \<in> set seen then None
             else
               let seen = seen @ [relay]; cost_fixed = sat_add cost_fixed hop_cost in
               if is_egress relay
               then Some \<lparr>ce_node = relay, ce_hops = length seen, ce_cost_fixed = cost_fixed\<rparr>
               else chain_loop t now_ms ttl_ms is_egress relay seen cost_fixed))"
  by pat_completeness auto
termination
  by (relation "measure (\<lambda>(t, now, ttl, eg, cur, seen, cost). MAX_DOWNSTREAM_CHAIN - length seen)") auto

declare chain_loop.simps [simp del]

definition chain_egress_of ::
  "downstream_table \<Rightarrow> u32 \<Rightarrow> u32 \<Rightarrow> u32 \<Rightarrow> (u32 \<Rightarrow> bool) \<Rightarrow> chain_egress option" where
  "chain_egress_of t destination now_ms ttl_ms is_egress =
     (if destination = 0 then None else chain_loop t now_ms ttl_ms is_egress destination [] 0)"

definition count_for_relay :: "downstream_table \<Rightarrow> u32 \<Rightarrow> u32 \<Rightarrow> u32 \<Rightarrow> nat" where
  "count_for_relay t relay now_ms ttl_ms =
     length (filter (\<lambda>e. de_relay e = relay \<and> now_ms - de_last_update_ms e < ttl_ms) (ds_live t))"

text \<open>\<open>nodes_for_relay\<close> fills a slice of \<open>cap\<close> places and returns how many it filled.\<close>

definition nodes_for_relay :: "downstream_table \<Rightarrow> u32 \<Rightarrow> nat \<Rightarrow> u32 \<Rightarrow> u32 \<Rightarrow> u32 list" where
  "nodes_for_relay t relay cap now_ms ttl_ms =
     take cap (map de_destination
       (filter (\<lambda>e. de_relay e = relay \<and> now_ms - de_last_update_ms e < ttl_ms) (ds_live t)))"

definition is_relay_for :: "downstream_table \<Rightarrow> u32 \<Rightarrow> u32 \<Rightarrow> u32 \<Rightarrow> u32 \<Rightarrow> bool" where
  "is_relay_for t relay destination now_ms ttl_ms \<longleftrightarrow>
     list_ex (\<lambda>e. de_destination e = destination \<and> de_relay e = relay
        \<and> now_ms - de_last_update_ms e < ttl_ms) (ds_live t)"

text \<open>The entry to reuse in a full table: the first one of the largest age.\<close>

fun oldest_entry_loop :: "u32 \<Rightarrow> downstream_entry list \<Rightarrow> nat \<Rightarrow> nat \<Rightarrow> u32 \<Rightarrow> nat" where
  "oldest_entry_loop now_ms [] i oldest_idx oldest = oldest_idx"
| "oldest_entry_loop now_ms (e # es) i oldest_idx oldest =
     (if oldest < now_ms - de_last_update_ms e
      then oldest_entry_loop now_ms es (Suc i) i (now_ms - de_last_update_ms e)
      else oldest_entry_loop now_ms es (Suc i) oldest_idx oldest)"

definition upsert_entry ::
  "downstream_table \<Rightarrow> u32 \<Rightarrow> u32 \<Rightarrow> u16 \<Rightarrow> u8 \<Rightarrow> u32 \<Rightarrow> bool \<Rightarrow> downstream_table" where
  "upsert_entry t destination relay cost_fixed via_radio now_ms list_learned =
     (let new = \<lparr>de_destination = destination, de_relay = relay, de_via_radio = via_radio,
        de_cost_fixed = cost_fixed, de_last_update_ms = now_ms, de_list_learned = list_learned\<rparr> in
      case position (\<lambda>e. de_destination e = destination \<and> de_relay e = relay) (ds_live t) of
        Some i \<Rightarrow>
          let e = (ds_entries t ! i)\<lparr>de_cost_fixed := cost_fixed, de_last_update_ms := now_ms,
                    de_via_radio := via_radio\<rparr>;
              e = (if list_learned then e\<lparr>de_list_learned := True\<rparr> else e)
          in t\<lparr>ds_entries := (ds_entries t)[i := e]\<rparr>
      | None \<Rightarrow>
          if ds_count t < MAX_DOWNSTREAM then
            t\<lparr>ds_entries := (ds_entries t)[ds_count t := new], ds_count := ds_count t + 1\<rparr>
          else
            let oldest_idx = oldest_entry_loop now_ms (tl (ds_live t)) 1 0
                  (now_ms - de_last_update_ms (ds_entries t ! 0))
            in t\<lparr>ds_entries := (ds_entries t)[oldest_idx := new]\<rparr>)"

text \<open>The swap-remove loop of the four clearing operations.\<close>

definition ds_remove_where :: "(downstream_entry \<Rightarrow> bool) \<Rightarrow> downstream_table \<Rightarrow> downstream_table" where
  "ds_remove_where drp t =
     (case swap_prune drp (ds_entries t) (ds_count t) 0 of
        (es, n) \<Rightarrow> t\<lparr>ds_entries := es, ds_count := n\<rparr>)"

definition clear_for_relay :: "downstream_table \<Rightarrow> u32 \<Rightarrow> downstream_table" where
  "clear_for_relay t relay = ds_remove_where (\<lambda>e. de_relay e = relay) t"

definition clear_for_destination :: "downstream_table \<Rightarrow> u32 \<Rightarrow> downstream_table" where
  "clear_for_destination t destination = ds_remove_where (\<lambda>e. de_destination e = destination) t"

definition ds_age :: "downstream_table \<Rightarrow> u32 \<Rightarrow> u32 \<Rightarrow> (u32 \<Rightarrow> bool) \<Rightarrow> downstream_table \<times> bool" where
  "ds_age t now_ms ttl_ms relay_in_graph =
     (let t' = ds_remove_where (\<lambda>e. ttl_ms < now_ms - de_last_update_ms e
          \<or> \<not> relay_in_graph (de_relay e)) t
      in (t', ds_count t \<noteq> ds_count t'))"

definition update_inner ::
  "downstream_table \<Rightarrow> u32 \<Rightarrow> u32 \<Rightarrow> u32 \<Rightarrow> f32 \<Rightarrow> u32 \<Rightarrow> bool \<Rightarrow> u8 \<Rightarrow> bool \<Rightarrow> downstream_table" where
  "update_inner t my_node destination relay total_cost now_ms relay_has_direct_edge via_radio
       list_learned =
     (if destination = 0 \<or> relay = 0 \<or> destination = relay \<or> destination = my_node
         \<or> \<not> is_finite total_cost \<or> f32_le total_cost (Fin 0) then t
      else if relay_has_direct_edge then t
      else
        let cost_fixed = f32_to_word (f32_min (f32_mul total_cost (Fin 100)) (Fin 65535))
        in upsert_entry t destination relay cost_fixed via_radio now_ms list_learned)"

definition ds_update ::
  "downstream_table \<Rightarrow> u32 \<Rightarrow> u32 \<Rightarrow> u32 \<Rightarrow> f32 \<Rightarrow> u32 \<Rightarrow> bool \<Rightarrow> u8 \<Rightarrow> downstream_table" where
  "ds_update t my_node destination relay total_cost now_ms direct via_radio =
     update_inner t my_node destination relay total_cost now_ms direct via_radio False"

definition update_listed ::
  "downstream_table \<Rightarrow> u32 \<Rightarrow> u32 \<Rightarrow> u32 \<Rightarrow> f32 \<Rightarrow> u32 \<Rightarrow> bool \<Rightarrow> u8 \<Rightarrow> downstream_table" where
  "update_listed t my_node destination relay total_cost now_ms direct via_radio =
     update_inner t my_node destination relay total_cost now_ms direct via_radio True"

definition update_exclusive ::
  "downstream_table \<Rightarrow> u32 \<Rightarrow> u32 \<Rightarrow> u32 \<Rightarrow> f32 \<Rightarrow> u32 \<Rightarrow> bool \<Rightarrow> u8 \<Rightarrow> downstream_table" where
  "update_exclusive t my_node destination relay total_cost now_ms direct via_radio =
     ds_update (ds_remove_where (\<lambda>e. de_destination e = destination) t)
       my_node destination relay total_cost now_ms direct via_radio"

text \<open>
  The loop of \<open>transfer_downstream\<close> runs over the entries that were live when it started
  and reads each from the table as the upserts before it have left it.
\<close>

fun transfer_loop ::
  "u32 \<Rightarrow> u32 \<Rightarrow> u32 \<Rightarrow> nat list \<Rightarrow> downstream_table \<Rightarrow> nat \<Rightarrow> downstream_table \<times> nat" where
  "transfer_loop old_relay new_relay now_ms [] t moved = (t, moved)"
| "transfer_loop old_relay new_relay now_ms (i # is) t moved =
     (let e = ds_entries t ! i in
      if de_relay e \<noteq> old_relay then transfer_loop old_relay new_relay now_ms is t moved
      else transfer_loop old_relay new_relay now_ms is
        (upsert_entry t (de_destination e) new_relay (de_cost_fixed e) (de_via_radio e) now_ms
           (de_list_learned e)) (moved + 1))"

definition transfer_downstream ::
  "downstream_table \<Rightarrow> u32 \<Rightarrow> u32 \<Rightarrow> u32 \<Rightarrow> downstream_table \<times> nat" where
  "transfer_downstream t old_relay new_relay now_ms =
     (if old_relay = 0 \<or> new_relay = 0 \<or> old_relay = new_relay then (t, 0)
      else
        case transfer_loop old_relay new_relay now_ms [0..<ds_count t] t 0 of
          (t, moved) \<Rightarrow> (clear_for_relay t old_relay, moved))"

section \<open>Invariant\<close>

abbreviation de_key :: "downstream_entry \<Rightarrow> u32 \<times> u32" where
  "de_key e \<equiv> (de_destination e, de_relay e)"

definition ds_inv :: "downstream_table \<Rightarrow> bool" where
  "ds_inv t \<longleftrightarrow> length (ds_entries t) = MAX_DOWNSTREAM \<and> ds_count t \<le> MAX_DOWNSTREAM \<and>
     distinct (map de_key (ds_live t))"

interpretation downstream: keyed_table ds_inv ds_live de_key
  by unfold_locales (simp add: ds_inv_def)

definition ds_lookup :: "downstream_table \<Rightarrow> u32 \<times> u32 \<Rightarrow> downstream_entry option" where
  "ds_lookup t k = lookup_key de_key k (ds_live t)"

lemmas ds_lookup_Some_iff = downstream.lookup_Some_iff [folded ds_lookup_def]
lemmas ds_lookup_None_iff = downstream.lookup_None_iff [folded ds_lookup_def]
lemmas ds_lookup_restrict = downstream.lookup_restrict [folded ds_lookup_def]
lemmas ds_lookup_update = downstream.lookup_update [folded ds_lookup_def]
lemmas ds_lookup_snoc = downstream.lookup_snoc [folded ds_lookup_def]

lemma ds_new_inv: "ds_inv ds_new"
  by (simp add: ds_inv_def ds_new_def ds_live_def)

lemma length_ds_live: "ds_inv t \<Longrightarrow> length (ds_live t) = ds_count t"
  by (simp add: ds_live_def ds_inv_def)

lemma ds_live_nth: "ds_inv t \<Longrightarrow> i < ds_count t \<Longrightarrow> ds_live t ! i = ds_entries t ! i"
  by (simp add: ds_live_def)

subsection \<open>Removing entries\<close>

lemma ds_remove_where_effect:
  assumes "ds_inv t"
  shows "ds_inv (ds_remove_where drp t)"
    "set (ds_live (ds_remove_where drp t)) = {e \<in> set (ds_live t). \<not> drp e}"
    "ds_count (ds_remove_where drp t) = length (filter (\<lambda>e. \<not> drp e) (ds_live t))"
proof -
  obtain es n where sp: "swap_prune drp (ds_entries t) (ds_count t) 0 = (es, n)"
    by (cases "swap_prune drp (ds_entries t) (ds_count t) 0")
  have cnt: "ds_count t \<le> length (ds_entries t)" using assms by (simp add: ds_inv_def)
  note ms = swap_prune_mset [OF cnt sp]
  show inv: "ds_inv (ds_remove_where drp t)"
    using assms ms(2,3) swap_prune_distinct [OF cnt sp, of de_key]
    by (simp add: ds_inv_def ds_live_def ds_remove_where_def sp)
  show "set (ds_live (ds_remove_where drp t)) = {e \<in> set (ds_live t). \<not> drp e}"
    using swap_prune_set [OF cnt sp] by (simp add: ds_live_def ds_remove_where_def sp)
  have "mset (ds_live (ds_remove_where drp t)) = mset (filter (\<lambda>e. \<not> drp e) (ds_live t))"
    using ms(1) by (simp add: ds_live_def ds_remove_where_def sp)
  then have "length (ds_live (ds_remove_where drp t)) = length (filter (\<lambda>e. \<not> drp e) (ds_live t))"
    by (rule mset_eq_length)
  then show "ds_count (ds_remove_where drp t) = length (filter (\<lambda>e. \<not> drp e) (ds_live t))"
    using length_ds_live [OF inv] by simp
qed

lemma ds_remove_where_lookup:
  assumes "ds_inv t"
  shows "ds_lookup (ds_remove_where drp t) k =
    (case ds_lookup t k of None \<Rightarrow> None | Some e \<Rightarrow> if \<not> drp e then Some e else None)"
  using ds_lookup_restrict [OF assms ds_remove_where_effect(1,2) [OF assms]] by blast

subsection \<open>Inserting an entry\<close>

lemma oldest_entry_loop_spec:
  assumes "best < length pre" "age = now - de_last_update_ms (pre ! best)"
    "\<forall>e \<in> set pre. now - de_last_update_ms e \<le> age"
  shows "let b = oldest_entry_loop now es (length pre) best age in b < length (pre @ es) \<and>
    (\<forall>e \<in> set (pre @ es). now - de_last_update_ms e \<le> now - de_last_update_ms ((pre @ es) ! b))"
  using assms
proof (induction es arbitrary: pre best age)
  case (Cons e es)
  define a where "a = now - de_last_update_ms e"
  show ?case
  proof (cases "age < a")
    case True
    have "\<forall>x \<in> set (pre @ [e]). now - de_last_update_ms x \<le> a"
      using Cons.prems(3) True by (auto simp: a_def)
    then have "let b = oldest_entry_loop now es (length (pre @ [e])) (length pre) a in
        b < length ((pre @ [e]) @ es) \<and> (\<forall>x \<in> set ((pre @ [e]) @ es).
          now - de_last_update_ms x \<le> now - de_last_update_ms (((pre @ [e]) @ es) ! b))"
      by (intro Cons.IH) (auto simp: a_def nth_append)
    then show ?thesis using True by (simp add: a_def)
  next
    case False
    then have "let b = oldest_entry_loop now es (length (pre @ [e])) best age in
        b < length ((pre @ [e]) @ es) \<and> (\<forall>x \<in> set ((pre @ [e]) @ es).
          now - de_last_update_ms x \<le> now - de_last_update_ms (((pre @ [e]) @ es) ! b))"
      using Cons.prems by (intro Cons.IH) (auto simp: a_def nth_append)
    then show ?thesis using False by (simp add: a_def)
  qed
qed (auto simp: Let_def)

lemma ds_position_None:
  "position (\<lambda>e. de_destination e = d \<and> de_relay e = r) (ds_live t) = None \<longleftrightarrow>
   ds_lookup t (d, r) = None"
  by (auto simp: position_None_iff find_None_iff ds_lookup_def)

lemma ds_position_Some:
  assumes "ds_inv t" "position (\<lambda>e. de_destination e = d \<and> de_relay e = r) (ds_live t) = Some i"
  shows "i < ds_count t" "de_key (ds_entries t ! i) = (d, r)" "ds_lookup t (d, r) = Some (ds_entries t ! i)"
proof -
  have i: "i < length (ds_live t)" "de_key (ds_live t ! i) = (d, r)"
    using position_SomeD [OF assms(2)] by auto
  then show "i < ds_count t" "de_key (ds_entries t ! i) = (d, r)"
    using length_ds_live [OF assms(1)] ds_live_nth [OF assms(1)] by auto
  then show "ds_lookup t (d, r) = Some (ds_entries t ! i)"
    using assms(2) ds_live_nth [OF assms(1)] by (simp add: find_position ds_lookup_def)
qed

lemma ds_set_effect:
  assumes "ds_inv t" "i < ds_count t"
    "\<And>j. j < ds_count t \<Longrightarrow> j \<noteq> i \<Longrightarrow> de_key (ds_entries t ! j) \<noteq> de_key e"
  defines "u \<equiv> t\<lparr>ds_entries := (ds_entries t)[i := e]\<rparr>"
  shows "ds_inv u" "ds_lookup u k = (if k = de_key e then Some e
      else if k = de_key (ds_entries t ! i) then None else ds_lookup t k)"
proof -
  have live: "ds_live u = (ds_live t)[i := e]" by (simp add: u_def ds_live_def table_simps)
  have "distinct (map de_key ((ds_live t)[i := e]))"
    using assms(1,3) by (intro distinct_map_update)
      (auto simp: ds_inv_def length_ds_live [OF assms(1)] ds_live_nth [OF assms(1)])
  then show inv: "ds_inv u" using assms(1) live by (simp add: ds_inv_def u_def)
  show "ds_lookup u k = (if k = de_key e then Some e
      else if k = de_key (ds_entries t ! i) then None else ds_lookup t k)"
    using ds_lookup_update [OF assms(1) inv live, of k] assms(2)
      length_ds_live [OF assms(1)] ds_live_nth [OF assms(1,2)] by simp
qed

definition ds_fresh :: "downstream_table \<Rightarrow> u32 \<Rightarrow> u32 \<Rightarrow> u16 \<Rightarrow> u8 \<Rightarrow> u32 \<Rightarrow> bool \<Rightarrow> downstream_entry" where
  "ds_fresh t d r c via now learned =
     \<lparr>de_destination = d, de_relay = r, de_via_radio = via, de_cost_fixed = c,
      de_last_update_ms = now, de_list_learned = learned \<or>
        (case ds_lookup t (d, r) of None \<Rightarrow> False | Some e \<Rightarrow> de_list_learned e)\<rparr>"

lemma upsert_room:
  assumes "ds_inv t" "ds_lookup t (d, r) \<noteq> None \<or> ds_count t < MAX_DOWNSTREAM"
  assumes u_def: "u = upsert_entry t d r c via now learned"
  shows "ds_inv u" "ds_lookup u k = (if k = (d, r) then Some (ds_fresh t d r c via now learned)
      else ds_lookup t k)"
    "ds_count u = (if ds_lookup t (d, r) = None then ds_count t + 1 else ds_count t)"
    "j < ds_count t \<Longrightarrow> de_key (ds_entries t ! j) \<noteq> (d, r) \<Longrightarrow> ds_entries u ! j = ds_entries t ! j"
    "j < ds_count t \<Longrightarrow> de_relay (ds_entries u ! j) = de_relay (ds_entries t ! j)"
proof -
  let ?new = "ds_fresh t d r c via now learned"
  have "ds_inv u \<and> ds_lookup u k = (if k = (d, r) then Some ?new else ds_lookup t k) \<and>
    ds_count u = (if ds_lookup t (d, r) = None then ds_count t + 1 else ds_count t) \<and>
    (j < ds_count t \<longrightarrow> (de_key (ds_entries t ! j) \<noteq> (d, r) \<longrightarrow> ds_entries u ! j = ds_entries t ! j) \<and>
      de_relay (ds_entries u ! j) = de_relay (ds_entries t ! j))" for j k
  proof (cases "position (\<lambda>e. de_destination e = d \<and> de_relay e = r) (ds_live t)")
    case (Some i)
    note i = ds_position_Some [OF assms(1) Some]
    have u: "u = t\<lparr>ds_entries := (ds_entries t)[i := ?new]\<rparr>"
      using Some i by (cases "ds_entries t ! i") (simp add: u_def upsert_entry_def Let_def ds_fresh_def)
    have len: "i < length (ds_entries t)" using i(1) assms(1) by (simp add: ds_inv_def)
    have key: "de_key ?new = (d, r)" by (simp add: ds_fresh_def)
    have other: "de_key (ds_entries t ! j) \<noteq> de_key ?new" if "j < ds_count t" "j \<noteq> i" for j
      using that i(1,2) nth_eq_iff_index_eq [of "map de_key (ds_live t)" j i] assms(1) key
        length_ds_live [OF assms(1)] ds_live_nth [OF assms(1)]
      by (simp add: ds_inv_def)
    show ?thesis
      using ds_set_effect [OF assms(1) i(1) other] i key len
      by (cases "j = i") (auto simp: u ds_fresh_def)
  next
    case None
    then have abs: "ds_lookup t (d, r) = None" by (simp only: ds_position_None)
    then have n: "ds_count t < MAX_DOWNSTREAM" using assms(2) by simp
    have new: "?new = \<lparr>de_destination = d, de_relay = r, de_via_radio = via, de_cost_fixed = c,
        de_last_update_ms = now, de_list_learned = learned\<rparr>"
      using abs by (simp add: ds_fresh_def)
    have u: "u = t\<lparr>ds_entries := (ds_entries t)[ds_count t := ?new], ds_count := ds_count t + 1\<rparr>"
      using None n by (simp add: u_def upsert_entry_def Let_def new)
    have live: "ds_live u = ds_live t @ [?new]"
      using n assms(1) by (simp add: u ds_live_def ds_inv_def take_snoc_update)
    have fresh: "de_key ?new \<notin> de_key ` set (ds_live t)"
      using abs ds_lookup_None_iff [of t "(d, r)"] by (simp add: new)
    have "ds_inv u" using assms(1) n fresh live by (auto simp: ds_inv_def u)
    then show ?thesis
      using ds_lookup_snoc [of u t ?new, OF live fresh] abs by (simp add: u new)
  qed
  then show "ds_inv u" "ds_lookup u k = (if k = (d, r) then Some ?new else ds_lookup t k)"
    "ds_count u = (if ds_lookup t (d, r) = None then ds_count t + 1 else ds_count t)"
    "j < ds_count t \<Longrightarrow> de_key (ds_entries t ! j) \<noteq> (d, r) \<Longrightarrow> ds_entries u ! j = ds_entries t ! j"
    "j < ds_count t \<Longrightarrow> de_relay (ds_entries u ! j) = de_relay (ds_entries t ! j)"
    by blast+
qed

lemma upsert_full:
  assumes "ds_inv t" "ds_lookup t (d, r) = None" "ds_count t = MAX_DOWNSTREAM"
  assumes u_def: "u = upsert_entry t d r c via now learned"
  shows "ds_inv u \<and> (\<exists>v \<in> set (ds_live t).
    (\<forall>e \<in> set (ds_live t). now - de_last_update_ms e \<le> now - de_last_update_ms v) \<and>
    (\<forall>k. ds_lookup u k = (if k = (d, r) then Some (ds_fresh t d r c via now learned)
       else if k = de_key v then None else ds_lookup t k)))"
proof -
  let ?new = "ds_fresh t d r c via now learned"
  have live: "ds_live t = ds_entries t" using assms(1,3) by (simp add: ds_live_def ds_inv_def)
  have ne: "ds_entries t \<noteq> []" using assms(1) by (auto simp: ds_inv_def MAX_DOWNSTREAM_def)
  then have split: "[ds_entries t ! 0] @ tl (ds_entries t) = ds_entries t"
    by (cases "ds_entries t") auto
  define b where "b = oldest_entry_loop now (tl (ds_entries t)) 1 0
      (now - de_last_update_ms (ds_entries t ! 0))"
  have b: "b < length (ds_entries t)"
    "\<forall>e \<in> set (ds_entries t). now - de_last_update_ms e \<le> now - de_last_update_ms (ds_entries t ! b)"
    using oldest_entry_loop_spec [of 0 "[ds_entries t ! 0]" _ now "tl (ds_entries t)"]
    unfolding split by (simp_all add: b_def Let_def)
  have pos: "position (\<lambda>e. de_destination e = d \<and> de_relay e = r) (ds_live t) = None"
    using assms(2) by (simp only: ds_position_None)
  have u: "u = t\<lparr>ds_entries := (ds_entries t)[b := ?new]\<rparr>"
    using pos assms(2,3) by (simp add: u_def upsert_entry_def Let_def b_def live ds_fresh_def)
  have bc: "b < ds_count t" using b(1) assms(1,3) by (simp add: ds_inv_def)
  have other: "de_key (ds_entries t ! j) \<noteq> de_key ?new" if "j < ds_count t" for j
    using assms(1,2) that ds_lookup_None_iff [of t "(d, r)"]
    by (auto simp: live ds_fresh_def ds_inv_def)
  note eff = ds_set_effect [OF assms(1) bc other]
  have "ds_entries t ! b \<in> set (ds_live t)" using b(1) by (simp add: live)
  moreover have "ds_lookup u k = (if k = (d, r) then Some ?new
      else if k = de_key (ds_entries t ! b) then None else ds_lookup t k)" for k
    using eff(2) [of k] by (simp add: u ds_fresh_def)
  moreover have "ds_inv u" using eff(1) by (simp add: u)
  ultimately show ?thesis using b(2) live by (intro conjI bexI [of _ "ds_entries t ! b"]) simp_all
qed

lemma upsert_inv: "ds_inv t \<Longrightarrow> ds_inv (upsert_entry t d r c via now learned)"
  using upsert_room(1) [OF _ _ refl, of t d r c via now learned]
    upsert_full [OF _ _ _ refl, of t d r c via now learned]
  by (cases "ds_lookup t (d, r) \<noteq> None \<or> ds_count t < MAX_DOWNSTREAM") (auto simp: ds_inv_def)

subsection \<open>The cheapest relay\<close>

lemma best_loop_spec:
  "best_loop skip es br bc = (r, c) \<Longrightarrow> c \<le> bc \<and> (\<forall>e \<in> set es. \<not> skip e \<longrightarrow> c \<le> de_cost_fixed e) \<and>
   (r = br \<and> c = bc \<or>
    (\<exists>e \<in> set es. \<not> skip e \<and> r = Some (de_relay e) \<and> c = de_cost_fixed e \<and> c < bc))"
proof (induction skip es br bc rule: best_loop.induct)
  case (2 skip e es br bc)
  consider "skip e" | "\<not> skip e" "de_cost_fixed e < bc" | "\<not> skip e" "bc \<le> de_cost_fixed e"
    by fastforce
  then show ?case
  proof cases
    case 1
    then show ?thesis using 2 by auto
  next
    case c: 2
    with "2.prems" have "best_loop skip es (Some (de_relay e)) (de_cost_fixed e) = (r, c)" by simp
    with "2.IH"(2) [OF c] c show ?thesis by (auto intro: order.trans dest: order.strict_trans1)
  next
    case c: 3
    then have "\<not> de_cost_fixed e < bc" by simp
    with c(1) "2.prems" have "best_loop skip es br bc = (r, c)" by simp
    with "2.IH"(3) [OF c(1)] c show ?thesis by (auto simp: not_less intro: order.trans)
  qed
qed simp

text \<open>Where the result of the scan stands: it is the first of the cheapest.\<close>

definition first_cheapest :: "(downstream_entry \<Rightarrow> bool) \<Rightarrow> downstream_entry list \<Rightarrow> downstream_entry list \<Rightarrow>
    downstream_entry \<Rightarrow> bool" where
  "first_cheapest ok es xs e \<longleftrightarrow> ok e \<and> (\<exists>ys. es = xs @ e # ys) \<and>
     (\<forall>e' \<in> set es. ok e' \<longrightarrow> de_cost_fixed e \<le> de_cost_fixed e') \<and>
     (\<forall>e' \<in> set xs. ok e' \<longrightarrow> de_cost_fixed e < de_cost_fixed e')"

lemma first_cheapest_iff:
  "first_cheapest ok es xs e \<longleftrightarrow> (\<exists>ys. es = xs @ e # ys) \<and> e \<in> {e \<in> set es. ok e} \<and>
     (\<forall>e' \<in> {e \<in> set es. ok e}. de_cost_fixed e \<le> de_cost_fixed e' \<and> (e' \<in> set xs \<longrightarrow> de_cost_fixed e < de_cost_fixed e'))"
  by (auto simp: first_cheapest_def)

lemma first_cheapest_unique:
  assumes "first_cheapest ok es xs e" "first_cheapest ok es xs' e'"
  shows "e = e'"
proof -
  have pos: "xs ! n \<in> set xs \<and> es ! n = xs ! n" if "n < length xs" "\<exists>ys. es = xs @ e # ys" for n xs e
    using that by (auto simp: nth_append)
  have e: "es ! length xs = e" "es ! length xs' = e'" using assms by (metis nth_append_length first_cheapest_def)+
  have "\<not> length xs' < length xs" "\<not> length xs < length xs'"
    using assms e pos [of "length xs'" xs e] pos [of "length xs" xs' e'] unfolding first_cheapest_def
    by (metis in_set_conv_decomp leD)+
  then show ?thesis using e by (metis linorder_neqE_nat)
qed

lemma best_loop_first:
  "best_loop skip es br bc = (r, c) \<Longrightarrow>
   (r = br \<and> c = bc \<and> (\<forall>e \<in> set es. \<not> skip e \<longrightarrow> bc \<le> de_cost_fixed e)) \<or>
   (\<exists>xs e. first_cheapest (\<lambda>e. \<not> skip e) es xs e \<and> r = Some (de_relay e) \<and> c = de_cost_fixed e \<and> c < bc)"
proof (induction skip es br bc rule: best_loop.induct)
  case (2 skip e es br bc)
  have cons: "first_cheapest (\<lambda>e. \<not> skip e) (e # es) (e # xs) e'"
    if "first_cheapest (\<lambda>e. \<not> skip e) es xs e'" "skip e \<or> de_cost_fixed e' < de_cost_fixed e" for xs e'
    using that by (auto simp: first_cheapest_def less_imp_le)
  consider "skip e" | "\<not> skip e" "de_cost_fixed e < bc" | "\<not> skip e" "\<not> de_cost_fixed e < bc" by blast
  then show ?case
  proof cases
    case 1
    then show ?thesis using 2(1) [OF 1] "2.prems" cons by auto
  next
    case c: 2
    with "2.prems" have "best_loop skip es (Some (de_relay e)) (de_cost_fixed e) = (r, c)" by simp
    from "2.IH"(2) [OF c this] show ?thesis
    proof (elim disjE conjE exE)
      assume "r = Some (de_relay e)" "c = de_cost_fixed e" "\<forall>e' \<in> set es. \<not> skip e' \<longrightarrow> de_cost_fixed e \<le> de_cost_fixed e'"
      then show ?thesis using c by (intro disjI2 exI [of _ "[]"] exI [of _ e]) (auto simp: first_cheapest_def)
    next
      fix xs e'
      assume "first_cheapest (\<lambda>e. \<not> skip e) es xs e'" "r = Some (de_relay e')" "c = de_cost_fixed e'" "c < de_cost_fixed e"
      then show ?thesis using cons [of xs e'] c by (intro disjI2 exI [of _ "e # xs"] exI [of _ e']) auto
    qed
  next
    case c: 3
    with "2.prems" have "best_loop skip es br bc = (r, c)" by simp
    from "2.IH"(3) [OF c this] show ?thesis
    proof (elim disjE conjE exE)
      fix xs e'
      assume "first_cheapest (\<lambda>e. \<not> skip e) es xs e'" "r = Some (de_relay e')" "c = de_cost_fixed e'" "c < bc"
      then show ?thesis using cons [of xs e'] c by (intro disjI2 exI [of _ "e # xs"] exI [of _ e']) auto
    qed (use c in auto)
  qed
qed simp

definition ds_offers :: "downstream_table \<Rightarrow> u32 \<Rightarrow> u32 \<Rightarrow> u32 \<Rightarrow> downstream_entry set" where
  "ds_offers t d now ttl =
     {e \<in> set (ds_live t). de_destination e = d \<and> now - de_last_update_ms e < ttl}"

lemma relay_and_cost_cases:
  "(relay_and_cost t d now ttl = None \<and> (\<forall>e \<in> ds_offers t d now ttl. de_cost_fixed e = - 1)) \<or>
   (\<exists>e \<in> ds_offers t d now ttl. relay_and_cost t d now ttl = Some (de_relay e, de_cost_fixed e) \<and>
      de_cost_fixed e < - 1 \<and> (\<forall>e' \<in> ds_offers t d now ttl. de_cost_fixed e \<le> de_cost_fixed e'))"
proof -
  let ?skip = "\<lambda>e. de_destination e \<noteq> d \<or> ttl \<le> now - de_last_update_ms e"
  obtain r c where b: "best_loop ?skip (ds_live t) None (- 1) = (r, c)" by fastforce
  note bs = best_loop_spec [OF b]
  have off: "e \<in> ds_offers t d now ttl \<longleftrightarrow> e \<in> set (ds_live t) \<and> \<not> ?skip e" for e
    by (auto simp: ds_offers_def not_le)
  have rc: "relay_and_cost t d now ttl = map_option (\<lambda>relay. (relay, c)) r"
    unfolding relay_and_cost_def b by simp
  from bs consider "r = None" "c = - 1"
    | e where "e \<in> set (ds_live t)" "\<not> ?skip e" "r = Some (de_relay e)" "c = de_cost_fixed e" "c < - 1"
    by blast
  then show ?thesis
  proof cases
    case 1
    then have "\<forall>e \<in> ds_offers t d now ttl. de_cost_fixed e = - 1"
      using bs off by (metis word_order.extremum_unique)
    with 1 rc show ?thesis by simp
  next
    case (2 e)
    then have "\<forall>e' \<in> ds_offers t d now ttl. de_cost_fixed e \<le> de_cost_fixed e'"
      using bs off by metis
    with 2 rc off [of e] show ?thesis by (intro disjI2 bexI [of _ e]) simp_all
  qed
qed

subsection \<open>Chains of relays\<close>

text \<open>The relays a chain visits from a node, each the cheapest for the one before.\<close>

fun follows :: "downstream_table \<Rightarrow> u32 \<Rightarrow> u32 \<Rightarrow> u32 \<Rightarrow> (u32 \<times> u16) list \<Rightarrow> bool" where
  "follows t now ttl cur [] \<longleftrightarrow> True"
| "follows t now ttl cur ((r, c) # ps) \<longleftrightarrow>
     relay_and_cost t cur now ttl = Some (r, c) \<and> r \<noteq> 0 \<and> r \<noteq> cur \<and> follows t now ttl r ps"

definition chain_result :: "nat \<Rightarrow> u16 \<Rightarrow> (u32 \<times> u16) list \<Rightarrow> chain_egress" where
  "chain_result h cost ps = \<lparr>ce_node = fst (last ps), ce_hops = h + length ps,
     ce_cost_fixed = foldl sat_add cost (map snd ps)\<rparr>"

definition chain_ok :: "(u32 \<Rightarrow> bool) \<Rightarrow> u32 list \<Rightarrow> (u32 \<times> u16) list \<Rightarrow> bool" where
  "chain_ok eg seen ps \<longleftrightarrow> ps \<noteq> [] \<and> length seen + length ps \<le> MAX_DOWNSTREAM_CHAIN \<and>
     distinct (map fst ps) \<and> set (map fst ps) \<inter> set seen = {} \<and>
     eg (fst (last ps)) \<and> (\<forall>p \<in> set (butlast ps). \<not> eg (fst p))"

lemma chain_ok_Cons:
  "chain_ok eg seen ((r, c) # ps) \<longleftrightarrow>
     length seen < MAX_DOWNSTREAM_CHAIN \<and> r \<notin> set seen \<and>
     (if eg r then ps = [] else chain_ok eg (seen @ [r]) ps)"
  by (cases ps) (auto simp: chain_ok_def)

lemma chain_loop_iff:
  "chain_loop t now ttl eg cur seen cost = Some ce \<longleftrightarrow>
   (\<exists>ps. chain_ok eg seen ps \<and> follows t now ttl cur ps \<and> ce = chain_result (length seen) cost ps)"
proof (induction t now ttl eg cur seen cost rule: chain_loop.induct)
  case (1 t now ttl eg cur seen cost)
  show ?case
  proof (cases "length seen < MAX_DOWNSTREAM_CHAIN \<and>
      (\<exists>r c. relay_and_cost t cur now ttl = Some (r, c) \<and> r \<noteq> 0 \<and> r \<noteq> cur \<and> r \<notin> set seen)")
    case False
    have "chain_loop t now ttl eg cur seen cost = None"
      using False by (subst chain_loop.simps) (auto split: option.splits)
    moreover have "\<not> (chain_ok eg seen ps \<and> follows t now ttl cur ps)" for ps
    proof (cases ps)
      case Nil
      then show ?thesis by (simp add: chain_ok_def)
    next
      case (Cons p qs)
      with False show ?thesis by (cases p) (auto simp: chain_ok_Cons)
    qed
    ultimately show ?thesis by (metis option.distinct(1))
  next
    case True
    then obtain r c where rc: "length seen < MAX_DOWNSTREAM_CHAIN"
      "relay_and_cost t cur now ttl = Some (r, c)" "r \<noteq> 0" "r \<noteq> cur" "r \<notin> set seen" by blast
    have step: "chain_loop t now ttl eg cur seen cost =
        (if eg r then Some (chain_result (length seen) cost [(r, c)])
         else chain_loop t now ttl eg r (seen @ [r]) (sat_add cost c))"
      using rc by (subst chain_loop.simps) (simp add: Let_def chain_result_def)
    have heads: "(\<exists>ps. chain_ok eg seen ps \<and> follows t now ttl cur ps \<and> Q ps) \<longleftrightarrow>
        (\<exists>qs. chain_ok eg seen ((r, c) # qs) \<and> follows t now ttl r qs \<and> Q ((r, c) # qs))" for Q
    proof
      assume "\<exists>ps. chain_ok eg seen ps \<and> follows t now ttl cur ps \<and> Q ps"
      then obtain ps where ps: "chain_ok eg seen ps" "follows t now ttl cur ps" "Q ps" by blast
      then obtain p qs where "ps = p # qs" by (cases ps) (auto simp: chain_ok_def)
      with ps rc(2) show "\<exists>qs. chain_ok eg seen ((r, c) # qs) \<and> follows t now ttl r qs \<and> Q ((r, c) # qs)"
        by (cases p) auto
    qed (use rc in auto)
    show ?thesis
    proof (cases "eg r")
      case True
      then show ?thesis using step rc by (auto simp: heads chain_ok_Cons)
    next
      case False
      have IH: "chain_loop t now ttl eg r (seen @ [r]) (sat_add cost c) = Some ce \<longleftrightarrow>
          (\<exists>qs. chain_ok eg (seen @ [r]) qs \<and> follows t now ttl r qs \<and>
            ce = chain_result (length (seen @ [r])) (sat_add cost c) qs)"
        using "1.IH" [of "(r, c)" r c "seen @ [r]" "sat_add cost c"] rc False by simp
      have res: "chain_ok eg (seen @ [r]) qs \<Longrightarrow> chain_result (length seen) cost ((r, c) # qs) =
          chain_result (length (seen @ [r])) (sat_add cost c) qs" for qs
        by (auto simp: chain_result_def chain_ok_def)
      show ?thesis
        using step IH False rc by (auto simp: heads chain_ok_Cons res)
    qed
  qed
qed

subsection \<open>Handing a relay's destinations to another\<close>

text \<open>
  While there is room, the loop has moved the entries it has passed and left every entry of the
  old relay as it was.
\<close>

definition moved_entry :: "downstream_table \<Rightarrow> u32 \<Rightarrow> u32 \<Rightarrow> downstream_entry \<Rightarrow> downstream_entry" where
  "moved_entry t new_relay now e =
     ds_fresh t (de_destination e) new_relay (de_cost_fixed e) (de_via_radio e) now (de_list_learned e)"

definition transferred ::
  "u32 \<Rightarrow> u32 \<Rightarrow> u32 \<Rightarrow> downstream_table \<Rightarrow> nat \<Rightarrow> downstream_table \<Rightarrow> bool" where
  "transferred old_relay new_relay now t n u \<longleftrightarrow> ds_inv u \<and>
     ds_count u \<le> ds_count t + length (filter (\<lambda>e. de_relay e = old_relay) (take n (ds_live t))) \<and>
     ds_count t \<le> ds_count u \<and>
     (\<forall>j < ds_count t. de_relay (ds_entries u ! j) = de_relay (ds_entries t ! j) \<and>
        (de_relay (ds_entries t ! j) = old_relay \<longrightarrow> ds_entries u ! j = ds_entries t ! j)) \<and>
     (\<forall>d r. ds_lookup u (d, r) =
        (case find (\<lambda>e. de_key e = (d, old_relay)) (take n (ds_live t)) of
           Some e \<Rightarrow> if r = new_relay then Some (moved_entry t new_relay now e) else ds_lookup t (d, r)
         | None \<Rightarrow> ds_lookup t (d, r)))"

lemma find_snoc: "find P (xs @ [e]) =
    (case find P xs of None \<Rightarrow> if P e then Some e else None | Some y \<Rightarrow> Some y)"
  by (induction xs) auto

lemma transferred_step:
  assumes "ds_inv t" "old_relay \<noteq> new_relay" "n < ds_count t" "transferred old_relay new_relay now t n u"
    "ds_count t + length (filter (\<lambda>e. de_relay e = old_relay) (ds_live t)) \<le> MAX_DOWNSTREAM"
    "e = ds_entries u ! n"
  shows "transferred old_relay new_relay now t (Suc n)
    (if de_relay e \<noteq> old_relay then u
     else upsert_entry u (de_destination e) new_relay (de_cost_fixed e) (de_via_radio e) now
       (de_list_learned e))"
proof -
  let ?old = "\<lambda>e. de_relay e = old_relay"
  have n: "n < length (ds_live t)" "ds_live t ! n = ds_entries t ! n"
    using assms(3) length_ds_live [OF assms(1)] ds_live_nth [OF assms(1,3)] by simp_all
  have snoc: "take (Suc n) (ds_live t) = take n (ds_live t) @ [ds_entries t ! n]"
    using n by (simp add: take_Suc_conv_app_nth)
  have tr: "ds_inv u" "ds_count u \<le> ds_count t + length (filter ?old (take n (ds_live t)))"
    "ds_count t \<le> ds_count u"
    "\<And>j. j < ds_count t \<Longrightarrow> de_relay (ds_entries u ! j) = de_relay (ds_entries t ! j)"
    "\<And>j. j < ds_count t \<Longrightarrow> de_relay (ds_entries t ! j) = old_relay \<Longrightarrow> ds_entries u ! j = ds_entries t ! j"
    using assms(4) by (auto simp: transferred_def)
  have lk: "ds_lookup u (d, r) =
      (case find (\<lambda>e. de_key e = (d, old_relay)) (take n (ds_live t)) of
         Some e \<Rightarrow> if r = new_relay then Some (moved_entry t new_relay now e) else ds_lookup t (d, r)
       | None \<Rightarrow> ds_lookup t (d, r))" for d r
    using assms(4) unfolding transferred_def by blast
  show ?thesis
  proof (cases "de_relay e = old_relay")
    case False
    then have "de_relay (ds_entries t ! n) \<noteq> old_relay" using tr(4) [OF assms(3)] assms(6) by simp
    with False assms(4) show ?thesis by (auto simp: transferred_def snoc find_snoc split: option.splits)
  next
    case True
    have e: "e = ds_entries t ! n" using True tr(4,5) [OF assms(3)] assms(6) by simp
    let ?u = "upsert_entry u (de_destination e) new_relay (de_cost_fixed e) (de_via_radio e) now
       (de_list_learned e)"
    have "length (filter ?old (take n (ds_live t))) < length (filter ?old (ds_live t))"
    proof -
      have "filter ?old (ds_live t) =
          filter ?old (take (Suc n) (ds_live t)) @ filter ?old (drop (Suc n) (ds_live t))"
        by (metis append_take_drop_id filter_append)
      also have "filter ?old (take (Suc n) (ds_live t)) = filter ?old (take n (ds_live t)) @ [e]"
        using True e unfolding snoc by simp
      finally have "length (filter ?old (ds_live t)) = length (filter ?old (take n (ds_live t)))
          + 1 + length (filter ?old (drop (Suc n) (ds_live t)))" by simp
      then show ?thesis by simp
    qed
    then have room: "ds_count u < MAX_DOWNSTREAM" using tr(2) assms(5) by simp
    note up = upsert_room [OF tr(1) disjI2 [OF room] refl, where d = "de_destination e"
        and r = new_relay and c = "de_cost_fixed e" and via = "de_via_radio e" and now = now
        and learned = "de_list_learned e"]
    have "e \<in> set (ds_live t)" using e n by (metis nth_mem)
    have first: "find (\<lambda>x. de_key x = (de_destination e, old_relay)) (take n (ds_live t)) = None"
    proof -
      have "de_key (ds_live t ! j) \<noteq> de_key (ds_live t ! n)" if "j < n" for j
        using that n assms(1) nth_eq_iff_index_eq [of "map de_key (ds_live t)" j n]
        by (simp add: ds_inv_def)
      then show ?thesis using True e n by (auto simp: find_None_iff in_set_conv_nth)
    qed
    have fresh: "ds_fresh u (de_destination e) new_relay (de_cost_fixed e) (de_via_radio e) now
        (de_list_learned e) = moved_entry t new_relay now e"
      using lk [of "de_destination e" new_relay] first by (simp add: moved_entry_def ds_fresh_def)
    have "de_key (ds_entries u ! j) \<noteq> (de_destination e, new_relay)" if "j < ds_count t"
      "de_relay (ds_entries t ! j) = old_relay" for j
      using tr(4) [OF that(1)] that(2) assms(2) by auto
    then have keep: "\<forall>j < ds_count t. de_relay (ds_entries ?u ! j) = de_relay (ds_entries t ! j) \<and>
        (de_relay (ds_entries t ! j) = old_relay \<longrightarrow> ds_entries ?u ! j = ds_entries t ! j)"
      using up(4,5) tr(3-5) by (metis order_less_le_trans)
    have cnt: "ds_count ?u \<le> ds_count t + length (filter ?old (take (Suc n) (ds_live t)))"
      "ds_count t \<le> ds_count ?u"
      using up(3) tr(2,3) True e unfolding snoc by auto
    have "ds_lookup ?u (d, r) =
        (case find (\<lambda>e. de_key e = (d, old_relay)) (take (Suc n) (ds_live t)) of
           Some e \<Rightarrow> if r = new_relay then Some (moved_entry t new_relay now e) else ds_lookup t (d, r)
         | None \<Rightarrow> ds_lookup t (d, r))" for d r
    proof (cases "d = de_destination e")
      case d: True
      have "find (\<lambda>x. de_key x = (d, old_relay)) (take (Suc n) (ds_live t)) = Some e"
        using first True d e unfolding snoc find_snoc by simp
      then show ?thesis
        using up(2) [of "(d, r)"] lk [of d r] first d by (simp add: fresh)
    next
      case d: False
      then have "find (\<lambda>x. de_key x = (d, old_relay)) (take (Suc n) (ds_live t)) =
          find (\<lambda>x. de_key x = (d, old_relay)) (take n (ds_live t))"
        using e unfolding snoc find_snoc by (auto split: option.splits)
      then show ?thesis using up(2) [of "(d, r)"] lk [of d r] d by simp
    qed
    with True keep cnt up(1) show ?thesis unfolding transferred_def by simp
  qed
qed

lemma transfer_loop_transferred:
  assumes "ds_inv t" "old_relay \<noteq> new_relay" "n \<le> ds_count t"
    "ds_count t + length (filter (\<lambda>e. de_relay e = old_relay) (ds_live t)) \<le> MAX_DOWNSTREAM"
    "transferred old_relay new_relay now t n u"
  shows "transferred old_relay new_relay now t (ds_count t)
    (fst (transfer_loop old_relay new_relay now [n..<ds_count t] u moved))"
  using assms(3,5)
proof (induction "ds_count t - n" arbitrary: n u moved)
  case (Suc k)
  then have n: "n < ds_count t" by simp
  then have up: "[n..<ds_count t] = n # [Suc n..<ds_count t]" by (simp add: upt_conv_Cons)
  note step = transferred_step [OF assms(1,2) n Suc.prems(2) assms(4) refl]
  have IH: "transferred old_relay new_relay now t (ds_count t)
      (fst (transfer_loop old_relay new_relay now [Suc n..<ds_count t] w m))"
    if "transferred old_relay new_relay now t (Suc n) w" for w m
    using Suc.hyps(2) n that by (intro Suc.hyps(1)) simp_all
  show ?case
    using IH [OF step, of moved] IH [OF step, of "moved + 1"]
    by (cases "de_relay (ds_entries u ! n) = old_relay") (simp_all add: up Let_def)
qed simp

lemma transfer_lookup:
  assumes "ds_inv t" "old_relay \<noteq> 0" "new_relay \<noteq> 0" "old_relay \<noteq> new_relay"
    "ds_count t + length (filter (\<lambda>e. de_relay e = old_relay) (ds_live t)) \<le> MAX_DOWNSTREAM"
  shows "ds_inv (fst (transfer_downstream t old_relay new_relay now))" (is "ds_inv ?u")
    "ds_lookup (fst (transfer_downstream t old_relay new_relay now)) (d, r) =
      (if r = old_relay then None
       else if r = new_relay then
         (case ds_lookup t (d, old_relay) of
            Some e \<Rightarrow> Some (moved_entry t new_relay now e)
          | None \<Rightarrow> ds_lookup t (d, new_relay))
       else ds_lookup t (d, r))"
proof -
  define w where "w = fst (transfer_loop old_relay new_relay now [0..<ds_count t] t 0)"
  have "transferred old_relay new_relay now t 0 t"
    using assms(1) by (simp add: transferred_def)
  from transfer_loop_transferred [OF assms(1,4) _ assms(5) this, of 0]
  have tr: "transferred old_relay new_relay now t (ds_count t) w" by (simp add: w_def)
  have all: "take (ds_count t) (ds_live t) = ds_live t" by (simp add: ds_live_def)
  have u: "?u = clear_for_relay w old_relay"
    using assms(2-4) by (simp add: transfer_downstream_def w_def split: prod.splits)
  have inv: "ds_inv w" using tr by (simp add: transferred_def)
  then show "ds_inv ?u" by (simp add: u clear_for_relay_def ds_remove_where_effect)
  have lw: "ds_lookup w (d, r) = (case ds_lookup t (d, old_relay) of
      Some e \<Rightarrow> if r = new_relay then Some (moved_entry t new_relay now e) else ds_lookup t (d, r)
    | None \<Rightarrow> ds_lookup t (d, r))"
    using tr unfolding transferred_def all ds_lookup_def [of t "(d, old_relay)"] by blast
  have rel: "ds_lookup w (d, r) = Some e \<Longrightarrow> de_relay e = r" for e
    using ds_lookup_Some_iff [OF inv, of "(d, r)" e] by simp
  show "ds_lookup ?u (d, r) = (if r = old_relay then None
       else if r = new_relay then
         (case ds_lookup t (d, old_relay) of
            Some e \<Rightarrow> Some (moved_entry t new_relay now e)
          | None \<Rightarrow> ds_lookup t (d, new_relay))
       else ds_lookup t (d, r))"
    unfolding u clear_for_relay_def ds_remove_where_lookup [OF inv]
    using lw rel by (cases "ds_lookup w (d, r)") (auto split: option.splits)
qed

section \<open>Properties\<close>

text \<open>
  C33. The relay and the cost reported for a destination are those of one live, unexpired entry of
  that destination, and no such entry is cheaper: among the entries of the least cost it is the first
  one of the table. Nothing is reported exactly when every unexpired entry of the destination has the
  saturated cost 65535.
\<close>

theorem relay_and_cost_cheapest:
  "(relay_and_cost t d now ttl = Some (r, c) \<longleftrightarrow> c < 65535 \<and> (\<exists>es e es'. ds_live t = es @ e # es' \<and>
     e \<in> ds_offers t d now ttl \<and> de_relay e = r \<and> de_cost_fixed e = c \<and>
     (\<forall>e' \<in> ds_offers t d now ttl. c \<le> de_cost_fixed e' \<and> (e' \<in> set es \<longrightarrow> c < de_cost_fixed e')))) \<and>
   (relay_and_cost t d now ttl = None \<longleftrightarrow> (\<forall>e \<in> ds_offers t d now ttl. de_cost_fixed e = 65535))"
proof -
  let ?skip = "\<lambda>e. de_destination e \<noteq> d \<or> ttl \<le> now - de_last_update_ms e"
  have off: "ds_offers t d now ttl = {e \<in> set (ds_live t). \<not> ?skip e}" by (auto simp: ds_offers_def not_le)
  note first = first_cheapest_iff [of "\<lambda>e. \<not> ?skip e" "ds_live t", folded off]
  have spec: "(\<exists>es e es'. ds_live t = es @ e # es' \<and> e \<in> ds_offers t d now ttl \<and> de_relay e = r \<and> de_cost_fixed e = c \<and>
      (\<forall>e' \<in> ds_offers t d now ttl. c \<le> de_cost_fixed e' \<and> (e' \<in> set es \<longrightarrow> c < de_cost_fixed e'))) \<longleftrightarrow>
    (\<exists>xs e. first_cheapest (\<lambda>e. \<not> ?skip e) (ds_live t) xs e \<and> de_relay e = r \<and> de_cost_fixed e = c)"
    unfolding first by blast
  obtain r' c' where b: "best_loop ?skip (ds_live t) None (- 1) = (r', c')" by fastforce
  have top: "(- 1 :: u16) = 65535" by simp
  have rc: "relay_and_cost t d now ttl = map_option (\<lambda>relay. (relay, c')) r'"
    unfolding relay_and_cost_def b by simp
  from best_loop_first [OF b] show ?thesis
  proof (elim disjE conjE exE)
    assume "r' = None" "\<forall>e \<in> set (ds_live t). \<not> ?skip e \<longrightarrow> - 1 \<le> de_cost_fixed e"
    then have "\<forall>e \<in> ds_offers t d now ttl. de_cost_fixed e = 65535"
      by (simp add: off word_order.extremum_unique)
    then show ?thesis using rc \<open>r' = None\<close> by auto
  next
    fix xs e
    assume e: "first_cheapest (\<lambda>e. \<not> ?skip e) (ds_live t) xs e" "r' = Some (de_relay e)" "c' = de_cost_fixed e" "c' < - 1"
    then have "e \<in> ds_offers t d now ttl" "de_cost_fixed e \<noteq> 65535" unfolding first by auto
    moreover have "(\<exists>xs e. first_cheapest (\<lambda>e. \<not> ?skip e) (ds_live t) xs e \<and> de_relay e = r \<and> de_cost_fixed e = c) \<longleftrightarrow>
        de_relay e = r \<and> de_cost_fixed e = c" using e(1) first_cheapest_unique by blast
    ultimately show ?thesis unfolding spec using rc e(2,3) e(4) [unfolded top] by simp metis
  qed
qed

text \<open>A table with two relays for destination 9.\<close>

definition two_relays :: downstream_table where
  "two_relays = \<lparr>ds_entries =
     [\<lparr>de_destination = 9, de_relay = 5, de_via_radio = 0, de_cost_fixed = 100, de_last_update_ms = 1,
        de_list_learned = False\<rparr>,
      \<lparr>de_destination = 9, de_relay = 6, de_via_radio = 0, de_cost_fixed = 40, de_last_update_ms = 1,
        de_list_learned = False\<rparr>], ds_count = 2\<rparr>"

lemma two_relays_cheapest: "relay_and_cost two_relays 9 2 10 = Some (6, 40)"
  by (simp add: relay_and_cost_def two_relays_def ds_live_def word_le_nat_alt)

theorem relay_and_cost_cheapest_witness:
  "relay_and_cost two_relays 9 2 10 = Some (6, 40) \<and> relay_and_cost two_relays 9 20 10 = None"
proof -
  let ?e = "ds_entries two_relays ! 0" and ?e' = "ds_entries two_relays ! 1"
  have live: "ds_live two_relays = [?e] @ ?e' # []" by (simp add: two_relays_def ds_live_def)
  have offers: "ds_offers two_relays 9 2 10 = {?e, ?e'}" "ds_offers two_relays 9 20 10 = {}"
    by (auto simp: two_relays_def ds_live_def ds_offers_def)
  have e: "de_cost_fixed ?e = 100" "de_cost_fixed ?e' = 40" "de_relay ?e' = 6" by (simp_all add: two_relays_def)
  have "\<exists>es e es'. ds_live two_relays = es @ e # es' \<and> e \<in> {?e, ?e'} \<and> de_relay e = 6 \<and> de_cost_fixed e = 40 \<and>
      (\<forall>e' \<in> {?e, ?e'}. 40 \<le> de_cost_fixed e' \<and> (e' \<in> set es \<longrightarrow> 40 < de_cost_fixed e'))"
    by (rule exI [of _ "[?e]"], rule exI [of _ ?e'], rule exI [of _ "[]"])
      (use live e in \<open>simp add: two_relays_def\<close>)
  then have "relay_and_cost two_relays 9 2 10 = Some (6, 40)"
    using relay_and_cost_cheapest [of two_relays 9 2 10 6 40] unfolding offers by simp
  moreover have "relay_and_cost two_relays 9 20 10 = None"
    using relay_and_cost_cheapest [of two_relays 9 20 10 6 40] unfolding offers by simp
  ultimately show ?thesis by simp
qed

text \<open>
  C20. What a chain query finds, exactly: an egress is reported if and only if the sequence of
  cheapest relays from the destination reaches it as its first egress, within sixteen hops and
  without visiting a relay twice; the hop count is the length of that sequence and the cost its
  saturating sum. The query returns on every table, cyclic ones included.
\<close>

theorem chain_egress_iff:
  "chain_egress_of t d now ttl eg = Some ce \<longleftrightarrow> d \<noteq> 0 \<and>
   (\<exists>ps. ps \<noteq> [] \<and> length ps \<le> MAX_DOWNSTREAM_CHAIN \<and> follows t now ttl d ps \<and>
      distinct (map fst ps) \<and> eg (fst (last ps)) \<and> (\<forall>p \<in> set (butlast ps). \<not> eg (fst p)) \<and>
      ce = \<lparr>ce_node = fst (last ps), ce_hops = length ps,
        ce_cost_fixed = foldl sat_add 0 (map snd ps)\<rparr>)"
  by (auto simp: chain_egress_of_def chain_loop_iff chain_ok_def chain_result_def)

theorem chain_egress_iff_witness:
  "chain_egress_of two_relays 9 2 10 (\<lambda>n. n = 6) = Some \<lparr>ce_node = 6, ce_hops = 1, ce_cost_fixed = 40\<rparr>"
  unfolding chain_egress_iff
  by (auto intro!: exI [of _ "[(6, 40)]"]
      simp: two_relays_cheapest MAX_DOWNSTREAM_CHAIN_def sat_add_def)

text \<open>
  Handing a relay's destinations to another relay, while the table has room for them: the
  old relay keeps none, every destination it served is served by the new one at the old cost
  and with the time of the transfer, and no other pair changes.
\<close>

theorem transfer_moves_all:
  assumes "ds_inv t" "old_relay \<noteq> 0" "new_relay \<noteq> 0" "old_relay \<noteq> new_relay"
    "ds_count t + length (filter (\<lambda>e. de_relay e = old_relay) (ds_live t)) \<le> MAX_DOWNSTREAM"
    "transfer_downstream t old_relay new_relay now = (u, moved)"
  shows "ds_inv u \<and> (\<forall>d. ds_lookup u (d, old_relay) = None \<and>
    (\<forall>r. r \<noteq> old_relay \<and> r \<noteq> new_relay \<longrightarrow> ds_lookup u (d, r) = ds_lookup t (d, r)) \<and>
    (case ds_lookup t (d, old_relay) of
       None \<Rightarrow> ds_lookup u (d, new_relay) = ds_lookup t (d, new_relay)
     | Some e \<Rightarrow> \<exists>e'. ds_lookup u (d, new_relay) = Some e' \<and>
         de_cost_fixed e' = de_cost_fixed e \<and> de_via_radio e' = de_via_radio e \<and>
         de_last_update_ms e' = now))"
proof -
  have u: "u = fst (transfer_downstream t old_relay new_relay now)" using assms(6) by simp
  show ?thesis
    unfolding u using transfer_lookup [OF assms(1-5), where now = now] assms(4)
    by (auto simp: moved_entry_def ds_fresh_def split: option.splits)
qed

theorem transfer_moves_all_witness:
  "ds_lookup (fst (transfer_downstream (upsert_entry ds_new 9 5 100 0 1 False) 5 6 2)) (9, 5) = None"
proof -
  have new: "ds_count ds_new = 0" "ds_live ds_new = []" by (simp_all add: ds_new_def ds_live_def)
  have room: "ds_lookup ds_new (9, 5) \<noteq> None \<or> ds_count ds_new < MAX_DOWNSTREAM"
    by (simp add: new MAX_DOWNSTREAM_def)
  note up = upsert_room [OF ds_new_inv room refl, where c = 100 and via = 0 and now = 1 and learned = False]
  have "ds_count (upsert_entry ds_new 9 5 100 0 1 False) = 1" using up(3) by (simp add: new ds_lookup_def)
  moreover have "length (filter (\<lambda>e. de_relay e = 5) (ds_live (upsert_entry ds_new 9 5 100 0 1 False))) \<le> 1"
    using calculation length_ds_live [OF up(1)] length_filter_le by metis
  ultimately show ?thesis
    using transfer_moves_all [OF up(1), of 5 6 2, OF _ _ _ _ surjective_pairing]
    by (simp add: MAX_DOWNSTREAM_def)
qed

text \<open>
  A transfer to a node that is itself among the destinations handed over leaves an entry that
  names the node as its own relay. When that entry is the cheapest one, the chain query for the
  node fails from then on, whatever other relays the table still has for it.
\<close>

theorem transfer_to_destination_blocks_chain:
  assumes "ds_inv t" "old_relay \<noteq> 0" "d \<noteq> 0" "old_relay \<noteq> d"
    "ds_count t + length (filter (\<lambda>e. de_relay e = old_relay) (ds_live t)) \<le> MAX_DOWNSTREAM"
    "ds_lookup t (d, old_relay) = Some e"
    "\<forall>r. r \<noteq> old_relay \<and> r \<noteq> d \<longrightarrow> (\<forall>e'. ds_lookup t (d, r) = Some e' \<longrightarrow> de_cost_fixed e < de_cost_fixed e')"
  shows "chain_egress_of (fst (transfer_downstream t old_relay d now)) d now ttl eg = None"
proof -
  let ?u = "fst (transfer_downstream t old_relay d now)"
  note tl = transfer_lookup [OF assms(1,2,3,4,5), where now = now]
  have iff: "ds_lookup ?u (d, r) = Some x \<longleftrightarrow> x \<in> set (ds_live ?u) \<and> de_key x = (d, r)" for r x
    by (rule ds_lookup_Some_iff [OF tl(1)])
  have self: "ds_lookup ?u (d, d) = Some (moved_entry t d now e)"
    using tl(2) [where d = d and r = d] assms(4,6) by simp
  then have me: "moved_entry t d now e \<in> ds_offers ?u d now ttl" if "0 < ttl"
    using iff [of d "moved_entry t d now e"] that
    by (auto simp: ds_offers_def moved_entry_def ds_fresh_def)
  have cost: "de_cost_fixed (moved_entry t d now e) = de_cost_fixed e"
    by (simp add: moved_entry_def ds_fresh_def)
  have "de_relay x = d" if x: "x \<in> ds_offers ?u d now ttl" "de_cost_fixed x \<le> de_cost_fixed e" for x
  proof (rule ccontr)
    assume ne: "de_relay x \<noteq> d"
    have "ds_lookup ?u (d, de_relay x) = Some x" using x(1) iff by (simp add: ds_offers_def)
    then have "ds_lookup t (d, de_relay x) = Some x" "de_relay x \<noteq> old_relay"
      using tl(2) [where d = d and r = "de_relay x"] ne by (auto split: if_splits)
    then show False using assms(7) ne x(2) by auto
  qed
  then have "relay_and_cost ?u d now ttl = None \<or> (\<exists>c. relay_and_cost ?u d now ttl = Some (d, c))"
    using relay_and_cost_cases [of ?u d now ttl] me cost
    by (cases "ttl = 0") (auto simp: ds_offers_def word_gt_0)
  then show ?thesis
    by (auto simp: chain_egress_of_def chain_loop.simps [of _ _ _ _ d])
qed

text \<open>
  An exclusive update makes the given relay the only one of its destination: with a valid
  pair and a positive finite cost, and room in the table, the destination has exactly that entry
  and no other destination changes.
\<close>

theorem update_exclusive_single:
  assumes "ds_inv t" "d \<noteq> 0" "r \<noteq> 0" "d \<noteq> r" "d \<noteq> my_node" "0 < cost"
    "ds_count t < MAX_DOWNSTREAM"
  shows "ds_inv (update_exclusive t my_node d r (Fin cost) now False via) \<and>
    (\<forall>r'. (ds_lookup (update_exclusive t my_node d r (Fin cost) now False via) (d, r') \<noteq> None)
       = (r' = r)) \<and>
    (\<forall>d' r'. d' \<noteq> d \<longrightarrow> ds_lookup (update_exclusive t my_node d r (Fin cost) now False via) (d', r') =
       ds_lookup t (d', r'))"
proof -
  let ?w = "ds_remove_where (\<lambda>e. de_destination e = d) t"
  let ?c = "f32_to_word (f32_min (f32_mul (Fin cost) (Fin 100)) (Fin 65535)) :: u16"
  have u: "update_exclusive t my_node d r (Fin cost) now False via = upsert_entry ?w d r ?c via now False"
    using assms(2-6)
    by (simp add: update_exclusive_def ds_update_def update_inner_def is_finite_def f32_le_def Let_def)
  have inv: "ds_inv ?w" by (rule ds_remove_where_effect(1) [OF assms(1)])
  have "ds_count ?w \<le> ds_count t"
    using ds_remove_where_effect(3) [OF assms(1), of "\<lambda>e. de_destination e = d"]
      length_ds_live [OF assms(1)] length_filter_le by metis
  then have room: "ds_lookup ?w (d, r) \<noteq> None \<or> ds_count ?w < MAX_DOWNSTREAM" using assms(7) by simp
  have key: "ds_lookup t (d', r') = Some e \<Longrightarrow> de_destination e = d'" for d' r' e
    using ds_lookup_Some_iff [OF assms(1), of "(d', r')" e] by simp
  have lw: "ds_lookup ?w (d', r') = (if d' = d then None else ds_lookup t (d', r'))" for d' r'
    using ds_remove_where_lookup [OF assms(1), where drp = "\<lambda>e. de_destination e = d" and k = "(d', r')"] key
    by (auto split: option.splits)
  note up = upsert_room [OF inv room refl, where c = ?c and via = via and now = now and learned = False]
  show ?thesis unfolding u using up(1,2) by (auto simp: lw)
qed

theorem update_exclusive_single_witness:
  "ds_lookup (update_exclusive ds_new 1 9 5 (Fin 2) 7 False 0) (9, 5) \<noteq> None"
  using update_exclusive_single [OF ds_new_inv, of 9 5 1 2 7 0]
  by (simp add: ds_new_def MAX_DOWNSTREAM_def)

end
