(* ===== verification/RadioConfig.thy ===== *)
theory RadioConfig
  imports Prelude Float32
begin

unbundle bit_operations_syntax

text \<open>
  Modem presets, time on air and slot times (crate mesh-radio: \<open>config.rs\<close>,
  \<open>packet_time.rs\<close>, \<open>timing.rs\<close>). The intermediate integers of
  \<open>packet_time_ms\<close> are far below the widths they have in the code (the product of
  quarter symbols, chips and microseconds stays under \<open>2 ^ 64\<close>), so they are \<open>nat\<close>; the
  results are words of the code's type.
\<close>

section \<open>Presets\<close>

definition REGION_EU_868 :: u8 where "REGION_EU_868 = 3"
definition DEFAULT_HOP_LIMIT :: u8 where "DEFAULT_HOP_LIMIT = 7"
definition MAX_HOP_LIMIT :: u8 where "MAX_HOP_LIMIT = push_bit 3 1 - 1"

definition MODEM_LONG_FAST :: u8 where "MODEM_LONG_FAST = 0"
definition MODEM_LONG_SLOW :: u8 where "MODEM_LONG_SLOW = 1"
definition MODEM_VERY_LONG_SLOW :: u8 where "MODEM_VERY_LONG_SLOW = 2"
definition MODEM_MEDIUM_SLOW :: u8 where "MODEM_MEDIUM_SLOW = 3"
definition MODEM_MEDIUM_FAST :: u8 where "MODEM_MEDIUM_FAST = 4"
definition MODEM_SHORT_SLOW :: u8 where "MODEM_SHORT_SLOW = 5"
definition MODEM_SHORT_FAST :: u8 where "MODEM_SHORT_FAST = 6"
definition MODEM_LONG_MODERATE :: u8 where "MODEM_LONG_MODERATE = 7"
definition MODEM_SHORT_TURBO :: u8 where "MODEM_SHORT_TURBO = 8"
definition MODEM_LONG_TURBO :: u8 where "MODEM_LONG_TURBO = 9"
definition MODEM_DEFAULT_PRESET :: u8 where "MODEM_DEFAULT_PRESET = MODEM_LONG_FAST"

lemmas modem_presets = MODEM_LONG_FAST_def MODEM_LONG_SLOW_def MODEM_VERY_LONG_SLOW_def
  MODEM_MEDIUM_SLOW_def MODEM_MEDIUM_FAST_def MODEM_SHORT_SLOW_def MODEM_SHORT_FAST_def
  MODEM_LONG_MODERATE_def MODEM_SHORT_TURBO_def MODEM_LONG_TURBO_def MODEM_DEFAULT_PRESET_def

definition is_valid_modem_preset :: "u8 \<Rightarrow> bool" where
  "is_valid_modem_preset preset \<longleftrightarrow> preset \<in> {MODEM_LONG_FAST, MODEM_LONG_SLOW,
     MODEM_VERY_LONG_SLOW, MODEM_MEDIUM_SLOW, MODEM_MEDIUM_FAST, MODEM_SHORT_SLOW,
     MODEM_SHORT_FAST, MODEM_LONG_MODERATE, MODEM_SHORT_TURBO, MODEM_LONG_TURBO}"

definition normalize_modem_preset :: "u8 \<Rightarrow> u8" where
  "normalize_modem_preset preset =
     (if is_valid_modem_preset preset then preset else MODEM_DEFAULT_PRESET)"

record region_info =
  ri_code :: u8
  ri_name :: string
  ri_freq_start_mhz :: f32
  ri_freq_end_mhz :: f32
  ri_duty_cycle_percent :: u8
  ri_power_limit_dbm :: u8

definition EU_868 :: region_info where
  "EU_868 = \<lparr>ri_code = REGION_EU_868, ri_name = ''EU_868'',
     ri_freq_start_mhz = round32 (8694 / 10), ri_freq_end_mhz = round32 (86965 / 100),
     ri_duty_cycle_percent = 10, ri_power_limit_dbm = 27\<rparr>"

definition EU_868_DEFAULT_FREQ_MHZ :: f32 where
  "EU_868_DEFAULT_FREQ_MHZ = round32 (869525 / 1000)"

record modem_params =
  mp_bandwidth_khz :: f32
  mp_spreading_factor :: u8
  mp_coding_rate :: u8

definition modem_preset_params :: "u8 \<Rightarrow> bool \<Rightarrow> modem_params" where
  "modem_preset_params preset wide_lora =
     (let mk = (\<lambda>bw sf cr. \<lparr>mp_bandwidth_khz = Fin bw, mp_spreading_factor = sf, mp_coding_rate = cr\<rparr>) in
      if preset = MODEM_SHORT_TURBO then mk (if wide_lora then 1625 else 500) 7 5
      else if preset = MODEM_SHORT_FAST then mk (if wide_lora then 1625 / 2 else 250) 7 5
      else if preset = MODEM_SHORT_SLOW then mk (if wide_lora then 1625 / 2 else 250) 8 5
      else if preset = MODEM_MEDIUM_FAST then mk (if wide_lora then 1625 / 2 else 250) 9 5
      else if preset = MODEM_MEDIUM_SLOW then mk (if wide_lora then 1625 / 2 else 250) 10 5
      else if preset = MODEM_LONG_TURBO then mk (if wide_lora then 1625 else 500) 11 8
      else if preset = MODEM_LONG_MODERATE then mk (if wide_lora then 1625 / 4 else 125) 11 8
      else if preset = MODEM_LONG_FAST then mk (if wide_lora then 1625 / 2 else 250) 11 5
      else if preset = MODEM_LONG_SLOW then mk (if wide_lora then 1625 / 4 else 125) 12 8
      else if preset = MODEM_VERY_LONG_SLOW then mk (if wide_lora then 1625 / 4 else 125 / 2) 12 8
      else mk 0 0 0)"

definition modem_preset_channel_name :: "u8 \<Rightarrow> string" where
  "modem_preset_channel_name preset =
     (if preset = MODEM_SHORT_TURBO then ''ShortTurbo''
      else if preset = MODEM_SHORT_SLOW then ''ShortSlow''
      else if preset = MODEM_SHORT_FAST then ''ShortFast''
      else if preset = MODEM_MEDIUM_SLOW then ''MediumSlow''
      else if preset = MODEM_MEDIUM_FAST then ''MediumFast''
      else if preset = MODEM_LONG_SLOW then ''LongSlow''
      else if preset = MODEM_LONG_FAST then ''LongFast''
      else if preset = MODEM_LONG_TURBO then ''LongTurbo''
      else if preset = MODEM_LONG_MODERATE then ''LongMod''
      else if preset = MODEM_VERY_LONG_SLOW then ''VeryLongSlow''
      else ''Invalid'')"

definition SYNC_WORD :: u8 where "SYNC_WORD = 0x2B"
definition SX126X_SYNC_CONTROL_BITS :: u8 where "SX126X_SYNC_CONTROL_BITS = 0x44"

definition sync_word_sx126x :: "u8 \<Rightarrow> u16" where
  "sync_word_sx126x sync_word =
     (let msb = (sync_word AND 0xF0) OR drop_bit 4 (SX126X_SYNC_CONTROL_BITS AND 0xF0);
          lsb = push_bit 4 (sync_word AND 0x0F) OR (SX126X_SYNC_CONTROL_BITS AND 0x0F)
      in push_bit 8 (ucast msb) OR ucast lsb)"

definition PREAMBLE_LENGTH :: u16 where "PREAMBLE_LENGTH = 16"
definition MAX_TX_POWER_DBM :: u8 where "MAX_TX_POWER_DBM = 22"

record radio_config =
  rc_region :: region_info
  rc_modem_preset :: u8
  rc_frequency_mhz :: f32
  rc_bandwidth_khz :: f32
  rc_spreading_factor :: u8
  rc_coding_rate :: u8
  rc_sync_word :: u8
  rc_preamble_length :: u16
  rc_tx_power_dbm :: int
  rc_hop_limit :: u8

definition eu868_long_fast :: radio_config where
  "eu868_long_fast = \<lparr>rc_region = EU_868, rc_modem_preset = MODEM_LONG_FAST,
     rc_frequency_mhz = EU_868_DEFAULT_FREQ_MHZ, rc_bandwidth_khz = Fin 250,
     rc_spreading_factor = 11, rc_coding_rate = 5, rc_sync_word = SYNC_WORD,
     rc_preamble_length = PREAMBLE_LENGTH, rc_tx_power_dbm = 22, rc_hop_limit = DEFAULT_HOP_LIMIT\<rparr>"

definition eu868_short_slow :: radio_config where
  "eu868_short_slow = \<lparr>rc_region = EU_868, rc_modem_preset = MODEM_SHORT_SLOW,
     rc_frequency_mhz = EU_868_DEFAULT_FREQ_MHZ, rc_bandwidth_khz = Fin 250,
     rc_spreading_factor = 8, rc_coding_rate = 5, rc_sync_word = SYNC_WORD,
     rc_preamble_length = PREAMBLE_LENGTH, rc_tx_power_dbm = 22, rc_hop_limit = DEFAULT_HOP_LIMIT\<rparr>"

definition eu868_default :: radio_config where
  "eu868_default =
     (if MODEM_DEFAULT_PRESET = MODEM_LONG_FAST then eu868_long_fast
      else if MODEM_DEFAULT_PRESET = MODEM_SHORT_SLOW then eu868_short_slow
      else eu868_long_fast)"

section \<open>Time on air\<close>

definition div_ceil :: "nat \<Rightarrow> nat \<Rightarrow> nat" where
  "div_ceil a b = (a + b - 1) div b"

definition bandwidth_hz :: "radio_config \<Rightarrow> u32" where
  "bandwidth_hz config = f32_to_word (f32_mul (rc_bandwidth_khz config) (Fin 1000))"

definition packet_time_ms :: "radio_config \<Rightarrow> nat \<Rightarrow> bool \<Rightarrow> u32" where
  "packet_time_ms config payload_len received =
     (if \<not> (5 \<le> rc_spreading_factor config \<and> rc_spreading_factor config \<le> 12)
         \<or> \<not> (5 \<le> rc_coding_rate config \<and> rc_coding_rate config \<le> 8)
         \<or> \<not> is_finite (rc_bandwidth_khz config)
         \<or> f32_less (rc_bandwidth_khz config) (Fin 1)
         \<or> 255 < payload_len then 0
      else
        let sf = unat (rc_spreading_factor config);
            bw_hz = unat (bandwidth_hz config);
            cr = unat (rc_coding_rate config) - 4;
            preamble = unat (rc_preamble_length config);
            numerator = max 0 (8 * int payload_len - 4 * int sf + 28 + 16);
            denom = 4 * sf;
            payload_symbols = (if denom = 0 then 0
              else nat (max 0 ((numerator + int denom - 1) div int denom)) * (cr + 4));
            quarter_symbols = 4 * (preamble + 12 + payload_symbols) + 1;
            time_us = div_ceil (quarter_symbols * 2 ^ sf * 1000000) (4 * bw_hz)
        in of_nat (min (div_ceil time_us 1000) (2 ^ 32 - 1)))"

section \<open>Slot times\<close>

definition NUM_SYM_CAD_NUMER :: u32 where "NUM_SYM_CAD_NUMER = 5"
definition NUM_SYM_CAD_DENOM :: u32 where "NUM_SYM_CAD_DENOM = 2"
definition PROP_TURNAROUND_MAC_MS_X1000 :: u32 where "PROP_TURNAROUND_MAC_MS_X1000 = 7600"
definition MAX_SLOT_TIME_MS :: u32 where "MAX_SLOT_TIME_MS = 1000"

definition eu868_config_for_preset :: "u8 \<Rightarrow> radio_config" where
  "eu868_config_for_preset preset =
     (let params = modem_preset_params preset False in
      \<lparr>rc_region = EU_868, rc_modem_preset = preset,
       rc_frequency_mhz = EU_868_DEFAULT_FREQ_MHZ, rc_bandwidth_khz = mp_bandwidth_khz params,
       rc_spreading_factor = mp_spreading_factor params, rc_coding_rate = mp_coding_rate params,
       rc_sync_word = SYNC_WORD, rc_preamble_length = PREAMBLE_LENGTH, rc_tx_power_dbm = 22,
       rc_hop_limit = DEFAULT_HOP_LIMIT\<rparr>)"

definition slot_time_ms :: "radio_config \<Rightarrow> u32" where
  "slot_time_ms config =
     (if \<not> (5 \<le> rc_spreading_factor config \<and> rc_spreading_factor config \<le> 12)
         \<or> \<not> is_finite (rc_bandwidth_khz config)
         \<or> f32_less (rc_bandwidth_khz config) (Fin 1) then MAX_SLOT_TIME_MS
      else
        let symbol_time_x1000 =
              sat_mul (push_bit (unat (rc_spreading_factor config)) 1) 1000000 div bandwidth_hz config;
            cad_ms_x1000 = (NUM_SYM_CAD_NUMER * symbol_time_x1000) div NUM_SYM_CAD_DENOM
        in (cad_ms_x1000 + PROP_TURNAROUND_MAC_MS_X1000) div 1000)"

definition contention_window_ms :: "u8 \<Rightarrow> u32" where
  "contention_window_ms preset =
     (if preset = MODEM_LONG_FAST \<or> preset = MODEM_LONG_MODERATE then 3000
      else if preset = MODEM_VERY_LONG_SLOW \<or> preset = MODEM_LONG_SLOW then 5000
      else if preset = MODEM_SHORT_TURBO \<or> preset = MODEM_SHORT_FAST then 1500
      else 2000)"

section \<open>Lemmas\<close>

lemma bandwidth_hz_pos:
  assumes "is_finite (rc_bandwidth_khz c)" "\<not> f32_less (rc_bandwidth_khz c) (Fin 1)"
  shows "1000 \<le> unat (bandwidth_hz c)"
proof -
  obtain b where b: "rc_bandwidth_khz c = Fin b" "1 \<le> b"
    using assms by (cases "rc_bandwidth_khz c") (auto simp: is_finite_def)
  have r: "of_int 1000 \<le> rnd (b * 1000)" by (rule rnd_ge_int) (use b in auto)
  then have "(1000::int) \<le> \<lfloor>rnd (b * 1000)\<rfloor>" by linarith
  then have "1000 \<le> nat \<lfloor>rnd (b * 1000)\<rfloor>" by linarith
  then have "1000 \<le> f32_to_nat (2 ^ 32 - 1) (f32_mul (Fin b) (Fin 1000))"
    using r by (auto simp: f32_to_nat_def round32_def Let_def)
  moreover have "f32_to_nat (2 ^ 32 - 1) x < 2 ^ 32" for x
    by (auto simp: f32_to_nat_def split: f32.splits)
  ultimately show ?thesis
    by (simp add: bandwidth_hz_def b f32_to_word_def unsigned_of_nat take_bit_nat_eq_self)
qed

lemma div_ceil_mono: "a \<le> a' \<Longrightarrow> div_ceil a b \<le> div_ceil a' b"
  by (simp add: div_ceil_def div_le_mono)

text \<open>The exact bandwidth of a preset, in Hz.\<close>

lemma f32_mul_exact: "\<bar>n\<bar> \<le> 2 ^ 24 \<Longrightarrow> a * b = of_int n \<Longrightarrow> f32_mul (Fin a) (Fin b) = Fin (of_int n)"
proof -
  assume n: "\<bar>n\<bar> \<le> 2 ^ 24" "a * b = of_int n"
  have "n \<le> 2 ^ 24" "- (2 ^ 24) \<le> n" using n(1) by linarith+
  then have "rat_of_int n \<le> rat_of_int (2 ^ 24)" "rat_of_int (- (2 ^ 24)) \<le> rat_of_int n"
    by (simp_all only: of_int_le_iff)
  then have "\<not> 2 ^ 128 \<le> rat_of_int n" "\<not> rat_of_int n \<le> - (2 ^ 128)" by simp_all
  then show ?thesis by (simp add: n(2) round32_def rnd_int [OF n(1)])
qed

text \<open>The time as a natural number, for a configuration that is in range.\<close>

definition airtime_valid :: "radio_config \<Rightarrow> bool" where
  "airtime_valid c \<longleftrightarrow> 5 \<le> rc_spreading_factor c \<and> rc_spreading_factor c \<le> 12 \<and>
     5 \<le> rc_coding_rate c \<and> rc_coding_rate c \<le> 8 \<and> is_finite (rc_bandwidth_khz c) \<and>
     \<not> f32_less (rc_bandwidth_khz c) (Fin 1)"

definition payload_symbols_of :: "nat \<Rightarrow> nat \<Rightarrow> nat \<Rightarrow> nat" where
  "payload_symbols_of sf cr len =
     nat ((max 0 (8 * int len - 4 * int sf + 44) + int (4 * sf) - 1) div int (4 * sf)) * (cr + 4)"

definition airtime_nat :: "radio_config \<Rightarrow> nat \<Rightarrow> nat" where
  "airtime_nat c len = div_ceil (div_ceil ((4 * (unat (rc_preamble_length c) + 12 +
       payload_symbols_of (unat (rc_spreading_factor c)) (unat (rc_coding_rate c) - 4) len) + 1)
     * 2 ^ unat (rc_spreading_factor c) * 1000000) (4 * unat (bandwidth_hz c))) 1000"

lemma packet_time_airtime_nat:
  assumes "airtime_valid c" "len \<le> 255"
  shows "packet_time_ms c len received = of_nat (min (airtime_nat c len) (2 ^ 32 - 1))"
proof -
  define sf where "sf = unat (rc_spreading_factor c)"
  have "5 \<le> sf" using assms(1) by (simp add: airtime_valid_def word_le_nat_alt sf_def)
  then have "nat (max 0 ((max 0 (8 * int len - 4 * int sf + 28 + 16) + int (4 * sf) - 1) div int (4 * sf)))
      = nat ((max 0 (8 * int len - 4 * int sf + 44) + int (4 * sf) - 1) div int (4 * sf))"
    by (simp add: max_absorb2 pos_imp_zdiv_nonneg_iff add.assoc)
  with assms \<open>5 \<le> sf\<close> show ?thesis
    by (simp only: packet_time_ms_def airtime_valid_def airtime_nat_def payload_symbols_of_def
        Let_def sf_def [symmetric]) simp
qed

lemma payload_symbols_mono: "m \<le> n \<Longrightarrow> payload_symbols_of sf cr m \<le> payload_symbols_of sf cr n"
  unfolding payload_symbols_of_def
  by (cases "sf = 0") (auto intro!: mult_right_mono nat_mono zdiv_mono1 simp del: mult_le_cancel2)

lemma airtime_nat_mono: "m \<le> n \<Longrightarrow> airtime_nat c m \<le> airtime_nat c n"
  unfolding airtime_nat_def
  by (intro div_ceil_mono mult_right_mono add_mono mult_left_mono payload_symbols_mono) simp_all

text \<open>
  The time on air of the radio's data sheet, in milliseconds and without rounding: the preamble with
  four and a quarter symbols of synchronisation and eight of header, and the payload in blocks of
  \<open>4 * sf\<close> bits with \<open>cr\<close> symbols each, for an explicit header and a checksum.
\<close>

definition lora_airtime_ms :: "nat \<Rightarrow> nat \<Rightarrow> nat \<Rightarrow> rat \<Rightarrow> nat \<Rightarrow> rat" where
  "lora_airtime_ms sf cr preamble bw_khz len =
     (of_nat preamble + 17 / 4 + 8 +
      of_int (max 0 \<lceil>(8 * of_nat len - 4 * of_nat sf + 28 + 16) / (4 * of_nat sf) :: rat\<rceil>) * of_nat cr) *
     2 ^ sf / bw_khz"

lemma int_div_ceil: "0 < d \<Longrightarrow> (a + d - 1) div d = \<lceil>of_int a / (of_int d :: rat)\<rceil>"
proof -
  assume d: "0 < d"
  let ?q = "(a + d - 1) div d" and ?m = "(a + d - 1) mod d"
  have m: "0 \<le> ?m" "?m < d" "a + d - 1 = ?q * d + ?m" using d by (simp_all only: pos_mod_sign pos_mod_bound div_mult_mod_eq)
  have "(?q - 1) * d = ?q * d - d" by (simp only: left_diff_distrib mult_1)
  then have "(?q - 1) * d < a" "a \<le> ?q * d" using m by linarith+
  then have "rat_of_int ((?q - 1) * d) < of_int a" "rat_of_int a \<le> of_int (?q * d)" by (simp_all only: of_int_less_iff of_int_le_iff)
  then have "of_int ?q - 1 < of_int a / (of_int d :: rat)" "of_int a / (of_int d :: rat) \<le> of_int ?q"
    using d by (simp_all add: field_simps)
  then show ?thesis by (simp add: ceiling_unique)
qed

lemma div_ceil_ceiling: "0 < b \<Longrightarrow> int (div_ceil a b) = \<lceil>of_nat a / (of_nat b :: rat)\<rceil>"
  using int_div_ceil [of "int b" "int a"] by (simp add: div_ceil_def zdiv_int of_nat_diff Suc_leI)

lemma div_ceil_twice: "0 < b \<Longrightarrow> 0 < c \<Longrightarrow> int (div_ceil (div_ceil a b) c) = \<lceil>of_nat a / (of_nat b * of_nat c :: rat)\<rceil>"
proof -
  assume b: "0 < b" "0 < c"
  have "(of_nat a / (of_nat b * of_nat c) :: rat) \<le> of_int z \<longleftrightarrow> of_nat (div_ceil a b) / (of_nat c :: rat) \<le> of_int z" for z
  proof -
    have "(of_nat a / (of_nat b * of_nat c) :: rat) \<le> of_int z \<longleftrightarrow> of_nat a / (of_nat b :: rat) \<le> of_int (z * int c)"
      using b by (simp add: field_simps)
    also have "\<dots> \<longleftrightarrow> int (div_ceil a b) \<le> z * int c" by (simp only: ceiling_le_iff [symmetric] div_ceil_ceiling [OF b(1)])
    also have "\<dots> \<longleftrightarrow> rat_of_int (int (div_ceil a b)) \<le> of_int (z * int c)" by (simp only: of_int_le_iff)
    also have "\<dots> \<longleftrightarrow> of_nat (div_ceil a b) / (of_nat c :: rat) \<le> of_int z" using b by (simp add: field_simps)
    finally show ?thesis .
  qed
  then have "\<lceil>of_nat a / (of_nat b * of_nat c :: rat)\<rceil> \<le> z \<longleftrightarrow> \<lceil>of_nat (div_ceil a b) / (of_nat c :: rat)\<rceil> \<le> z" for z
    by (simp only: ceiling_le_iff)
  then show ?thesis using div_ceil_ceiling [OF b(2)] by (metis order_antisym order_refl)
qed

lemma payload_symbols_ceiling:
  assumes "0 < sf"
  shows "int (payload_symbols_of sf cr len) =
    max 0 \<lceil>(8 * of_nat len - 4 * of_nat sf + 28 + 16) / (4 * of_nat sf) :: rat\<rceil> * int (cr + 4)"
proof -
  define num where "num = 8 * int len - 4 * int sf + 44"
  define d where "d = int (4 * sf)"
  have d: "0 < d" using assms by (simp add: d_def)
  have "(max 0 num + d - 1) div d = max 0 \<lceil>of_int num / (of_int d :: rat)\<rceil>"
  proof (cases "0 \<le> num")
    case True
    then have "(0 :: rat) \<le> of_int num / of_int d" using d by simp
    then have "0 \<le> \<lceil>of_int num / (of_int d :: rat)\<rceil>" by (metis ceiling_mono ceiling_zero)
    then show ?thesis using int_div_ceil [OF d, of num] True by (simp add: max_absorb2)
  next
    case False
    then have "of_int num / (of_int d :: rat) \<le> of_int 0" using d by (simp add: divide_le_0_iff)
    then have "\<lceil>of_int num / (of_int d :: rat)\<rceil> \<le> 0" by (simp only: ceiling_le_iff)
    moreover have "(d - 1) div d = 0" using d by (simp add: div_pos_pos_trivial)
    ultimately show ?thesis using False by (simp add: max_absorb1)
  qed
  moreover have "rat_of_int num = 8 * of_nat len - 4 * of_nat sf + 28 + 16" "rat_of_int d = 4 * of_nat sf"
    by (simp_all add: num_def d_def)
  ultimately show ?thesis
    unfolding payload_symbols_of_def num_def [symmetric] d_def [symmetric] by simp
qed

lemma airtime_nat_ceiling:
  assumes "airtime_valid c"
  shows "airtime_nat c n = nat \<lceil>lora_airtime_ms (unat (rc_spreading_factor c)) (unat (rc_coding_rate c))
    (unat (rc_preamble_length c)) (of_nat (unat (bandwidth_hz c)) / 1000) n\<rceil>"
proof -
  define sf cr pre hz where "sf = unat (rc_spreading_factor c)" and "cr = unat (rc_coding_rate c)"
    and "pre = unat (rc_preamble_length c)" and "hz = unat (bandwidth_hz c)"
  have pos: "0 < sf" "0 < hz" "4 \<le> cr"
    using assms bandwidth_hz_pos [of c] by (auto simp: airtime_valid_def word_le_nat_alt sf_def hz_def cr_def)
  define ps where "ps = payload_symbols_of sf (cr - 4) n"
  have "rat_of_int (int ps) = of_int (max 0 \<lceil>(8 * of_nat n - 4 * of_nat sf + 28 + 16) / (4 * of_nat sf) :: rat\<rceil> * int cr)"
    using payload_symbols_ceiling [OF pos(1), of "cr - 4" n] pos(3) by (simp only: ps_def le_add_diff_inverse2)
  then have ps: "of_nat ps = of_int (max 0 \<lceil>(8 * of_nat n - 4 * of_nat sf + 28 + 16) / (4 * of_nat sf) :: rat\<rceil>) * rat_of_nat cr"
    by (simp only: of_int_of_nat_eq of_int_mult)
  have "int (airtime_nat c n) = \<lceil>of_nat ((4 * (pre + 12 + ps) + 1) * 2 ^ sf * 1000000) / (of_nat (4 * hz) * of_nat 1000 :: rat)\<rceil>"
    unfolding airtime_nat_def sf_def [symmetric] cr_def [symmetric] pre_def [symmetric] hz_def [symmetric] ps_def [symmetric]
    by (rule div_ceil_twice) (use pos in auto)
  also have "of_nat ((4 * (pre + 12 + ps) + 1) * 2 ^ sf * 1000000) / (of_nat (4 * hz) * of_nat 1000 :: rat) =
      (of_nat pre + 17 / 4 + 8 + of_nat ps) * 2 ^ sf / (of_nat hz / 1000)"
    using pos by (simp add: field_simps)
  finally have "int (airtime_nat c n) = \<lceil>lora_airtime_ms sf cr pre (of_nat hz / 1000) n\<rceil>"
    by (simp only: lora_airtime_ms_def ps)
  then show ?thesis by (simp only: sf_def cr_def pre_def hz_def nat_int [symmetric])
qed

lemma airtime_nat_pos: "airtime_valid c \<Longrightarrow> 0 < airtime_nat c n"
proof -
  assume c: "airtime_valid c"
  have pos: "0 < b \<Longrightarrow> 0 < a \<Longrightarrow> 0 < div_ceil a b" for a b by (simp add: div_ceil_def div_greater_zero_iff)
  have "0 < 4 * unat (bandwidth_hz c)" using bandwidth_hz_pos [of c] c by (simp add: airtime_valid_def)
  then show ?thesis unfolding airtime_nat_def by (intro pos) simp_all
qed

lemma bandwidth_hz_exact:
  assumes "rc_bandwidth_khz c = Fin b" "1000 * b = of_nat hz" "hz \<le> 2 ^ 24"
  shows "unat (bandwidth_hz c) = hz"
proof -
  have "f32_mul (Fin b) (Fin 1000) = Fin (of_int (int hz))"
    by (rule f32_mul_exact) (use assms in \<open>auto simp: mult.commute\<close>)
  then show ?thesis
    using assms(1,3) by (simp add: bandwidth_hz_def f32_to_word_def f32_to_nat_def unsigned_of_nat take_bit_nat_eq_self)
qed

section \<open>Properties\<close>

text \<open>
  C34. The time on air is the one of the data sheet. For spreading factors 5 to 12, coding rates 5 to
  8, a finite bandwidth of at least 1 kHz and a payload of at most 255 bytes, the integer arithmetic
  of the code gives the exact time of the formula, rounded up once to a whole millisecond and
  capped at the width of the result; for a bandwidth of a whole number of Hz, as every preset has, the
  bandwidth in the formula is the configured one. The result is zero, which stands for unknown,
  exactly for the other configurations and lengths. Up to 255 bytes a longer payload never takes less time.
\<close>

theorem packet_time_is_lora_airtime:
  "packet_time_ms c n received =
     (if airtime_valid c \<and> n \<le> 255 then
        of_nat (min (nat \<lceil>lora_airtime_ms (unat (rc_spreading_factor c)) (unat (rc_coding_rate c))
          (unat (rc_preamble_length c)) (of_nat (unat (bandwidth_hz c)) / 1000) n\<rceil>) (2 ^ 32 - 1))
      else 0) \<and>
   (rc_bandwidth_khz c = Fin b \<and> 1000 * b = of_nat hz \<and> hz \<le> 2 ^ 24 \<longrightarrow> unat (bandwidth_hz c) = hz) \<and>
   (packet_time_ms c n received = 0 \<longleftrightarrow> \<not> (airtime_valid c \<and> n \<le> 255)) \<and>
   (m \<le> n \<and> n \<le> 255 \<longrightarrow> packet_time_ms c m received \<le> packet_time_ms c n received')"
proof (cases "airtime_valid c \<and> n \<le> 255")
  case True
  have u: "unat (of_nat (min k (2 ^ 32 - 1)) :: u32) = min k (2 ^ 32 - 1)" for k
    by (simp add: unsigned_of_nat take_bit_nat_eq_self)
  have pt: "unat (packet_time_ms c k r) = min (airtime_nat c k) (2 ^ 32 - 1)" if "k \<le> 255" for k r
    using packet_time_airtime_nat [OF _ that, of c r] True u by simp
  have mono: "m \<le> n \<Longrightarrow> packet_time_ms c m received \<le> packet_time_ms c n received'"
    using pt [of m] pt [of n] airtime_nat_mono [of m n c] True by (auto simp: word_le_nat_alt)
  have "unat (packet_time_ms c n received) \<noteq> 0"
    using pt [of n received] airtime_nat_pos [of c n] True by auto
  then have "packet_time_ms c n received \<noteq> 0" by (auto simp del: unsigned_eq_0_iff)
  moreover have "packet_time_ms c n received = of_nat (min (airtime_nat c n) (2 ^ 32 - 1))"
    using True by (intro packet_time_airtime_nat) simp_all
  ultimately show ?thesis
    using True mono bandwidth_hz_exact [of c b hz] by (simp only: airtime_nat_ceiling if_True) simp
next
  case False
  then have z: "packet_time_ms c n received = 0" by (auto simp: packet_time_ms_def airtime_valid_def)
  have "n \<le> 255 \<Longrightarrow> packet_time_ms c k r = 0" for k r
    using False by (auto simp: packet_time_ms_def airtime_valid_def)
  then show ?thesis using z False bandwidth_hz_exact [of c b hz] by auto
qed

text \<open>The case of the repository's test of the quarter symbol.\<close>

definition slow_config :: radio_config where
  "slow_config = eu868_default\<lparr>rc_spreading_factor := 12, rc_bandwidth_khz := Fin 125, rc_preamble_length := 8\<rparr>"

theorem packet_time_is_lora_airtime_witness:
  "packet_time_ms slow_config 0 False = 664 \<and> packet_time_ms slow_config 256 False = 0 \<and>
   packet_time_ms slow_config 0 False \<le> packet_time_ms slow_config 255 True"
proof -
  have c: "rc_bandwidth_khz slow_config = Fin 125" "airtime_valid slow_config" "unat (rc_spreading_factor slow_config) = 12"
    "unat (rc_coding_rate slow_config) = 5" "unat (rc_preamble_length slow_config) = 8"
    by (simp_all add: slow_config_def eu868_default_def eu868_long_fast_def modem_presets airtime_valid_def is_finite_def)
  have hz: "unat (bandwidth_hz slow_config) = 125000"
    using packet_time_is_lora_airtime [of slow_config 0 False 125 125000 0 True] c(1) by simp
  have "packet_time_ms slow_config 0 False = of_nat (min (nat \<lceil>lora_airtime_ms 12 5 8 125 0\<rceil>) (2 ^ 32 - 1))"
    using packet_time_is_lora_airtime [of slow_config 0 False 125 125000 0 True] c hz by simp
  moreover have "\<lceil>lora_airtime_ms 12 5 8 125 0\<rceil> = 664" by (rule ceiling_unique) (simp_all add: lora_airtime_ms_def)
  ultimately have "packet_time_ms slow_config 0 False = 664" by simp
  then show ?thesis
    using packet_time_is_lora_airtime [of slow_config 256 False 125 125000 0 True]
      packet_time_is_lora_airtime [of slow_config 255 False 125 125000 0 True] by simp
qed

text \<open>
  The longest legal frame at the slowest preset takes 24396 ms.
\<close>

lemma longest_frame_airtime:
  "packet_time_ms (eu868_config_for_preset MODEM_VERY_LONG_SLOW) 255 False = 24396"
proof -
  let ?c = "eu868_config_for_preset MODEM_VERY_LONG_SLOW"
  have bw: "rc_bandwidth_khz ?c = Fin (125 / 2)" "rc_spreading_factor ?c = 12"
    "rc_coding_rate ?c = 8" "rc_preamble_length ?c = 16"
    by (simp_all add: eu868_config_for_preset_def modem_preset_params_def modem_presets
        PREAMBLE_LENGTH_def)
  have "f32_mul (Fin (125 / 2)) (Fin 1000) = Fin (of_int 62500)" by (rule f32_mul_exact) simp_all
  then have hz: "bandwidth_hz ?c = 62500"
    by (simp add: bandwidth_hz_def bw f32_to_word_def f32_to_nat_def)
  have v: "airtime_valid ?c" by (simp add: airtime_valid_def bw is_finite_def)
  have "airtime_nat ?c 255 = 24396"
    by (simp add: airtime_nat_def bw hz payload_symbols_of_def div_ceil_def)
  then show ?thesis using packet_time_airtime_nat [OF v, of 255] by simp
qed

end
