(* ===== verification/AirTime.thy ===== *)
theory AirTime
  imports RadioConfig
begin

text \<open>
  Channel occupancy and the duty cycle (\<open>airtime.rs\<close>): received and sent milliseconds in
  six buckets of ten seconds, sent milliseconds in sixty buckets of a minute, and the gate that
  stops transmission at half of the region's duty cycle. The lemmas show that the sixty buckets
  hold exactly what was sent in the current minute and the fifty-nine before it, and that in the
  EU 868 region the gate, for all its floating point, is the integer test
  \<open>sum < 180000 ms\<close>.
\<close>

section \<open>Model\<close>

definition CHANNEL_UTILIZATION_PERIODS :: nat where "CHANNEL_UTILIZATION_PERIODS = 6"
definition MINUTES_IN_HOUR :: nat where "MINUTES_IN_HOUR = 60"
definition MS_IN_HOUR :: u32 where "MS_IN_HOUR = 3600000"
definition MAX_FRAME_AIRTIME_MS :: u32 where "MAX_FRAME_AIRTIME_MS = 20000"

datatype airtime_log = LogTx | LogRx | LogRxAll

record air_time =
  at_region :: region_info
  at_seconds_since_boot :: u32
  at_channel_utilization :: "u32 list"
  at_utilization_tx :: "u32 list"
  at_last_util_period :: nat
  at_last_util_period_tx :: nat
  at_max_channel_util_percent :: u8
  at_polite_channel_util_percent :: u8
  at_polite_duty_cycle_percent :: u8

definition airtime_new :: "region_info \<Rightarrow> air_time" where
  "airtime_new region = \<lparr>at_region = region, at_seconds_since_boot = 0,
     at_channel_utilization = replicate CHANNEL_UTILIZATION_PERIODS 0,
     at_utilization_tx = replicate MINUTES_IN_HOUR 0,
     at_last_util_period = 0, at_last_util_period_tx = 0,
     at_max_channel_util_percent = 40, at_polite_channel_util_percent = 25,
     at_polite_duty_cycle_percent = 50\<rparr>"

definition period_util_minute :: "air_time \<Rightarrow> nat" where
  "period_util_minute a = unat (at_seconds_since_boot a div 10) mod CHANNEL_UTILIZATION_PERIODS"

definition period_util_hour :: "air_time \<Rightarrow> nat" where
  "period_util_hour a = unat (at_seconds_since_boot a div 60) mod MINUTES_IN_HOUR"

definition tick_second :: "air_time \<Rightarrow> air_time" where
  "tick_second a =
     (let a = a\<lparr>at_seconds_since_boot := sat_add (at_seconds_since_boot a) 1\<rparr>;
          util_period = period_util_minute a; util_period_tx = period_util_hour a;
          a = (if at_last_util_period a \<noteq> util_period
               then a\<lparr>at_last_util_period := util_period,
                      at_channel_utilization := (at_channel_utilization a)[util_period := 0]\<rparr>
               else a)
      in if at_last_util_period_tx a \<noteq> util_period_tx
         then a\<lparr>at_last_util_period_tx := util_period_tx,
                at_utilization_tx := (at_utilization_tx a)[util_period_tx := 0]\<rparr>
         else a)"

definition log_airtime :: "air_time \<Rightarrow> airtime_log \<Rightarrow> u32 \<Rightarrow> air_time" where
  "log_airtime a kind airtime_ms =
     (let airtime_ms = min airtime_ms MAX_FRAME_AIRTIME_MS;
          m = period_util_minute a; h = period_util_hour a;
          a = a\<lparr>at_channel_utilization := (at_channel_utilization a)
                [m := sat_add (at_channel_utilization a ! m) airtime_ms]\<rparr>
      in if kind = LogTx
         then a\<lparr>at_utilization_tx := (at_utilization_tx a)
                [h := sat_add (at_utilization_tx a ! h) airtime_ms]\<rparr>
         else a)"

definition log_tx_packet :: "air_time \<Rightarrow> radio_config \<Rightarrow> nat \<Rightarrow> air_time" where
  "log_tx_packet a config payload_len =
     log_airtime a LogTx (packet_time_ms config payload_len False)"

definition f32_scaled :: "nat \<Rightarrow> rat \<Rightarrow> f32" where
  "f32_scaled ms whole = f32_mul (f32_div (f32_of_nat ms) (Fin whole)) (Fin 100)"

text \<open>
  The constant divisor \<open>CHANNEL_UTILIZATION_PERIODS as f32 * 10.0 * 1000.0\<close> is the exactly
  representable 60000.
\<close>

definition channel_utilization_percent :: "air_time \<Rightarrow> f32" where
  "channel_utilization_percent a =
     f32_scaled (sum_list (map unat (at_channel_utilization a))) 60000"

definition utilization_tx_percent :: "air_time \<Rightarrow> f32" where
  "utilization_tx_percent a = f32_scaled (sum_list (map unat (at_utilization_tx a))) 3600000"

definition duty_cycle_limit_percent :: "air_time \<Rightarrow> f32" where
  "duty_cycle_limit_percent a =
     (if 100 \<le> ri_duty_cycle_percent (at_region a) then Fin 100
      else f32_div (f32_mul (f32_of_nat (unat (ri_duty_cycle_percent (at_region a))))
             (f32_of_nat (unat (at_polite_duty_cycle_percent a)))) (Fin 100))"

definition is_tx_allowed_duty_cycle :: "air_time \<Rightarrow> bool" where
  "is_tx_allowed_duty_cycle a \<longleftrightarrow>
     (if 100 \<le> ri_duty_cycle_percent (at_region a) then True
      else f32_less (utilization_tx_percent a) (duty_cycle_limit_percent a))"

definition is_tx_allowed_channel_util :: "air_time \<Rightarrow> bool \<Rightarrow> bool" where
  "is_tx_allowed_channel_util a polite \<longleftrightarrow>
     (let pct = (if polite then at_polite_channel_util_percent a else at_max_channel_util_percent a)
      in f32_less (channel_utilization_percent a) (f32_of_nat (unat pct)))"

section \<open>The gate in integers\<close>

definition scaled :: "nat \<Rightarrow> rat \<Rightarrow> rat" where
  "scaled n w = rnd (rnd (rnd (of_nat n) / w) * 100)"

lemma scaled_mono: "m \<le> n \<Longrightarrow> 0 < w \<Longrightarrow> scaled m w \<le> scaled n w"
  unfolding scaled_def
  by (intro rnd_mono mult_right_mono divide_right_mono) simp_all

lemma f32_scaled_Fin:
  assumes "n \<le> 2 ^ 38" "1 \<le> w"
  shows "f32_scaled n w = Fin (scaled n w)"
proof -
  have n: "rat_of_nat n \<le> 2 ^ 38"
    using assms(1) by (metis of_nat_le_iff of_nat_numeral of_nat_power)
  have a: "round32 (of_nat n) = Fin (rnd (of_nat n))" "0 \<le> rnd (rat_of_nat n)"
    "rnd (rat_of_nat n) \<le> 2 ^ 38"
    using n round32_Fin [of "of_nat n" 38] rnd_le_pow2 [OF n] by (simp_all add: rnd_pos)
  define x where "x = rnd (rat_of_nat n) / w"
  have x: "0 \<le> x" "x \<le> 2 ^ 38"
  proof -
    show "0 \<le> x" using a(2) assms(2) by (simp add: x_def)
    have "x \<le> rnd (rat_of_nat n) / 1" unfolding x_def
      by (rule divide_left_mono) (use a(2) assms(2) in auto)
    then show "x \<le> 2 ^ 38" using a(3) by simp
  qed
  have b: "round32 x = Fin (rnd x)" "0 \<le> rnd x" "rnd x \<le> 2 ^ 38"
    using x round32_Fin [of x 38] rnd_le_pow2 [OF x(2)] by (simp_all add: rnd_pos)
  have "rnd x * 100 \<le> 2 ^ 38 * 2 ^ 7" using b by (intro mult_mono) simp_all
  then have c: "round32 (rnd x * 100) = Fin (rnd (rnd x * 100))"
    using b(2) by (intro round32_Fin [of _ 45]) (simp_all flip: power_add)
  show ?thesis
    using assms(2) a(1) b(1) c
    by (simp add: f32_scaled_def f32_of_nat_def scaled_def x_def)
qed

lemma scaled_tx_below: "scaled 179999 3600000 < 5"
proof -
  have "rne (377485262848 / 28125) = 13421698" "rne (167771225 / 16) = 10485702"
    by (rule rne_eval; simp)+
  then have "rnd (179999 / 3600000) = 6710849 / 134217728"
      "rnd (6710849 / 134217728 * 100) = 5242851 / 1048576"
    by (subst rnd_eval [of "- 5"] rnd_eval [of 2]; simp add: power_int_minus)+
  note r = this
  have n: "rnd (of_nat 179999) = 179999" using rnd_int [of 179999] by simp
  show ?thesis unfolding scaled_def n r by simp
qed

lemma scaled_tx_at: "scaled 180000 3600000 = 5"
proof -
  have "rne (67108864 / 5) = 13421773" "rne (335544325 / 32) = 10485760"
    by (rule rne_eval; simp)+
  then have "rnd (1 / 20) = 13421773 / 268435456" "rnd (13421773 / 268435456 * 100) = 5"
    by (subst rnd_eval [of "- 5"] rnd_eval [of 2]; simp add: power_int_minus)+
  note r = this
  have n: "rnd (of_nat 180000) = 180000" using rnd_int [of 180000] by simp
  have q: "(180000 / 3600000 :: rat) = 1 / 20" by simp
  show ?thesis unfolding scaled_def n q r ..
qed

lemma duty_cycle_limit_eu868:
  assumes "at_region a = EU_868" "at_polite_duty_cycle_percent a = 50"
  shows "duty_cycle_limit_percent a = Fin 5"
proof -
  have ex: "round32 (of_int n) = Fin (of_int n)" if "0 \<le> n" "n \<le> 2 ^ 24" for n
    using f32_mul_exact [of n "of_int n" 1] that by simp
  have "f32_of_nat 10 = Fin 10" "f32_of_nat 50 = Fin 50" "round32 500 = Fin 500" "round32 5 = Fin 5"
    using ex [of 10] ex [of 50] ex [of 500] ex [of 5] by (simp_all add: f32_of_nat_def)
  then show ?thesis
    using assms by (simp add: duty_cycle_limit_percent_def EU_868_def)
qed

section \<open>The buckets as a sliding window\<close>

text \<open>What happens to the counters: a tick of the clock, or a frame charged to them.\<close>

datatype air_event = Tick | Charge airtime_log u32

fun air_step :: "air_event \<Rightarrow> air_time \<Rightarrow> air_time" where
  "air_step Tick a = tick_second a"
| "air_step (Charge kind ms) a = log_airtime a kind ms"

text \<open>The sent frames of a run with the second each was charged in, oldest first.\<close>

fun tx_charges :: "nat \<Rightarrow> air_event list \<Rightarrow> (nat \<times> nat) list" where
  "tx_charges now [] = []"
| "tx_charges now (Tick # es) = tx_charges (Suc now) es"
| "tx_charges now (Charge kind ms # es) =
     (if kind = LogTx then (now, min (unat ms) 20000) # tx_charges now es else tx_charges now es)"

definition ticks :: "air_event list \<Rightarrow> nat" where
  "ticks es = length (filter (\<lambda>e. e = Tick) es)"

definition charged_where :: "(nat \<Rightarrow> bool) \<Rightarrow> (nat \<times> nat) list \<Rightarrow> nat" where
  "charged_where P cs = sum_list (map snd (filter (\<lambda>c. P (fst c div 60)) cs))"

text \<open>Bucket \<open>m\<close> holds the charges of the one minute of the last sixty that is \<open>m\<close> modulo 60.\<close>

definition window_inv :: "nat \<Rightarrow> (nat \<times> nat) list \<Rightarrow> air_time \<Rightarrow> bool" where
  "window_inv now cs a \<longleftrightarrow> unat (at_seconds_since_boot a) = now \<and>
     length (at_utilization_tx a) = MINUTES_IN_HOUR \<and>
     at_last_util_period_tx a = (now div 60) mod 60 \<and>
     (\<forall>c \<in> set cs. fst c \<le> now) \<and>
     (\<forall>m < 60. unat (at_utilization_tx a ! m) =
        charged_where (\<lambda>t. t mod 60 = m \<and> now div 60 < t + 60) cs)"

lemma charged_where_append: "charged_where P (cs @ ds) = charged_where P cs + charged_where P ds"
  by (simp add: charged_where_def)

lemma charged_where_cong:
  "(\<And>c. c \<in> set cs \<Longrightarrow> P (fst c div 60) = Q (fst c div 60)) \<Longrightarrow> charged_where P cs = charged_where Q cs"
  by (auto simp: charged_where_def intro!: arg_cong [of _ _ sum_list] arg_cong [of _ _ "map snd"] filter_cong)

lemma charged_where_le: "charged_where P cs \<le> sum_list (map snd cs)"
  by (induction cs) (auto simp: charged_where_def)

lemma window_tick:
  assumes "window_inv now cs a" "now + 1 < 2 ^ 32"
  shows "window_inv (now + 1) cs (tick_second a)"
proof -
  let ?a = "tick_second a"
  have sec: "unat (sat_add (at_seconds_since_boot a) 1) = now + 1"
    using assms by (simp add: rust_arith window_inv_def)
  have hour: "unat (sat_add (at_seconds_since_boot a) 1 div 60) mod 60 = ((now + 1) div 60) mod 60"
    using sec by (simp add: unat_div)
  define h where "h = ((now + 1) div 60) mod 60"
  have tx: "at_utilization_tx ?a = (if (now div 60) mod 60 \<noteq> h
      then (at_utilization_tx a)[h := 0] else at_utilization_tx a)"
    "at_seconds_since_boot ?a = sat_add (at_seconds_since_boot a) 1" "at_last_util_period_tx ?a = h"
    using assms(1) hour
    by (auto simp: tick_second_def Let_def period_util_hour_def window_inv_def h_def MINUTES_IN_HOUR_def)
  have bucket: "unat (at_utilization_tx ?a ! m) =
      charged_where (\<lambda>t. t mod 60 = m \<and> (now + 1) div 60 < t + 60) cs" if m: "m < 60" for m
  proof -
    have len: "length (at_utilization_tx a) = 60" using assms(1) by (simp add: window_inv_def MINUTES_IN_HOUR_def)
    have old: "unat (at_utilization_tx a ! m) =
        charged_where (\<lambda>t. t mod 60 = m \<and> now div 60 < t + 60) cs"
      using assms(1) m by (simp add: window_inv_def)
    have le: "fst c div 60 \<le> now div 60" if "c \<in> set cs" for c
      using assms(1) that by (auto simp: window_inv_def intro: div_le_mono)
    show ?thesis
    proof (cases "(now + 1) div 60 = now div 60")
      case True
      then have "at_utilization_tx ?a = at_utilization_tx a" by (simp add: tx h_def)
      with old True show ?thesis by simp
    next
      case False
      then have nx: "(now + 1) div 60 = now div 60 + 1" by (simp add: div_Suc split: if_splits)
      then have "(now div 60) mod 60 \<noteq> h" unfolding h_def by (simp add: mod_Suc)
      then have upd: "at_utilization_tx ?a = (at_utilization_tx a)[h := 0]" by (simp add: tx)
      show ?thesis
      proof (cases "m = h")
        case True
        have "\<not> (t mod 60 = h \<and> (now + 1) div 60 < t + 60)" if "t \<le> now div 60" for t
        proof
          assume "t mod 60 = h \<and> (now + 1) div 60 < t + 60"
          then have eq: "(now div 60 + 1) mod 60 = t mod 60" and lt: "now div 60 + 1 < t + 60"
            using nx by (simp_all add: h_def)
          have "60 dvd now div 60 + 1 - t"
            using eq that by (subst mod_eq_dvd_iff_nat [symmetric]) simp_all
          then have "60 \<le> now div 60 + 1 - t" using that by (intro dvd_imp_le) simp_all
          then show False using lt by simp
        qed
        then have "charged_where (\<lambda>t. t mod 60 = m \<and> (now + 1) div 60 < t + 60) cs = 0"
          using le True by (simp add: charged_where_def filter_False)
        moreover have "h < 60" by (simp add: h_def)
        ultimately show ?thesis using True len by (simp add: upd)
      next
        case ne: False
        have "(t mod 60 = m \<and> now div 60 < t + 60) = (t mod 60 = m \<and> (now + 1) div 60 < t + 60)"
          if "t \<le> now div 60" for t
        proof -
          have "t mod 60 \<noteq> m" if "now div 60 = t + 59"
            using that ne nx by (auto simp: h_def)
          moreover have "now div 60 < t + 60 \<longleftrightarrow> now div 60 + 1 < t + 60 \<or> now div 60 = t + 59"
            by linarith
          ultimately show ?thesis using nx by auto
        qed
        then have "charged_where (\<lambda>t. t mod 60 = m \<and> now div 60 < t + 60) cs =
            charged_where (\<lambda>t. t mod 60 = m \<and> (now + 1) div 60 < t + 60) cs"
          by (intro charged_where_cong) (use le in blast)
        then show ?thesis using old ne by (simp add: upd)
      qed
    qed
  qed
  show ?thesis
    using assms(1) sec tx bucket by (auto simp: window_inv_def h_def)
qed

lemma window_charge:
  assumes "window_inv now cs a" "sum_list (map snd cs) + 20000 < 2 ^ 32"
  shows "window_inv now (cs @ (if kind = LogTx then [(now, min (unat ms) 20000)] else []))
    (log_airtime a kind ms)"
proof (cases "kind = LogTx")
  case False
  then show ?thesis using assms(1) by (simp add: log_airtime_def Let_def window_inv_def)
next
  case True
  let ?h = "(now div 60) mod 60"
  have h: "period_util_hour a = ?h"
    using assms(1) by (simp add: period_util_hour_def unat_div window_inv_def MINUTES_IN_HOUR_def)
  have ms: "unat (min ms MAX_FRAME_AIRTIME_MS) = min (unat ms) 20000"
    by (auto simp: min_def word_le_nat_alt MAX_FRAME_AIRTIME_MS_def)
  have tx: "at_utilization_tx (log_airtime a kind ms) = (at_utilization_tx a)
      [?h := sat_add (at_utilization_tx a ! ?h) (min ms MAX_FRAME_AIRTIME_MS)]"
    using True h by (simp add: log_airtime_def Let_def)
  have same: "at_seconds_since_boot (log_airtime a kind ms) = at_seconds_since_boot a"
    "at_last_util_period_tx (log_airtime a kind ms) = at_last_util_period_tx a"
    by (simp_all add: log_airtime_def Let_def)
  have len: "length (at_utilization_tx a) = 60"
    using assms(1) by (simp add: window_inv_def MINUTES_IN_HOUR_def)
  have "unat (at_utilization_tx (log_airtime a kind ms) ! m) =
      charged_where (\<lambda>t. t mod 60 = m \<and> now div 60 < t + 60) (cs @ [(now, min (unat ms) 20000)])"
    if m: "m < 60" for m
  proof -
    have old: "unat (at_utilization_tx a ! m) =
        charged_where (\<lambda>t. t mod 60 = m \<and> now div 60 < t + 60) cs"
      using assms(1) m by (simp add: window_inv_def)
    have one: "charged_where (\<lambda>t. t mod 60 = m \<and> now div 60 < t + 60) [(now, x)] =
        (if m = ?h then x else 0)" for x
      by (auto simp: charged_where_def)
    show ?thesis
    proof (cases "m = ?h")
      case True
      have "unat (at_utilization_tx a ! m) + min (unat ms) 20000 < 2 ^ 32"
        using old assms(2) charged_where_le [of "\<lambda>t. t mod 60 = m \<and> now div 60 < t + 60" cs] by linarith
      then have "unat (sat_add (at_utilization_tx a ! m) (min ms MAX_FRAME_AIRTIME_MS)) =
          unat (at_utilization_tx a ! m) + min (unat ms) 20000"
        by (simp add: rust_arith ms)
      moreover have "at_utilization_tx (log_airtime a kind ms) ! m =
          sat_add (at_utilization_tx a ! m) (min ms MAX_FRAME_AIRTIME_MS)"
        using True m len by (simp add: tx)
      ultimately show ?thesis using True unfolding charged_where_append one old by simp
    next
      case False
      then show ?thesis using old by (simp add: tx charged_where_append one)
    qed
  qed
  then show ?thesis
    using assms(1) True same tx by (auto simp: window_inv_def)
qed

lemma window_run:
  assumes "window_inv now cs a" "now + ticks es < 2 ^ 32"
    "sum_list (map snd (cs @ tx_charges now es)) + 20000 < 2 ^ 32"
  shows "window_inv (now + ticks es) (cs @ tx_charges now es) (fold air_step es a)"
  using assms
proof (induction now es arbitrary: cs a rule: tx_charges.induct)
  case (2 now es)
  then have "window_inv (Suc now) cs (tick_second a)"
    using window_tick [of now cs a] by (simp add: ticks_def)
  with 2 show ?case by (simp add: ticks_def)
next
  case (3 now kind ms es)
  let ?new = "if kind = LogTx then [(now, min (unat ms) 20000)] else []"
  have step: "tx_charges now (Charge kind ms # es) = ?new @ tx_charges now es" by simp
  have "window_inv now (cs @ ?new) (log_airtime a kind ms)"
    using "3.prems" by (intro window_charge) (auto split: if_splits)
  moreover have "ticks (Charge kind ms # es) = ticks es" by (simp add: ticks_def)
  moreover have "sum_list (map snd ((cs @ ?new) @ tx_charges now es)) + 20000 < 2 ^ 32"
    using "3.prems"(3) unfolding step by simp
  ultimately have "window_inv (now + ticks es) ((cs @ ?new) @ tx_charges now es)
      (fold air_step es (log_airtime a kind ms))"
    using "3.prems"(2) by (cases "kind = LogTx") (simp_all add: "3.IH" del: append_assoc)
  then show ?case unfolding step by (simp add: ticks_def)
qed (simp add: ticks_def)

lemma charged_where_split:
  "finite M \<Longrightarrow> (\<Sum>m \<in> M. charged_where (\<lambda>t. t mod 60 = m \<and> P t) cs) =
   charged_where (\<lambda>t. t mod 60 \<in> M \<and> P t) cs"
proof (induction cs)
  case (Cons c cs)
  have cons: "charged_where Q (c # cs) = (if Q (fst c div 60) then snd c else 0) + charged_where Q cs" for Q
    by (simp add: charged_where_def)
  have "(\<Sum>m \<in> M. if fst c div 60 mod 60 = m \<and> P (fst c div 60) then snd c else 0) =
      (if fst c div 60 mod 60 \<in> M \<and> P (fst c div 60) then snd c else 0)"
    using Cons.prems by (cases "P (fst c div 60)") (simp_all add: sum.delta')
  then show ?case using Cons by (simp add: cons sum.distrib)
qed (simp add: charged_where_def)

lemma window_total:
  assumes "window_inv now cs a"
  shows "sum_list (map unat (at_utilization_tx a)) = charged_where (\<lambda>t. now div 60 < t + 60) cs"
proof -
  have len: "length (at_utilization_tx a) = 60"
    using assms by (simp add: window_inv_def MINUTES_IN_HOUR_def)
  have "sum_list (map unat (at_utilization_tx a)) = (\<Sum>m < 60. unat (at_utilization_tx a ! m))"
    using len by (simp add: sum_list_sum_nth atLeast0LessThan)
  also have "\<dots> = (\<Sum>m \<in> {..<60}. charged_where (\<lambda>t. t mod 60 = m \<and> now div 60 < t + 60) cs)"
    using assms by (intro sum.cong) (auto simp: window_inv_def)
  also have "\<dots> = charged_where (\<lambda>t. now div 60 < t + 60) cs"
    by (simp add: charged_where_split)
  finally show ?thesis .
qed

section \<open>Properties\<close>

text \<open>
  C19. The floating point gate is the integer duty cycle: in the EU 868 region transmission is
  allowed exactly while the minute buckets hold less than 180000 ms, five percent of an hour.
\<close>

theorem duty_cycle_gate_exact:
  assumes "at_region a = EU_868" "at_polite_duty_cycle_percent a = 50"
    "length (at_utilization_tx a) = MINUTES_IN_HOUR"
  shows "is_tx_allowed_duty_cycle a \<longleftrightarrow> sum_list (map unat (at_utilization_tx a)) < 180000"
proof -
  let ?n = "sum_list (map unat (at_utilization_tx a))"
  have small: "sum_list (map unat xs) \<le> length xs * 2 ^ 32" for xs :: "u32 list"
  proof (induction xs)
    case (Cons x xs)
    have "unat x < 2 ^ 32" using unsigned_less [of x, where 'a = nat] by simp
    with Cons show ?case by simp
  qed simp
  have "?n \<le> 60 * 2 ^ 32" using small [of "at_utilization_tx a"] assms(3) by (simp add: MINUTES_IN_HOUR_def)
  then have n: "?n \<le> 2 ^ 38" by simp
  have "is_tx_allowed_duty_cycle a \<longleftrightarrow> scaled ?n 3600000 < 5"
    using assms(1) f32_scaled_Fin [OF n, of 3600000] duty_cycle_limit_eu868 [OF assms(1,2)]
    by (simp add: is_tx_allowed_duty_cycle_def utilization_tx_percent_def EU_868_def)
  also have "\<dots> \<longleftrightarrow> ?n < 180000"
    using scaled_mono [of ?n 179999 3600000] scaled_mono [of 180000 ?n 3600000]
      scaled_tx_below scaled_tx_at
    by (cases "?n < 180000") auto
  finally show ?thesis .
qed

theorem duty_cycle_gate_exact_witness:
  "is_tx_allowed_duty_cycle (airtime_new EU_868)"
  using duty_cycle_gate_exact [of "airtime_new EU_868"]
  by (simp add: airtime_new_def MINUTES_IN_HOUR_def sum_list_replicate)

text \<open>
  C13. The duty cycle is a rolling one: after any run of ticks and charges of a new counter in
  the EU 868 region, transmission is allowed exactly when the frames sent in the current minute
  and the fifty-nine before it took less than 180000 ms in total (each counted with at most
  20000 ms).
\<close>

theorem duty_cycle_rolling_hour:
  assumes "ticks es < 2 ^ 32" "sum_list (map snd (tx_charges 0 es)) + 20000 < 2 ^ 32"
  shows "is_tx_allowed_duty_cycle (fold air_step es (airtime_new EU_868)) \<longleftrightarrow>
    charged_where (\<lambda>minute. ticks es div 60 < minute + 60) (tx_charges 0 es) < 180000"
proof -
  let ?a = "fold air_step es (airtime_new EU_868)"
  have "window_inv 0 [] (airtime_new EU_868)"
    by (simp add: window_inv_def airtime_new_def charged_where_def MINUTES_IN_HOUR_def)
  then have w: "window_inv (ticks es) (tx_charges 0 es) ?a"
    using window_run [of 0 "[]" "airtime_new EU_868" es] assms by simp
  have step: "at_region (air_step e a) = at_region a \<and>
      at_polite_duty_cycle_percent (air_step e a) = at_polite_duty_cycle_percent a" for e a
    by (cases e) (simp_all add: tick_second_def log_airtime_def Let_def)
  have "at_region ?a = EU_868 \<and> at_polite_duty_cycle_percent ?a = 50"
  proof -
    have "at_region (fold air_step es a) = at_region a \<and>
        at_polite_duty_cycle_percent (fold air_step es a) = at_polite_duty_cycle_percent a" for a
      by (induction es arbitrary: a) (simp_all add: step)
    then show ?thesis by (simp add: airtime_new_def)
  qed
  then show ?thesis
    using duty_cycle_gate_exact [of ?a] w window_total [OF w] by (simp add: window_inv_def)
qed

theorem duty_cycle_rolling_hour_witness:
  "is_tx_allowed_duty_cycle (fold air_step [Charge LogTx 15000, Tick] (airtime_new EU_868))"
  using duty_cycle_rolling_hour [of "[Charge LogTx 15000, Tick]"]
  by (simp add: ticks_def charged_where_def)

text \<open>
  The cap on one frame is below the longest legal frame: at the slowest preset a frame of 255
  bytes takes 24396 ms and is charged with 20000.
\<close>

theorem longest_frame_undercharged:
  "MAX_FRAME_AIRTIME_MS < packet_time_ms (eu868_config_for_preset MODEM_VERY_LONG_SLOW) 255 False"
  by (simp add: longest_frame_airtime MAX_FRAME_AIRTIME_MS_def)

end
