(* ===== verification/RadioQueue.thy ===== *)
theory RadioQueue
  imports RadioConfig Wire
begin

text \<open>
  Frames and the receive and transmit queues of a radio (\<open>frame.rs\<close>, \<open>queue.rs\<close>). Both
  queues are rings over an array of constant size with the same push and pop; the transmit
  queue can also take a frame back at its front and drop frames in place. The locale
  \<open>bounded_fifo\<close> is their contract against lists; the ring implements it for frames of
  either kind.
\<close>

section \<open>Frames\<close>

definition MAX_RADIOS :: nat where "MAX_RADIOS = 2"
definition MAX_BRIDGE_TARGETS :: nat where "MAX_BRIDGE_TARGETS = MAX_RADIOS - 1"
definition MAX_LORA_PAYLOAD :: nat where "MAX_LORA_PAYLOAD = 255"

record rx_frame =
  rf_radio_id :: u8
  rf_rssi :: int
  rf_snr :: int
  rf_len :: u8
  rf_bytes :: "u8 list"

record tx_frame =
  tf_radio_id :: u8
  tf_len :: u8
  tf_bytes :: "u8 list"

definition rx_frame_empty :: "u8 \<Rightarrow> rx_frame" where
  "rx_frame_empty radio_id = \<lparr>rf_radio_id = radio_id, rf_rssi = 0, rf_snr = 0, rf_len = 0,
     rf_bytes = replicate MAX_LORA_PAYLOAD 0\<rparr>"

definition rx_payload :: "rx_frame \<Rightarrow> u8 list" where
  "rx_payload f = take (unat (rf_len f)) (rf_bytes f)"

definition rx_header :: "rx_frame \<Rightarrow> u8 list option" where
  "rx_header f =
     (if PACKET_HEADER_LEN \<le> unat (rf_len f) then Some (take PACKET_HEADER_LEN (rf_bytes f)) else None)"

definition tx_frame_new :: "u8 \<Rightarrow> u8 list \<Rightarrow> tx_frame option" where
  "tx_frame_new radio_id data =
     (if MAX_LORA_PAYLOAD < length data then None
      else Some \<lparr>tf_radio_id = radio_id, tf_len = of_nat (length data),
                 tf_bytes = data @ replicate (MAX_LORA_PAYLOAD - length data) 0\<rparr>)"

definition tx_payload :: "tx_frame \<Rightarrow> u8 list" where
  "tx_payload f = take (unat (tf_len f)) (tf_bytes f)"

lemma tx_payload_new: "tx_frame_new r data = Some f \<Longrightarrow> tx_payload f = data \<and> tf_radio_id f = r"
  by (auto simp: tx_frame_new_def tx_payload_def MAX_LORA_PAYLOAD_def unsigned_of_nat
      take_bit_nat_eq_self split: if_splits)

section \<open>Rings\<close>

definition DEFAULT_RX_QUEUE :: nat where "DEFAULT_RX_QUEUE = 4"
definition DEFAULT_TX_QUEUE :: nat where "DEFAULT_TX_QUEUE = 4"

datatype queue_error = QueueFull | QueueEmpty

text \<open>The array has the length \<open>N\<close> of the type; \<open>N\<close> is read off it.\<close>

record 'f ring =
  rq_buf :: "'f list"
  rq_head :: nat
  rq_tail :: nat
  rq_len :: nat

abbreviation rq_cap :: "'f ring \<Rightarrow> nat" where "rq_cap q \<equiv> length (rq_buf q)"

type_synonym rx_queue = "rx_frame ring"
type_synonym tx_queue = "tx_frame ring"

definition rx_queue_new :: "nat \<Rightarrow> rx_queue" where
  "rx_queue_new n = \<lparr>rq_buf = replicate n (rx_frame_empty 0), rq_head = 0, rq_tail = 0, rq_len = 0\<rparr>"

definition tx_queue_new :: "nat \<Rightarrow> tx_queue" where
  "tx_queue_new n = \<lparr>rq_buf = replicate n \<lparr>tf_radio_id = 0, tf_len = 0,
     tf_bytes = replicate MAX_LORA_PAYLOAD 0\<rparr>, rq_head = 0, rq_tail = 0, rq_len = 0\<rparr>"

definition ring_push :: "'f ring \<Rightarrow> 'f \<Rightarrow> queue_error + 'f ring" where
  "ring_push q frame =
     (if rq_len q = rq_cap q then Inl QueueFull
      else Inr (q\<lparr>rq_buf := (rq_buf q)[rq_tail q := frame],
                  rq_tail := (rq_tail q + 1) mod rq_cap q, rq_len := rq_len q + 1\<rparr>))"

definition ring_pop :: "'f ring \<Rightarrow> queue_error + ('f \<times> 'f ring)" where
  "ring_pop q =
     (if rq_len q = 0 then Inl QueueEmpty
      else Inr (rq_buf q ! rq_head q,
                q\<lparr>rq_head := (rq_head q + 1) mod rq_cap q, rq_len := rq_len q - 1\<rparr>))"

definition rx_push :: "rx_queue \<Rightarrow> rx_frame \<Rightarrow> queue_error + rx_queue" where
  "rx_push q frame = ring_push q frame"

definition rx_pop :: "rx_queue \<Rightarrow> queue_error + (rx_frame \<times> rx_queue)" where
  "rx_pop q = ring_pop q"

definition tx_push :: "tx_queue \<Rightarrow> tx_frame \<Rightarrow> queue_error + tx_queue" where
  "tx_push q frame = ring_push q frame"

definition tx_pop :: "tx_queue \<Rightarrow> queue_error + (tx_frame \<times> tx_queue)" where
  "tx_pop q = ring_pop q"

definition tx_is_full :: "tx_queue \<Rightarrow> bool" where
  "tx_is_full q \<longleftrightarrow> rq_len q = rq_cap q"

definition tx_front :: "tx_queue \<Rightarrow> tx_frame option" where
  "tx_front q = (if rq_len q = 0 then None else Some (rq_buf q ! rq_head q))"

definition tx_push_front :: "tx_queue \<Rightarrow> tx_frame \<Rightarrow> queue_error + tx_queue" where
  "tx_push_front q frame =
     (if rq_len q = rq_cap q then Inl QueueFull
      else let head = (rq_head q + rq_cap q - 1) mod rq_cap q in
        Inr (q\<lparr>rq_head := head, rq_buf := (rq_buf q)[head := frame], rq_len := rq_len q + 1\<rparr>))"

text \<open>The compaction loop, over the read positions still to come.\<close>

fun remove_loop :: "('f \<Rightarrow> bool) \<Rightarrow> nat \<Rightarrow> nat list \<Rightarrow> 'f list \<Rightarrow> nat \<Rightarrow> nat \<Rightarrow> 'f list \<times> nat \<times> nat" where
  "remove_loop drp head [] buf write_at removed = (buf, write_at, removed)"
| "remove_loop drp head (read # rs) buf write_at removed =
     (let src = (head + read) mod length buf in
      if drp (buf ! src) then remove_loop drp head rs buf write_at (removed + 1)
      else
        let dst = (head + write_at) mod length buf;
            buf = (if write_at \<noteq> read then buf[dst := buf ! src] else buf)
        in remove_loop drp head rs buf (write_at + 1) removed)"

definition remove_where :: "(tx_frame \<Rightarrow> bool) \<Rightarrow> tx_queue \<Rightarrow> tx_queue \<times> nat" where
  "remove_where drp q =
     (case remove_loop drp (rq_head q) [0..<rq_len q] (rq_buf q) 0 0 of
        (buf, write_at, removed) \<Rightarrow>
          let q = q\<lparr>rq_buf := buf\<rparr> in
          (if 0 < removed
           then q\<lparr>rq_tail := (rq_head q + write_at) mod rq_cap q, rq_len := write_at\<rparr>
           else q, removed))"

section \<open>Abstraction to lists\<close>

definition ring_view :: "'f list \<Rightarrow> nat \<Rightarrow> nat \<Rightarrow> 'f" where
  "ring_view buf head k = buf ! ((head + k) mod length buf)"

definition ring_list :: "'f ring \<Rightarrow> 'f list" where
  "ring_list q = map (ring_view (rq_buf q) (rq_head q)) [0..<rq_len q]"

definition ring_inv :: "'f ring \<Rightarrow> bool" where
  "ring_inv q \<longleftrightarrow> 0 < rq_cap q \<and> rq_head q < rq_cap q \<and> rq_len q \<le> rq_cap q \<and>
     rq_tail q = (rq_head q + rq_len q) mod rq_cap q"

lemma mod_add_inj:
  assumes "j < n" "k < n" "(h + j) mod n = (h + k) mod n"
  shows "j = (k::nat)"
proof -
  have "i \<le> l \<Longrightarrow> l < n \<Longrightarrow> (h + l) mod n = (h + i) mod n \<Longrightarrow> i = l" for i l
  proof -
    assume "i \<le> l" "l < n" "(h + l) mod n = (h + i) mod n"
    then have "n dvd l - i" by (simp add: mod_eq_dvd_iff_nat)
    then show "i = l" using \<open>l < n\<close> \<open>i \<le> l\<close> by (auto dest: dvd_imp_le)
  qed
  from this [of j k] this [of k j] show ?thesis using assms by (cases "j \<le> k") auto
qed

lemma ring_view_update:
  assumes "j < length buf" "k < length buf"
  shows "ring_view (buf[(h + j) mod length buf := f]) h k = (if k = j then f else ring_view buf h k)"
proof -
  have "(h + j) mod length buf < length buf"
    using assms(1) by (intro mod_less_divisor) (rule le_less_trans [OF le0])
  then show ?thesis
    using mod_add_inj [OF assms(2,1), of h] by (auto simp: ring_view_def nth_list_update)
qed

lemma length_ring_list: "length (ring_list q) = rq_len q"
  by (simp add: ring_list_def)

lemma ring_push_list:
  assumes "ring_inv q"
  shows "ring_push q f = (if rq_len q = rq_cap q then Inl QueueFull
      else Inr (projr (ring_push q f)))"
    and "rq_len q < rq_cap q \<Longrightarrow> ring_inv (projr (ring_push q f)) \<and>
      ring_list (projr (ring_push q f)) = ring_list q @ [f] \<and>
      rq_cap (projr (ring_push q f)) = rq_cap q"
proof -
  show "ring_push q f = (if rq_len q = rq_cap q then Inl QueueFull else Inr (projr (ring_push q f)))"
    by (simp add: ring_push_def)
  assume room: "rq_len q < rq_cap q"
  have view: "ring_view ((rq_buf q)[rq_tail q := f]) (rq_head q) k =
      (if k = rq_len q then f else ring_view (rq_buf q) (rq_head q) k)" if "k \<le> rq_len q" for k
    using ring_view_update [of "rq_len q" "rq_buf q" k "rq_head q" f] that room assms
    by (simp add: ring_inv_def)
  have "ring_list (projr (ring_push q f)) = ring_list q @ [f]"
    using room by (auto simp: ring_push_def ring_list_def view)
  then show "ring_inv (projr (ring_push q f)) \<and>
      ring_list (projr (ring_push q f)) = ring_list q @ [f] \<and>
      rq_cap (projr (ring_push q f)) = rq_cap q"
    using room assms by (simp add: ring_push_def ring_inv_def mod_Suc_eq)
qed

lemma ring_view_shift:
  "ring_view buf ((h + 1) mod length buf) k = ring_view buf h (Suc k)"
  by (simp add: ring_view_def mod_add_left_eq)

lemma ring_pop_list:
  assumes "ring_inv q"
  shows "ring_pop q = (case ring_list q of [] \<Rightarrow> Inl QueueEmpty
      | f # fs \<Rightarrow> Inr (f, snd (projr (ring_pop q))))"
    and "ring_list q = f # fs \<Longrightarrow> ring_inv (snd (projr (ring_pop q))) \<and>
      ring_list (snd (projr (ring_pop q))) = fs \<and> rq_cap (snd (projr (ring_pop q))) = rq_cap q"
proof -
  have cons: "ring_list q = rq_buf q ! rq_head q # map (\<lambda>k. ring_view (rq_buf q) (rq_head q) (Suc k))
      [0..<rq_len q - 1]" if "rq_len q \<noteq> 0"
  proof -
    have "[0..<rq_len q] = 0 # map Suc [0..<rq_len q - 1]"
      using that by (cases "rq_len q") (simp_all add: map_Suc_upt upt_conv_Cons)
    then show ?thesis
      using assms by (simp add: ring_list_def ring_view_def ring_inv_def comp_def)
  qed
  show "ring_pop q = (case ring_list q of [] \<Rightarrow> Inl QueueEmpty
      | f # fs \<Rightarrow> Inr (f, snd (projr (ring_pop q))))"
    using cons by (cases "rq_len q = 0") (simp_all add: ring_pop_def ring_list_def)
  assume "ring_list q = f # fs"
  then have ne: "rq_len q \<noteq> 0" using length_ring_list [of q] by auto
  with cons \<open>ring_list q = f # fs\<close>
  have fs: "fs = map (\<lambda>k. ring_view (rq_buf q) (rq_head q) (Suc k)) [0..<rq_len q - 1]" by simp
  have "(rq_head q + 1 + (rq_len q - 1)) mod rq_cap q = ((rq_head q + 1) mod rq_cap q + (rq_len q - 1)) mod rq_cap q"
    by (simp only: mod_add_left_eq)
  then show "ring_inv (snd (projr (ring_pop q))) \<and>
      ring_list (snd (projr (ring_pop q))) = fs \<and> rq_cap (snd (projr (ring_pop q))) = rq_cap q"
    using ne assms ring_view_shift [of "rq_buf q" "rq_head q"]
    by (auto simp: ring_pop_def ring_inv_def ring_list_def fs)
qed

lemma tx_push_front_list:
  assumes "ring_inv q" "rq_len q < rq_cap q"
  shows "\<exists>q'. tx_push_front q f = Inr q' \<and> ring_inv q' \<and> ring_list q' = f # ring_list q \<and>
    rq_cap q' = rq_cap q"
proof -
  define h where "h = (rq_head q + rq_cap q - 1) mod rq_cap q"
  let ?q = "q\<lparr>rq_head := h, rq_buf := (rq_buf q)[h := f], rq_len := rq_len q + 1\<rparr>"
  have n: "0 < rq_cap q" using assms(2) by (rule le_less_trans [OF le0])
  have wrap: "(h + 1) mod rq_cap q = rq_head q"
    using assms(1) n by (simp add: h_def ring_inv_def mod_simps)
  have hl: "h < rq_cap q" using n by (simp add: h_def)
  have shift: "ring_view (rq_buf q) h (Suc k) = ring_view (rq_buf q) (rq_head q) k" for k
    using ring_view_shift [of "rq_buf q" h k] wrap by simp
  have view: "ring_view ((rq_buf q)[h := f]) h k = (if k = 0 then f else ring_view (rq_buf q) h k)"
    if "k \<le> rq_len q" for k
    using ring_view_update [of 0 "rq_buf q" k h f, OF n] that assms(2) hl by simp
  have "[0..<rq_len q + 1] = 0 # map Suc [0..<rq_len q]" by (simp add: map_Suc_upt upt_conv_Cons)
  then have "ring_list ?q = f # ring_list q"
    by (auto simp: ring_list_def view shift)
  moreover have "(h + (rq_len q + 1)) mod rq_cap q = (rq_head q + rq_len q) mod rq_cap q"
    by (subst wrap [symmetric]) (simp add: mod_simps)
  then have "ring_inv ?q" using assms hl by (simp add: ring_inv_def)
  moreover have "tx_push_front q f = Inr ?q"
    using assms(2) by (simp add: tx_push_front_def h_def Let_def)
  ultimately show ?thesis by auto
qed

lemma remove_loop_spec:
  assumes "w \<le> r" "r \<le> n" "n \<le> length buf" "remove_loop drp h [r..<n] buf w rem = (buf', w', rem')"
  shows "length buf' = length buf \<and> w' \<le> n \<and> rem' + w' = rem + w + (n - r) \<and>
    map (ring_view buf' h) [0..<w'] =
      map (ring_view buf h) [0..<w] @ filter (\<lambda>f. \<not> drp f) (map (ring_view buf h) [r..<n])"
  using assms
proof (induction "n - r" arbitrary: r w rem buf)
  case 0
  then show ?case by simp
next
  case (Suc d)
  then have r: "r < n" by simp
  then have up: "[r..<n] = r # [Suc r..<n]" by (simp add: upt_conv_Cons)
  have v: "buf ! ((h + r) mod length buf) = ring_view buf h r" by (simp add: ring_view_def)
  show ?case
  proof (cases "drp (ring_view buf h r)")
    case True
    have "remove_loop drp h [Suc r..<n] buf w (rem + 1) = (buf', w', rem')"
      using Suc.prems(4) True by (simp add: up v Let_def)
    from Suc.hyps(1) [OF _ _ _ Suc.prems(3) this] Suc.hyps(2) Suc.prems(1) r True
    show ?thesis by (auto simp: up)
  next
    case False
    define b where "b = (if w \<noteq> r then buf[(h + w) mod length buf := ring_view buf h r] else buf)"
    have rec: "remove_loop drp h [Suc r..<n] b (w + 1) rem = (buf', w', rem')"
      using Suc.prems(4) False by (cases "w = r") (simp_all add: up v b_def Let_def)
    have len: "length b = length buf" by (simp add: b_def)
    have view: "ring_view b h k = (if k = w then ring_view buf h r else ring_view buf h k)"
      if "k < length buf" for k
      using ring_view_update [of w buf k h "ring_view buf h r"] that Suc.prems r by (auto simp: b_def)
    have "map (ring_view b h) [0..<w + 1] = map (ring_view buf h) [0..<w] @ [ring_view buf h r]"
      "map (ring_view b h) [Suc r..<n] = map (ring_view buf h) [Suc r..<n]"
      using Suc.prems r by (auto simp: view)
    with Suc.hyps(1) [of "Suc r" "w + 1" b rem] rec Suc.hyps(2) Suc.prems r False len
    show ?thesis by (auto simp: up)
  qed
qed

lemma remove_where_list:
  assumes "ring_inv q" "remove_where drp q = (q', n)"
  shows "ring_inv q' \<and> ring_list q' = filter (\<lambda>f. \<not> drp f) (ring_list q) \<and>
    n = length (filter drp (ring_list q)) \<and> rq_cap q' = rq_cap q"
proof -
  obtain buf w rem where l: "remove_loop drp (rq_head q) [0..<rq_len q] (rq_buf q) 0 0 = (buf, w, rem)"
    by (metis prod_cases3)
  have sp: "length buf = rq_cap q" "w \<le> rq_len q" "rem + w = rq_len q"
    "map (ring_view buf (rq_head q)) [0..<w] = filter (\<lambda>f. \<not> drp f) (ring_list q)"
    using remove_loop_spec [OF _ _ _ l] assms(1) by (auto simp: ring_inv_def ring_list_def)
  have "length (filter (\<lambda>f. \<not> drp f) (ring_list q)) = w"
    using sp(4) by (metis length_map length_upt diff_zero)
  then have "rem = length (filter drp (ring_list q))"
    using sp(3) sum_length_filter_compl [of drp "ring_list q"] length_ring_list [of q] by simp
  moreover have "rem = n" "q' = (if 0 < rem
      then q\<lparr>rq_buf := buf, rq_tail := (rq_head q + w) mod rq_cap q, rq_len := w\<rparr>
      else q\<lparr>rq_buf := buf\<rparr>)"
    using assms(2) l sp(1) by (auto simp: remove_where_def Let_def)
  ultimately show ?thesis
    using sp assms(1) by (auto simp: ring_inv_def ring_list_def)
qed

section \<open>The queue contract\<close>

text \<open>
  A bounded queue against lists: what the list of its frames is after each operation, and when
  an operation is refused.
\<close>

locale bounded_fifo =
  fixes inv :: "'q \<Rightarrow> bool" and contents :: "'q \<Rightarrow> 'f list" and cap :: "'q \<Rightarrow> nat"
    and push :: "'q \<Rightarrow> 'f \<Rightarrow> queue_error + 'q" and pop :: "'q \<Rightarrow> queue_error + ('f \<times> 'q)"
  assumes push_room: "inv q \<Longrightarrow> length (contents q) < cap q \<Longrightarrow>
      \<exists>q'. push q f = Inr q' \<and> inv q' \<and> contents q' = contents q @ [f] \<and> cap q' = cap q"
    and push_full: "inv q \<Longrightarrow> length (contents q) = cap q \<Longrightarrow> push q f = Inl QueueFull"
    and pop_empty: "inv q \<Longrightarrow> contents q = [] \<Longrightarrow> pop q = Inl QueueEmpty"
    and pop_front: "inv q \<Longrightarrow> contents q = f # fs \<Longrightarrow>
      \<exists>q'. pop q = Inr (f, q') \<and> inv q' \<and> contents q' = fs \<and> cap q' = cap q"
    and within_cap: "inv q \<Longrightarrow> length (contents q) \<le> cap q"
begin

text \<open>Frames leave in the order they came, and a refused push loses nothing already queued.\<close>

lemma push_all:
  assumes "inv q" "length (contents q) + length fs \<le> cap q"
  shows "\<exists>q'. fold (\<lambda>f r. case r of Inl e \<Rightarrow> Inl e | Inr q \<Rightarrow> push q f) fs (Inr q) = Inr q' \<and>
    inv q' \<and> contents q' = contents q @ fs \<and> cap q' = cap q"
  using assms
proof (induction fs arbitrary: q)
  case (Cons f fs)
  then obtain q1 where q1: "push q f = Inr q1" "inv q1" "contents q1 = contents q @ [f]" "cap q1 = cap q"
    using push_room [of q f] by auto
  have len: "length (contents q1) + length fs \<le> cap q1"
    using Cons.prems(2) q1(3,4) by simp
  from Cons.IH [OF q1(2) len] q1 show ?case by auto
qed auto

lemma push_then_pop_other:
  assumes "inv q" "contents q = g # gs" "length (contents q) < cap q"
  shows "\<exists>q1 q2. push q f = Inr q1 \<and> pop q1 = Inr (g, q2) \<and> contents q2 = gs @ [f]"
proof -
  obtain q1 where q1: "push q f = Inr q1" "inv q1" "contents q1 = contents q @ [f]"
    using push_room [OF assms(1,3)] by blast
  then have "contents q1 = g # (gs @ [f])" using assms(2) by simp
  from pop_front [OF q1(2) this] q1(1) show ?thesis by auto
qed

end

interpretation ring: bounded_fifo ring_inv ring_list rq_cap ring_push ring_pop
proof unfold_locales
  fix q :: "'a ring" and f fs
  assume q: "ring_inv q"
  show "length (ring_list q) \<le> rq_cap q" using q by (simp add: length_ring_list ring_inv_def)
  show "length (ring_list q) < rq_cap q \<Longrightarrow>
      \<exists>q'. ring_push q f = Inr q' \<and> ring_inv q' \<and> ring_list q' = ring_list q @ [f] \<and> rq_cap q' = rq_cap q"
    using ring_push_list [OF q, of f] by (auto simp: length_ring_list)
  show "length (ring_list q) = rq_cap q \<Longrightarrow> ring_push q f = Inl QueueFull"
    by (simp add: length_ring_list ring_push_def)
  show "ring_list q = [] \<Longrightarrow> ring_pop q = Inl QueueEmpty"
    using ring_pop_list(1) [OF q] by simp
  show "ring_list q = f # fs \<Longrightarrow>
      \<exists>q'. ring_pop q = Inr (f, q') \<and> ring_inv q' \<and> ring_list q' = fs \<and> rq_cap q' = rq_cap q"
    using ring_pop_list [OF q] by auto
qed

lemma tx_front_list: "ring_inv q \<Longrightarrow> tx_front q = (case ring_list q of [] \<Rightarrow> None | f # _ \<Rightarrow> Some f)"
  by (cases "rq_len q = 0")
    (auto simp: tx_front_def ring_list_def ring_view_def ring_inv_def upt_conv_Cons)

lemma tx_queue_new_inv: "0 < n \<Longrightarrow> ring_inv (tx_queue_new n) \<and> ring_list (tx_queue_new n) = []"
  by (simp add: ring_inv_def tx_queue_new_def ring_list_def)

lemma rx_queue_new_inv: "0 < n \<Longrightarrow> ring_inv (rx_queue_new n) \<and> ring_list (rx_queue_new n) = []"
  by (simp add: ring_inv_def rx_queue_new_def ring_list_def)

section \<open>Transmit queue against lists, operation by operation\<close>

datatype tx_op = TxPush tx_frame | TxPushFront tx_frame | TxPop | TxRemove "tx_frame \<Rightarrow> bool"

datatype tx_result = ResOk | ResError queue_error | ResFrame tx_frame | ResRemoved nat

fun tx_exec :: "tx_op \<Rightarrow> tx_queue \<Rightarrow> tx_queue \<times> tx_result" where
  "tx_exec (TxPush f) q = (case tx_push q f of Inl e \<Rightarrow> (q, ResError e) | Inr q' \<Rightarrow> (q', ResOk))"
| "tx_exec (TxPushFront f) q =
     (case tx_push_front q f of Inl e \<Rightarrow> (q, ResError e) | Inr q' \<Rightarrow> (q', ResOk))"
| "tx_exec TxPop q = (case tx_pop q of Inl e \<Rightarrow> (q, ResError e) | Inr (f, q') \<Rightarrow> (q', ResFrame f))"
| "tx_exec (TxRemove drp) q = (case remove_where drp q of (q', n) \<Rightarrow> (q', ResRemoved n))"

fun list_exec :: "nat \<Rightarrow> tx_op \<Rightarrow> tx_frame list \<Rightarrow> tx_frame list \<times> tx_result" where
  "list_exec n (TxPush f) fs = (if length fs = n then (fs, ResError QueueFull) else (fs @ [f], ResOk))"
| "list_exec n (TxPushFront f) fs = (if length fs = n then (fs, ResError QueueFull) else (f # fs, ResOk))"
| "list_exec n TxPop fs = (case fs of [] \<Rightarrow> ([], ResError QueueEmpty) | f # fs \<Rightarrow> (fs, ResFrame f))"
| "list_exec n (TxRemove drp) fs = (filter (\<lambda>f. \<not> drp f) fs, ResRemoved (length (filter drp fs)))"

fun tx_trace :: "tx_op list \<Rightarrow> tx_queue \<Rightarrow> tx_queue \<times> tx_result list" where
  "tx_trace [] q = (q, [])"
| "tx_trace (x # xs) q = (case tx_exec x q of (q, r) \<Rightarrow> case tx_trace xs q of (q, rs) \<Rightarrow> (q, r # rs))"

fun list_trace :: "nat \<Rightarrow> tx_op list \<Rightarrow> tx_frame list \<Rightarrow> tx_frame list \<times> tx_result list" where
  "list_trace n [] fs = (fs, [])"
| "list_trace n (x # xs) fs =
     (case list_exec n x fs of (fs, r) \<Rightarrow> case list_trace n xs fs of (fs, rs) \<Rightarrow> (fs, r # rs))"

lemma tx_exec_refines:
  assumes "ring_inv q"
  shows "ring_inv (fst (tx_exec x q)) \<and> rq_cap (fst (tx_exec x q)) = rq_cap q \<and>
    list_exec (rq_cap q) x (ring_list q) = (ring_list (fst (tx_exec x q)), snd (tx_exec x q))"
proof (cases x)
  case (TxPush f)
  then show ?thesis
    using ring.push_room [OF assms, of f] ring.push_full [OF assms, of f] ring.within_cap [OF assms] assms
    by (cases "length (ring_list q) = rq_cap q") (auto simp: tx_push_def)
next
  case (TxPushFront f)
  then show ?thesis
    using tx_push_front_list [OF assms, of f] assms
    by (cases "length (ring_list q) = rq_cap q")
      (auto simp: tx_push_front_def length_ring_list ring_inv_def order.strict_iff_order)
next
  case TxPop
  then show ?thesis
    using ring.pop_empty [OF assms] ring.pop_front [OF assms] assms
    by (cases "ring_list q") (auto simp: tx_pop_def)
next
  case (TxRemove drp)
  then show ?thesis
    using remove_where_list [OF assms, of drp] by (cases "remove_where drp q") auto
qed

section \<open>Properties\<close>

text \<open>
  C14. The transmit ring is a bounded list: through any sequence of pushes, pushes at the front,
  pops and removals by predicate, every result (the frames popped, the errors, the counts) and
  the frames left are those of a list with the ring's capacity.
\<close>

theorem tx_queue_refines_list:
  assumes "ring_inv q"
  shows "list_trace (rq_cap q) xs (ring_list q) =
    (ring_list (fst (tx_trace xs q)), snd (tx_trace xs q)) \<and> ring_inv (fst (tx_trace xs q))"
  using assms
proof (induction xs arbitrary: q)
  case (Cons x xs)
  obtain q1 r where e: "tx_exec x q = (q1, r)" by (cases "tx_exec x q")
  have q1: "ring_inv q1" "rq_cap q1 = rq_cap q" "list_exec (rq_cap q) x (ring_list q) = (ring_list q1, r)"
    using tx_exec_refines [OF Cons.prems, of x] e by auto
  from Cons.IH [OF q1(1)] q1 e show ?case by (auto split: prod.splits)
qed simp

theorem tx_queue_refines_list_witness:
  "snd (tx_trace [TxPush \<lparr>tf_radio_id = 0, tf_len = 1, tf_bytes = [7]\<rparr>,
      TxPushFront \<lparr>tf_radio_id = 1, tf_len = 1, tf_bytes = [9]\<rparr>, TxPop] (tx_queue_new 4)) =
   [ResOk, ResOk, ResFrame \<lparr>tf_radio_id = 1, tf_len = 1, tf_bytes = [9]\<rparr>]"
  using tx_queue_refines_list [of "tx_queue_new 4" "[TxPush \<lparr>tf_radio_id = 0, tf_len = 1, tf_bytes = [7]\<rparr>,
      TxPushFront \<lparr>tf_radio_id = 1, tf_len = 1, tf_bytes = [9]\<rparr>, TxPop]"] tx_queue_new_inv [of 4]
  by (simp add: tx_queue_new_def)

end
