(* ===== verification/RadioSlot.thy ===== *)
theory RadioSlot
  imports RadioQueue AirTime
begin

text \<open>
  One radio with its queues (\<open>slot.rs\<close>, over the trait \<open>RadioInterface\<close> of
  \<open>interface.rs\<close>). The driver behind the trait is hardware: it is a record of operations on
  a driver state, an argument of every definition here, and nothing is assumed of it. A call
  through \<open>&mut self\<close> returns the driver's next state with its result.
  \<open>service\<close> is cut where the function has its three stages: the frame in flight, the
  frames received, the next frame to send.
\<close>

section \<open>The driver interface\<close>

datatype radio_error =
  InitFailed | Busy | Timeout | InvalidLength | InvalidConfig | TxNotStarted | TxOutcomeUnknown | Hardware

datatype tx_status = Complete | OutcomeUnknown

record 'd radio_interface =
  drv_config :: "'d \<Rightarrow> radio_config"
  drv_init :: "'d \<Rightarrow> 'd \<times> (radio_error + unit)"
  drv_poll_recv :: "'d \<Rightarrow> 'd \<times> (radio_error + rx_frame option)"
  drv_start_send :: "'d \<Rightarrow> tx_frame \<Rightarrow> 'd \<times> (radio_error + unit)"
  drv_poll_tx :: "'d \<Rightarrow> 'd \<times> (radio_error + tx_status option)"
  drv_start_rx :: "'d \<Rightarrow> 'd \<times> (radio_error + unit)"
  drv_rx_in_progress :: "'d \<Rightarrow> 'd \<times> (radio_error + bool)"

section \<open>Model\<close>

record service_report =
  sr_rx :: "rx_frame option"
  sr_tx_len :: "u8 option"
  sr_rx_restart_error :: "radio_error option"
  sr_tx_id :: "u32 option"
  sr_tx_to :: "u32 option"
  sr_tx_from :: "u32 option"
  sr_duty_cycle_blocked :: bool
  sr_tx_deferred_rx_busy :: bool
  sr_tx_deferred_rx_pending :: bool
  sr_tx_held :: bool
  sr_tx_queue_len :: u8
  sr_rx_ordinal :: u32
  sr_receptions :: u8
  sr_held_behind_rx :: "u32 option"

definition report_default :: service_report where
  "report_default = \<lparr>sr_rx = None, sr_tx_len = None, sr_rx_restart_error = None, sr_tx_id = None,
     sr_tx_to = None, sr_tx_from = None, sr_duty_cycle_blocked = False,
     sr_tx_deferred_rx_busy = False, sr_tx_deferred_rx_pending = False, sr_tx_held = False,
     sr_tx_queue_len = 0, sr_rx_ordinal = 0, sr_receptions = 0, sr_held_behind_rx = None\<rparr>"

definition mesh_header_id_to :: "u8 list \<Rightarrow> (u32 \<times> u32 \<times> u32) option" where
  "mesh_header_id_to p =
     (if length p < PACKET_HEADER_LEN then None
      else Some (from_le_bytes32 (p ! 8) (p ! 9) (p ! 10) (p ! 11),
                 from_le_bytes32 (p ! 0) (p ! 1) (p ! 2) (p ! 3),
                 from_le_bytes32 (p ! 4) (p ! 5) (p ! 6) (p ! 7)))"

definition rx_queue_depth :: "nat \<Rightarrow> u32 option" where
  "rx_queue_depth queued = (if queued = 0 then None else Some (of_nat queued))"

record 'd radio_slot =
  sl_id :: u8
  sl_driver :: 'd
  sl_rx_queue :: rx_queue
  sl_tx_queue :: tx_queue
  sl_rx_ordinal :: u32
  sl_rx_restart_pending :: bool
  sl_tx_in_flight :: "tx_frame option"
  sl_tx_failure :: "(u32 \<times> u32) option"

definition slot_new :: "nat \<Rightarrow> nat \<Rightarrow> u8 \<Rightarrow> 'd \<Rightarrow> 'd radio_slot" where
  "slot_new rx tx radio_id driver = \<lparr>sl_id = radio_id, sl_driver = driver,
     sl_rx_queue = rx_queue_new rx, sl_tx_queue = tx_queue_new tx, sl_rx_ordinal = 0,
     sl_rx_restart_pending = False, sl_tx_in_flight = None, sl_tx_failure = None\<rparr>"

definition take_tx_failure :: "'d radio_slot \<Rightarrow> 'd radio_slot \<times> (u32 \<times> u32) option" where
  "take_tx_failure s = (s\<lparr>sl_tx_failure := None\<rparr>, sl_tx_failure s)"

definition enqueue_tx :: "'d radio_slot \<Rightarrow> tx_frame \<Rightarrow> queue_error + 'd radio_slot" where
  "enqueue_tx s frame = map_sum id (\<lambda>q. s\<lparr>sl_tx_queue := q\<rparr>) (tx_push (sl_tx_queue s) frame)"

definition remove_tx :: "'d radio_slot \<Rightarrow> u32 \<Rightarrow> u32 \<Rightarrow> 'd radio_slot \<times> nat" where
  "remove_tx s frm pid =
     (case remove_where (\<lambda>f. case mesh_header_id_to (tx_payload f) of
          None \<Rightarrow> False | Some (fid, _, origin) \<Rightarrow> fid = pid \<and> origin = frm) (sl_tx_queue s) of
        (q, n) \<Rightarrow> (s\<lparr>sl_tx_queue := q\<rparr>, n))"

text \<open>A frame whose outcome is not known: the slot forgets it, notes whose it was and listens again.\<close>

definition fail_tx :: "'d radio_interface \<Rightarrow> 'd radio_slot \<Rightarrow> tx_frame \<Rightarrow> 'd radio_slot" where
  "fail_tx D s tx =
     (let s = s\<lparr>sl_tx_in_flight := None,
                sl_tx_failure := map_option (\<lambda>(pid, _, frm). (frm, pid)) (mesh_header_id_to (tx_payload tx))\<rparr>
      in case drv_start_rx D (sl_driver s) of
           (d, r) \<Rightarrow> s\<lparr>sl_driver := d, sl_rx_restart_pending := isl r\<rparr>)"

definition report_header :: "service_report \<Rightarrow> u8 list \<Rightarrow> service_report" where
  "report_header report p =
     (case mesh_header_id_to p of
        None \<Rightarrow> report
      | Some (pid, to, frm) \<Rightarrow> report\<lparr>sr_tx_id := Some pid, sr_tx_to := Some to, sr_tx_from := Some frm\<rparr>)"

definition queue_len_u8 :: "tx_queue \<Rightarrow> u8" where
  "queue_len_u8 q = of_nat (min (rq_len q) 255)"

text \<open>
  First stage: the frame in flight. The result is either the end of the call or the state to go
  on with, the report so far and whether a frame was completed.
\<close>

definition service_flight ::
  "'d radio_interface \<Rightarrow> 'd radio_slot \<Rightarrow>
   ('d radio_slot \<times> (radio_error + service_report)) + ('d radio_slot \<times> service_report \<times> bool)" where
  "service_flight D s =
     (let s = s\<lparr>sl_tx_failure := None\<rparr> in
      case sl_tx_in_flight s of
        None \<Rightarrow> Inr (s, report_default, False)
      | Some tx \<Rightarrow>
          (case drv_poll_tx D (sl_driver s) of
             (d, Inl _) \<Rightarrow> Inl (fail_tx D (s\<lparr>sl_driver := d\<rparr>) tx, Inl TxOutcomeUnknown)
           | (d, Inr None) \<Rightarrow>
               Inl (s\<lparr>sl_driver := d\<rparr>,
                    Inr (report_default\<lparr>sr_tx_queue_len := queue_len_u8 (sl_tx_queue s)\<rparr>))
           | (d, Inr (Some Complete)) \<Rightarrow>
               let s = s\<lparr>sl_driver := d, sl_tx_in_flight := None\<rparr>;
                   report = report_header (report_default\<lparr>sr_tx_len := Some (tf_len tx)\<rparr>) (tx_payload tx)
               in (case drv_start_rx D (sl_driver s) of
                     (d, Inl err) \<Rightarrow>
                       Inr (s\<lparr>sl_driver := d, sl_rx_restart_pending := True\<rparr>,
                            report\<lparr>sr_rx_restart_error := Some err\<rparr>, True)
                   | (d, Inr _) \<Rightarrow> Inr (s\<lparr>sl_driver := d\<rparr>, report, True))
           | (d, Inr (Some OutcomeUnknown)) \<Rightarrow>
               Inl (fail_tx D (s\<lparr>sl_driver := d\<rparr>) tx, Inl TxOutcomeUnknown)))"

text \<open>
  Second stage: frames from the driver into the receive queue, while it has room. Each round
  fills one place, so the loop ends.
\<close>

function recv_loop ::
  "'d radio_interface \<Rightarrow> 'd radio_slot \<Rightarrow> air_time \<Rightarrow> service_report \<Rightarrow>
   'd radio_slot \<times> air_time \<times> (radio_error + service_report)" where
  "recv_loop D s air report =
     (if sl_tx_in_flight s = None \<and> \<not> sl_rx_restart_pending s
         \<and> rq_len (sl_rx_queue s) < rq_cap (sl_rx_queue s) then
        (case drv_poll_recv D (sl_driver s) of
           (d, Inl err) \<Rightarrow> (s\<lparr>sl_driver := d\<rparr>, air, Inl err)
         | (d, Inr None) \<Rightarrow> (s\<lparr>sl_driver := d\<rparr>, air, Inr report)
         | (d, Inr (Some frame)) \<Rightarrow>
             let air = log_airtime air LogRxAll (packet_time_ms (drv_config D d) (unat (rf_len frame)) True);
                 q = (case rx_push (sl_rx_queue s) frame of Inl _ \<Rightarrow> sl_rx_queue s | Inr q \<Rightarrow> q);
                 ordinal = sl_rx_ordinal s + 1;
                 ordinal = (if ordinal = 0 then 1 else ordinal)
             in recv_loop D (s\<lparr>sl_driver := d, sl_rx_queue := q, sl_rx_ordinal := ordinal\<rparr>) air
                  (report\<lparr>sr_receptions := sat_add (sr_receptions report) 1\<rparr>))
      else (s, air, Inr report))"
  by pat_completeness auto
termination
  by (relation "measure (\<lambda>(D, s, air, report). rq_cap (sl_rx_queue s) - rq_len (sl_rx_queue s))")
    (auto simp: rx_push_def ring_push_def)

declare recv_loop.simps [simp del]

text \<open>Third stage: the frame at the front of the transmit queue.\<close>

definition service_send ::
  "'d radio_interface \<Rightarrow> 'd radio_slot \<Rightarrow> air_time \<Rightarrow> service_report \<Rightarrow> bool \<Rightarrow>
   'd radio_slot \<times> air_time \<times> (radio_error + service_report)" where
  "service_send D s air report may_tx =
     (if sr_tx_len report \<noteq> None then (s, air, Inr report)
      else
        (case tx_front (sl_tx_queue s) of
           None \<Rightarrow> (s, air, Inr report)
         | Some tx \<Rightarrow>
             let report = report_header report (tx_payload tx) in
             (case drv_rx_in_progress D (sl_driver s) of
                (d, Inl err) \<Rightarrow> (s\<lparr>sl_driver := d\<rparr>, air, Inl err)
              | (d, Inr busy) \<Rightarrow>
                  let s = s\<lparr>sl_driver := d\<rparr> in
                  if busy then (s, air, Inr (report\<lparr>sr_tx_deferred_rx_busy := True\<rparr>))
                  else if rq_len (sl_rx_queue s) \<noteq> 0 then
                    (s, air, Inr (report\<lparr>sr_tx_deferred_rx_pending := True,
                       sr_held_behind_rx := rx_queue_depth (rq_len (sl_rx_queue s))\<rparr>))
                  else if \<not> may_tx then
                    (s, air, Inr (report\<lparr>sr_tx_held := True,
                       sr_held_behind_rx := rx_queue_depth (rq_len (sl_rx_queue s))\<rparr>))
                  else if \<not> is_tx_allowed_duty_cycle air then
                    (s, air, Inr (report\<lparr>sr_duty_cycle_blocked := True\<rparr>))
                  else
                    (case tx_pop (sl_tx_queue s) of
                       Inl _ \<Rightarrow> (s, air, Inr report)
                     | Inr (tx, q) \<Rightarrow>
                         let s = s\<lparr>sl_tx_queue := q\<rparr> in
                         (case drv_start_send D (sl_driver s) tx of
                            (d, Inr _) \<Rightarrow>
                              (s\<lparr>sl_driver := d, sl_tx_in_flight := Some tx\<rparr>,
                               log_tx_packet air (drv_config D d) (unat (tf_len tx)), Inr report)
                          | (d, Inl err) \<Rightarrow>
                              if err = TxNotStarted then
                                (case drv_start_rx D d of
                                   (d, r) \<Rightarrow>
                                     let s = s\<lparr>sl_driver := d, sl_rx_restart_pending :=
                                               isl r \<or> sl_rx_restart_pending s\<rparr> in
                                     (case tx_push_front (sl_tx_queue s) tx of
                                        Inl _ \<Rightarrow> (s, air, Inl Hardware)
                                      | Inr q \<Rightarrow> (s\<lparr>sl_tx_queue := q\<rparr>, air, Inl TxNotStarted)))
                              else if err = InvalidLength then
                                (case drv_start_rx D d of
                                   (d, r) \<Rightarrow>
                                     (s\<lparr>sl_driver := d, sl_rx_restart_pending :=
                                          isl r \<or> sl_rx_restart_pending s\<rparr>, air, Inl InvalidLength))
                              else
                                (s\<lparr>sl_driver := d, sl_tx_in_flight := Some tx\<rparr>,
                                 log_tx_packet air (drv_config D d) (unat (tf_len tx)), Inl err))))))"

definition service_finish ::
  "'d radio_slot \<Rightarrow> service_report \<Rightarrow> 'd radio_slot \<times> service_report" where
  "service_finish s report =
     (let report = report\<lparr>sr_tx_queue_len := queue_len_u8 (sl_tx_queue s)\<rparr> in
      case rx_pop (sl_rx_queue s) of
        Inl _ \<Rightarrow> (s, report\<lparr>sr_rx := None\<rparr>)
      | Inr (f, q) \<Rightarrow> (s\<lparr>sl_rx_queue := q\<rparr>, report\<lparr>sr_rx := Some f\<rparr>))"

definition service ::
  "'d radio_interface \<Rightarrow> 'd radio_slot \<Rightarrow> air_time \<Rightarrow> bool \<Rightarrow>
   'd radio_slot \<times> air_time \<times> (radio_error + service_report)" where
  "service D s air may_tx =
     (case service_flight D s of
        Inl (s, r) \<Rightarrow> (s, air, r)
      | Inr (s, report, tx_completed) \<Rightarrow>
          (case (if sl_rx_restart_pending s \<and> \<not> tx_completed
                 then (case drv_start_rx D (sl_driver s) of
                         (d, Inl err) \<Rightarrow> (s\<lparr>sl_driver := d\<rparr>, Some err)
                       | (d, Inr _) \<Rightarrow> (s\<lparr>sl_driver := d, sl_rx_restart_pending := False\<rparr>, None))
                 else (s, None)) of
             (s, Some err) \<Rightarrow> (s, air, Inl err)
           | (s, None) \<Rightarrow>
               (case recv_loop D s air report of
                  (s, air, Inl err) \<Rightarrow> (s, air, Inl err)
                | (s, air, Inr report) \<Rightarrow>
                    (case service_send D s air (report\<lparr>sr_rx_ordinal := sl_rx_ordinal s\<rparr>) may_tx of
                       (s, air, Inl err) \<Rightarrow> (s, air, Inl err)
                     | (s, air, Inr report) \<Rightarrow>
                         (case service_finish s report of (s, report) \<Rightarrow> (s, air, Inr report))))))"

definition rx_busy :: "'d radio_interface \<Rightarrow> 'd radio_slot \<Rightarrow> 'd radio_slot \<times> (radio_error + bool)" where
  "rx_busy D s = (case drv_rx_in_progress D (sl_driver s) of (d, r) \<Rightarrow> (s\<lparr>sl_driver := d\<rparr>, r))"

section \<open>What each stage does to the queues\<close>

definition slot_inv :: "'d radio_slot \<Rightarrow> bool" where
  "slot_inv s \<longleftrightarrow> ring_inv (sl_rx_queue s) \<and> ring_inv (sl_tx_queue s)"

definition flying :: "'d radio_slot \<Rightarrow> tx_frame list" where
  "flying s = (case sl_tx_in_flight s of None \<Rightarrow> [] | Some f \<Rightarrow> [f])"

text \<open>The frames a slot still owes: the one in flight, then the queue.\<close>

definition pending :: "'d radio_slot \<Rightarrow> tx_frame list" where
  "pending s = flying s @ ring_list (sl_tx_queue s)"

lemma fail_tx_fields:
  "sl_tx_queue (fail_tx D s tx) = sl_tx_queue s" "sl_rx_queue (fail_tx D s tx) = sl_rx_queue s"
  "sl_tx_in_flight (fail_tx D s tx) = None"
  by (simp_all add: fail_tx_def Let_def split: prod.splits)

lemma service_flight_Inl:
  assumes "service_flight D s = Inl (s', r)"
  shows "sl_tx_queue s' = sl_tx_queue s \<and> sl_rx_queue s' = sl_rx_queue s \<and>
    (\<exists>tx. sl_tx_in_flight s = Some tx \<and>
      (sl_tx_in_flight s' = Some tx \<and> (\<exists>rep. r = Inr rep) \<or>
       sl_tx_in_flight s' = None \<and> r = Inl TxOutcomeUnknown))"
  using assms
  by (auto simp: service_flight_def Let_def fail_tx_fields
      split: option.splits prod.splits sum.splits tx_status.splits)

lemma service_flight_Inr:
  assumes "service_flight D s = Inr (s', report, completed)"
  shows "sl_tx_queue s' = sl_tx_queue s \<and> sl_rx_queue s' = sl_rx_queue s \<and> sl_tx_in_flight s' = None \<and>
    (completed \<longleftrightarrow> sl_tx_in_flight s \<noteq> None) \<and> (sr_tx_len report \<noteq> None \<longleftrightarrow> completed)"
proof -
  have len: "sr_tx_len (report_header rep p) = sr_tx_len rep" for rep p
    by (simp add: report_header_def split: option.splits prod.splits)
  show ?thesis
    using assms
    by (auto simp: service_flight_def Let_def len report_default_def
        split: option.splits prod.splits sum.splits tx_status.splits)
qed

lemma recv_loop_step:
  assumes "sl_tx_in_flight s = None \<and> \<not> sl_rx_restart_pending s \<and>
      rq_len (sl_rx_queue s) < rq_cap (sl_rx_queue s)"
    "drv_poll_recv D (sl_driver s) = (d, Inr (Some frame))"
  shows "recv_loop D s air report =
    recv_loop D (s\<lparr>sl_driver := d,
        sl_rx_queue := (case rx_push (sl_rx_queue s) frame of Inl _ \<Rightarrow> sl_rx_queue s | Inr q \<Rightarrow> q),
        sl_rx_ordinal := (if sl_rx_ordinal s + 1 = 0 then 1 else sl_rx_ordinal s + 1)\<rparr>)
      (log_airtime air LogRxAll (packet_time_ms (drv_config D d) (unat (rf_len frame)) True))
      (report\<lparr>sr_receptions := sat_add (sr_receptions report) 1\<rparr>)"
  using assms by (subst recv_loop.simps) (simp only: Let_def simp_thms if_True prod.case sum.case option.case)

text \<open>
  Charging received frames leaves the sent buckets alone, so it does not move the duty cycle.
\<close>

lemma log_rx_duty_cycle:
  "is_tx_allowed_duty_cycle (log_airtime air LogRxAll ms) = is_tx_allowed_duty_cycle air"
  by (simp add: log_airtime_def Let_def is_tx_allowed_duty_cycle_def utilization_tx_percent_def
      duty_cycle_limit_percent_def)

definition recv_frame :: "'d radio_slot \<times> air_time \<times> service_report \<Rightarrow> 'd radio_slot \<times> air_time \<times> service_report \<Rightarrow> bool" where
  "recv_frame a b \<longleftrightarrow> (case a of (s, air, rep) \<Rightarrow> case b of (s', air', rep') \<Rightarrow>
     sl_tx_queue s' = sl_tx_queue s \<and> sl_tx_in_flight s' = sl_tx_in_flight s \<and>
     ring_inv (sl_rx_queue s') \<and>
     (\<exists>fs. ring_list (sl_rx_queue s') = ring_list (sl_rx_queue s) @ fs) \<and>
     is_tx_allowed_duty_cycle air' = is_tx_allowed_duty_cycle air \<and> sr_tx_len rep' = sr_tx_len rep)"

lemma recv_loop_effect:
  assumes "ring_inv (sl_rx_queue s)" "recv_loop D s air report = (s', air', r)"
  shows "recv_frame (s, air, report) (s', air', case r of Inl _ \<Rightarrow> report | Inr rep \<Rightarrow> rep)"
  using assms
proof (induction D s air report arbitrary: s' air' r rule: recv_loop.induct)
  case (1 D s air report)
  let ?go = "sl_tx_in_flight s = None \<and> \<not> sl_rx_restart_pending s \<and>
      rq_len (sl_rx_queue s) < rq_cap (sl_rx_queue s)"
  obtain d p where p: "drv_poll_recv D (sl_driver s) = (d, p)" by (cases "drv_poll_recv D (sl_driver s)")
  show ?case
  proof (cases "?go \<and> (\<exists>f. p = Inr (Some f))")
    case False
    then show ?thesis
      using "1.prems" p
      by (subst (asm) recv_loop.simps)
        (auto simp: recv_frame_def split: if_splits sum.splits option.splits)
  next
    case True
    then obtain f where f: "p = Inr (Some f)" and go: ?go by blast
    obtain q where q: "ring_push (sl_rx_queue s) f = Inr q" "ring_inv q"
      "ring_list q = ring_list (sl_rx_queue s) @ [f]"
      using ring.push_room [OF "1.prems"(1), of f] go by (auto simp: length_ring_list)
    let ?air = "log_airtime air LogRxAll (packet_time_ms (drv_config D d) (unat (rf_len f)) True)"
    let ?o = "if sl_rx_ordinal s + 1 = 0 then 1 else sl_rx_ordinal s + 1"
    let ?s = "s\<lparr>sl_driver := d, sl_rx_queue := q, sl_rx_ordinal := ?o\<rparr>"
    let ?rep = "report\<lparr>sr_receptions := sat_add (sr_receptions report) 1\<rparr>"
    have rec: "recv_loop D ?s ?air ?rep = (s', air', r)"
      using "1.prems"(2) recv_loop_step [OF go p [unfolded f], of air report] q(1)
      by (simp add: rx_push_def)
    have "recv_frame (?s, ?air, ?rep) (s', air', case r of Inl _ \<Rightarrow> ?rep | Inr rep \<Rightarrow> rep)"
      using "1.IH" [OF go p [symmetric] f refl refl refl refl refl] q rec by (simp add: rx_push_def)
    then show ?thesis
      using q(3) by (auto simp: recv_frame_def log_rx_duty_cycle split: sum.splits)
  qed
qed

text \<open>
  The last stage with the slot idle: a frame stays owed, at the front, unless the driver refuses
  its length. The push back to the front cannot fail, the place was just freed.
\<close>

lemma service_send_pending:
  assumes "ring_inv (sl_tx_queue s)" "sl_tx_in_flight s = None"
    "service_send D s air report may_tx = (s', air', r)"
  shows "ring_inv (sl_tx_queue s') \<and> sl_rx_queue s' = sl_rx_queue s \<and>
    (pending s' = pending s \<or> (\<exists>f. pending s = f # pending s' \<and> r = Inl InvalidLength))"
proof (cases "ring_list (sl_tx_queue s)")
  case Nil
  then show ?thesis
    using assms tx_front_list [OF assms(1)] by (auto simp: service_send_def split: if_splits)
next
  case (Cons f fs)
  obtain q where q: "ring_pop (sl_tx_queue s) = Inr (f, q)" "ring_inv q" "ring_list q = fs"
    "rq_cap q = rq_cap (sl_tx_queue s)"
    using ring.pop_front [OF assms(1) Cons] by blast
  have "length (f # fs) \<le> rq_cap q" using ring.within_cap [OF assms(1)] Cons q(4) by simp
  then have "rq_len q < rq_cap q" using q(3) length_ring_list [of q] by simp
  then obtain q2 where q2: "tx_push_front q f = Inr q2" "ring_inv q2" "ring_list q2 = f # fs"
    using tx_push_front_list [OF q(2), of f] q(3) by auto
  have front: "tx_front (sl_tx_queue s) = Some f" using tx_front_list [OF assms(1)] Cons by simp
  have pop: "tx_pop (sl_tx_queue s) = Inr (f, q)" using q(1) by (simp add: tx_pop_def)
  show ?thesis
    using assms(1-3) Cons q q2
    by (auto simp: service_send_def front pop Let_def pending_def flying_def
        split: if_splits prod.splits sum.splits)
qed

lemma service_finish_fields:
  "service_finish s report = (s', report') \<Longrightarrow>
   sl_tx_queue s' = sl_tx_queue s \<and> sl_tx_in_flight s' = sl_tx_in_flight s \<and>
   sl_driver s' = sl_driver s"
  by (auto simp: service_finish_def Let_def split: sum.splits prod.splits)

lemma service_finish_inv:
  assumes "ring_inv (sl_rx_queue s)" "service_finish s report = (s', report')"
  shows "ring_inv (sl_rx_queue s')"
  using assms ring.pop_empty [OF assms(1)] ring.pop_front [OF assms(1)]
  by (cases "ring_list (sl_rx_queue s)")
    (auto simp: service_finish_def rx_pop_def Let_def)

text \<open>How a call runs through the stages.\<close>

inductive service_run ::
  "'d radio_interface \<Rightarrow> 'd radio_slot \<Rightarrow> air_time \<Rightarrow> bool \<Rightarrow> 'd radio_slot \<Rightarrow> air_time \<Rightarrow>
   (radio_error + service_report) \<Rightarrow> bool" where
  run_flight: "service_flight D s = Inl (s', r) \<Longrightarrow> service_run D s air may_tx s' air r"
| run_restart: "service_flight D s = Inr (s1, report, False) \<Longrightarrow> sl_rx_restart_pending s1 \<Longrightarrow>
    drv_start_rx D (sl_driver s1) = (d, Inl err) \<Longrightarrow>
    service_run D s air may_tx (s1\<lparr>sl_driver := d\<rparr>) air (Inl err)"
| run_recv: "service_flight D s = Inr (s1, report, completed) \<Longrightarrow>
    s2 = s1 \<or> s2 = s1\<lparr>sl_driver := fst (drv_start_rx D (sl_driver s1)), sl_rx_restart_pending := False\<rparr> \<Longrightarrow>
    recv_loop D s2 air report = (s', air', Inl err) \<Longrightarrow>
    service_run D s air may_tx s' air' (Inl err)"
| run_send: "service_flight D s = Inr (s1, report, completed) \<Longrightarrow>
    s2 = s1 \<or> s2 = s1\<lparr>sl_driver := fst (drv_start_rx D (sl_driver s1)), sl_rx_restart_pending := False\<rparr> \<Longrightarrow>
    recv_loop D s2 air report = (s3, air3, Inr report3) \<Longrightarrow>
    service_send D s3 air3 (report3\<lparr>sr_rx_ordinal := sl_rx_ordinal s3\<rparr>) may_tx = (s4, air', r4) \<Longrightarrow>
    (case r4 of Inl err \<Rightarrow> s' = s4 \<and> r = Inl err
     | Inr report4 \<Rightarrow> \<exists>report5. service_finish s4 report4 = (s', report5) \<and> r = Inr report5) \<Longrightarrow>
    (sl_rx_restart_pending s2 \<longrightarrow> completed) \<Longrightarrow>
    service_run D s air may_tx s' air' r"

lemma service_service_run:
  assumes "service D s air may_tx = (s', air', r)"
  shows "service_run D s air may_tx s' air' r"
proof (cases "service_flight D s")
  case (Inl z)
  then show ?thesis using assms by (cases z) (auto simp: service_def intro: run_flight)
next
  case (Inr z)
  obtain s1 report completed where z: "z = (s1, report, completed)" by (cases z)
  note fl = Inr [unfolded z]
  obtain d x where d: "drv_start_rx D (sl_driver s1) = (d, x)" by (cases "drv_start_rx D (sl_driver s1)")
  define s2 where "s2 = (if sl_rx_restart_pending s1 \<and> \<not> completed
      then s1\<lparr>sl_driver := d, sl_rx_restart_pending := False\<rparr> else s1)"
  show ?thesis
  proof (cases "sl_rx_restart_pending s1 \<and> \<not> completed \<and> isl x")
    case True
    then obtain err where "x = Inl err" by (cases x) auto
    then show ?thesis
      using assms True fl d by (auto simp: service_def intro!: run_restart)
  next
    case False
    have s2: "s2 = s1 \<or> s2 = s1\<lparr>sl_driver := fst (drv_start_rx D (sl_driver s1)), sl_rx_restart_pending := False\<rparr>"
      by (auto simp: s2_def d)
    obtain s3 air3 r3 where rl: "recv_loop D s2 air report = (s3, air3, r3)" by (metis prod_cases3)
    have sv: "service D s air may_tx =
        (case recv_loop D s2 air report of
           (s, air, Inl err) \<Rightarrow> (s, air, Inl err)
         | (s, air, Inr report) \<Rightarrow>
             (case service_send D s air (report\<lparr>sr_rx_ordinal := sl_rx_ordinal s\<rparr>) may_tx of
                (s, air, Inl err) \<Rightarrow> (s, air, Inl err)
              | (s, air, Inr report) \<Rightarrow>
                  (case service_finish s report of (s, report) \<Rightarrow> (s, air, Inr report))))"
      using False fl d by (cases x) (auto simp: service_def s2_def)
    show ?thesis
    proof (cases r3)
      case (Inl err)
      then show ?thesis using assms sv rl fl s2 by (auto intro: run_recv)
    next
      case (Inr report3)
      obtain s4 air4 r4 where se: "service_send D s3 air3 (report3\<lparr>sr_rx_ordinal := sl_rx_ordinal s3\<rparr>) may_tx =
          (s4, air4, r4)" by (metis prod_cases3)
      have "sl_rx_restart_pending s2 \<longrightarrow> completed" by (simp add: s2_def)
      with se show ?thesis
        using assms sv rl Inr by (cases r4) (auto intro!: run_send [OF fl s2 rl [unfolded Inr]] split: prod.splits)
    qed
  qed
qed

section \<open>A driver that keeps a log of its calls\<close>

datatype drv_event =
  EvInit | EvPollRecv "radio_error + rx_frame option" | EvSend tx_frame | EvPollTx | EvStartRx | EvRxBusy "radio_error + bool"

definition logged :: "'d radio_interface \<Rightarrow> ('d \<times> drv_event list) radio_interface" where
  "logged D = \<lparr>drv_config = \<lambda>(d, l). drv_config D d,
     drv_init = \<lambda>(d, l). case drv_init D d of (d, r) \<Rightarrow> ((d, l @ [EvInit]), r),
     drv_poll_recv = \<lambda>(d, l). case drv_poll_recv D d of (d, r) \<Rightarrow> ((d, l @ [EvPollRecv r]), r),
     drv_start_send = \<lambda>(d, l) f. case drv_start_send D d f of (d, r) \<Rightarrow> ((d, l @ [EvSend f]), r),
     drv_poll_tx = \<lambda>(d, l). case drv_poll_tx D d of (d, r) \<Rightarrow> ((d, l @ [EvPollTx]), r),
     drv_start_rx = \<lambda>(d, l). case drv_start_rx D d of (d, r) \<Rightarrow> ((d, l @ [EvStartRx]), r),
     drv_rx_in_progress = \<lambda>(d, l). case drv_rx_in_progress D d of (d, r) \<Rightarrow> ((d, l @ [EvRxBusy r]), r)\<rparr>"

abbreviation calls :: "('d \<times> drv_event list) radio_slot \<Rightarrow> drv_event list" where
  "calls s \<equiv> snd (sl_driver s)"

definition is_send :: "drv_event \<Rightarrow> bool" where
  "is_send e \<longleftrightarrow> (\<exists>f. e = EvSend f)"

lemma is_send_simps [simp]:
  "is_send (EvSend f)" "\<not> is_send EvInit" "\<not> is_send (EvPollRecv p)" "\<not> is_send EvPollTx"
  "\<not> is_send EvStartRx" "\<not> is_send (EvRxBusy r)"
  by (simp_all add: is_send_def)

text \<open>The calls between two states, none of them a send.\<close>

definition quiet :: "('d \<times> drv_event list) radio_slot \<Rightarrow> ('d \<times> drv_event list) radio_slot \<Rightarrow> bool" where
  "quiet s s' \<longleftrightarrow> (\<exists>evs. calls s' = calls s @ evs \<and> list_all (\<lambda>e. \<not> is_send e) evs)"

lemma quiet_refl: "calls s' = calls s \<Longrightarrow> quiet s s'"
  by (auto simp: quiet_def)

lemma quiet_trans: "quiet s1 s2 \<Longrightarrow> quiet s2 s3 \<Longrightarrow> quiet s1 s3"
  by (force simp: quiet_def)

lemma quiet_snoc: "calls s' = calls s @ [e] \<Longrightarrow> \<not> is_send e \<Longrightarrow> quiet s s'"
  by (auto simp: quiet_def)

lemma quiet_snoc2: "calls s' = calls s @ [e, e'] \<Longrightarrow> \<not> is_send e \<Longrightarrow> \<not> is_send e' \<Longrightarrow> quiet s s'"
  by (auto simp: quiet_def)

lemma start_rx_logged:
  "drv_start_rx (logged D) d = (d', r) \<Longrightarrow> snd d' = snd d @ [EvStartRx]"
  by (auto simp: logged_def split: prod.splits)

lemma poll_tx_logged:
  "drv_poll_tx (logged D) d = (d', r) \<Longrightarrow> snd d' = snd d @ [EvPollTx]"
  by (auto simp: logged_def split: prod.splits)

lemma poll_recv_logged:
  "drv_poll_recv (logged D) d = (d', r) \<Longrightarrow> snd d' = snd d @ [EvPollRecv r]"
  by (auto simp: logged_def split: prod.splits)

lemma start_send_logged:
  "drv_start_send (logged D) d f = (d', r) \<Longrightarrow> snd d' = snd d @ [EvSend f]"
  by (auto simp: logged_def split: prod.splits)

lemma rx_in_progress_logged:
  "drv_rx_in_progress (logged D) d = (d', r) \<Longrightarrow> snd d' = snd d @ [EvRxBusy r]"
  by (auto simp: logged_def split: prod.splits)

lemmas logged_calls = start_rx_logged poll_tx_logged poll_recv_logged start_send_logged rx_in_progress_logged

lemma fail_tx_calls: "calls (fail_tx (logged D) s tx) = calls s @ [EvStartRx]"
  by (auto simp: fail_tx_def Let_def dest: logged_calls split: prod.splits)

lemma service_flight_quiet:
  assumes "service_flight (logged D) s = x"
  shows "case x of Inl (s', _) \<Rightarrow> quiet s s' | Inr (s', _) \<Rightarrow> quiet s s'"
proof -
  obtain d p where p: "drv_poll_tx (logged D) (sl_driver s) = (d, p)"
    by (cases "drv_poll_tx (logged D) (sl_driver s)")
  obtain d2 y where y: "drv_start_rx (logged D) d = (d2, y)" by (cases "drv_start_rx (logged D) d")
  have logs: "snd d = calls s @ [EvPollTx]" "snd d2 = calls s @ [EvPollTx, EvStartRx]"
    using poll_tx_logged [OF p] start_rx_logged [OF y] by simp_all
  have "case service_flight (logged D) s of
      Inl (s', _) \<Rightarrow> calls s' \<in> {calls s, calls s @ [EvPollTx], calls s @ [EvPollTx, EvStartRx]}
    | Inr (s', _) \<Rightarrow> calls s' \<in> {calls s, calls s @ [EvPollTx], calls s @ [EvPollTx, EvStartRx]}"
    using logs
    by (simp add: service_flight_def Let_def p y fail_tx_calls
        split: option.splits sum.splits tx_status.splits)
  then show ?thesis
    unfolding assms by (auto intro: quiet_refl quiet_snoc quiet_snoc2 split: sum.splits prod.splits)
qed

lemma restart_calls:
  assumes "s2 = s1 \<or> s2 = s1\<lparr>sl_driver := fst (drv_start_rx (logged D) (sl_driver s1)), sl_rx_restart_pending := False\<rparr>"
  shows "calls s2 = calls s1 \<or> calls s2 = calls s1 @ [EvStartRx]"
  using assms start_rx_logged [of D "sl_driver s1"]
  by (cases "drv_start_rx (logged D) (sl_driver s1)") auto

lemma restart_quiet:
  assumes "s2 = s1 \<or> s2 = s1\<lparr>sl_driver := fst (drv_start_rx (logged D) (sl_driver s1)), sl_rx_restart_pending := False\<rparr>"
  shows "quiet s1 s2"
  using restart_calls [OF assms] by (auto intro: quiet_refl quiet_snoc)

text \<open>The frames that the polls among some calls returned.\<close>

fun received :: "drv_event list \<Rightarrow> rx_frame list" where
  "received [] = []"
| "received (EvPollRecv (Inr (Some f)) # evs) = f # received evs"
| "received (_ # evs) = received evs"

lemma received_append [simp]: "received (evs @ evs') = received evs @ received evs'"
  by (induction evs rule: received.induct) auto

text \<open>
  The receive stage over the log: it sends nothing, what it adds to the receive queue are the
  frames the driver returned, and with room left it ends on a poll that returned none.
\<close>

lemma recv_loop_log:
  assumes "ring_inv (sl_rx_queue s)" "recv_loop (logged D) s air report = (s', air', r)"
  shows "\<exists>evs. calls s' = calls s @ evs \<and> list_all (\<lambda>e. \<not> is_send e) evs \<and>
    ring_list (sl_rx_queue s') = ring_list (sl_rx_queue s) @ received evs \<and>
    (isl r \<or> sl_tx_in_flight s \<noteq> None \<or> sl_rx_restart_pending s \<or>
     rq_cap (sl_rx_queue s') \<le> rq_len (sl_rx_queue s') \<or> (\<exists>evs'. evs = evs' @ [EvPollRecv (Inr None)]))"
  using assms
proof (induction "logged D" s air report arbitrary: s' air' r rule: recv_loop.induct)
  case (1 s air report)
  let ?go = "sl_tx_in_flight s = None \<and> \<not> sl_rx_restart_pending s \<and>
      rq_len (sl_rx_queue s) < rq_cap (sl_rx_queue s)"
  obtain d p where p: "drv_poll_recv (logged D) (sl_driver s) = (d, p)"
    by (cases "drv_poll_recv (logged D) (sl_driver s)")
  note d = poll_recv_logged [OF p]
  show ?case
  proof (cases "?go \<and> (\<exists>f. p = Inr (Some f))")
    case False
    then have "?go \<and> s' = s\<lparr>sl_driver := d\<rparr> \<and> (isl p \<and> isl r \<or> p = Inr None) \<or> \<not> ?go \<and> s' = s"
      using "1.prems"(2) p by (subst (asm) recv_loop.simps) (auto split: if_splits sum.splits option.splits)
    then show ?thesis
      using d by (elim disjE) (auto intro: exI [of _ "[EvPollRecv p]"] exI [of _ "[]"] simp: isl_def)
  next
    case True
    then obtain f where f: "p = Inr (Some f)" and go: ?go by blast
    obtain q where q: "ring_push (sl_rx_queue s) f = Inr q" "ring_inv q"
      "ring_list q = ring_list (sl_rx_queue s) @ [f]"
      using ring.push_room [OF "1.prems"(1), of f] go by (auto simp: length_ring_list)
    let ?s = "s\<lparr>sl_driver := d, sl_rx_queue := q,
        sl_rx_ordinal := (if sl_rx_ordinal s + 1 = 0 then 1 else sl_rx_ordinal s + 1)\<rparr>"
    let ?rep = "report\<lparr>sr_receptions := sat_add (sr_receptions report) 1\<rparr>"
    have rec: "recv_loop (logged D) ?s (log_airtime air LogRxAll
        (packet_time_ms (drv_config (logged D) d) (unat (rf_len f)) True)) ?rep = (s', air', r)"
      using "1.prems"(2) recv_loop_step [OF go p [unfolded f], of air report] q(1)
      by (simp add: rx_push_def)
    obtain evs where evs: "calls s' = snd d @ evs" "list_all (\<lambda>e. \<not> is_send e) evs"
      "ring_list (sl_rx_queue s') = ring_list q @ received evs"
      "isl r \<or> rq_cap (sl_rx_queue s') \<le> rq_len (sl_rx_queue s') \<or> (\<exists>evs'. evs = evs' @ [EvPollRecv (Inr None)])"
      using "1.hyps" [OF go p [symmetric] f refl refl refl refl refl] q rec go by (auto simp: rx_push_def)
    show ?thesis
      using evs d f q(3) by (intro exI [of _ "EvPollRecv p # evs"]) auto
  qed
qed

lemma recv_loop_quiet:
  "ring_inv (sl_rx_queue s) \<Longrightarrow> recv_loop (logged D) s air report = (s', air', r) \<Longrightarrow> quiet s s'"
  using recv_loop_log by (fastforce simp: quiet_def)

text \<open>
  What has to hold for the last stage to hand a frame to the driver after the calls \<open>pre\<close>: the
  receive queue is what it was before the call with the frames received since.
\<close>

definition send_ready :: "'d radio_slot \<Rightarrow> air_time \<Rightarrow> bool \<Rightarrow> drv_event list \<Rightarrow> tx_frame \<Rightarrow> bool" where
  "send_ready s air may_tx pre f \<longleftrightarrow> may_tx \<and> is_tx_allowed_duty_cycle air \<and>
     ring_list (sl_rx_queue s) @ received pre = [] \<and> (\<exists>fs. ring_list (sl_tx_queue s) = f # fs)"

definition sends_at_most ::
  "(drv_event list \<Rightarrow> tx_frame \<Rightarrow> bool) \<Rightarrow> ('d \<times> drv_event list) radio_slot \<Rightarrow>
   ('d \<times> drv_event list) radio_slot \<Rightarrow> bool" where
  "sends_at_most ok s s' \<longleftrightarrow> quiet s s' \<or>
     (\<exists>pre f post. calls s' = calls s @ pre @ [EvRxBusy (Inr False), EvSend f] @ post \<and>
        list_all (\<lambda>e. \<not> is_send e) (pre @ post) \<and> ok pre f)"

lemma sends_at_most_quiet: "quiet s s' \<Longrightarrow> sends_at_most ok s s'"
  by (simp add: sends_at_most_def)

lemma quiet_sends_at_most:
  assumes "calls s2 = calls s1 @ evs" "list_all (\<lambda>e. \<not> is_send e) evs" "sends_at_most ok s2 s3"
    "\<And>pre f. ok pre f \<Longrightarrow> ok' (evs @ pre) f"
  shows "sends_at_most ok' s1 s3"
proof (cases "quiet s2 s3")
  case True
  then have "quiet s1 s3" using assms(1,2) by (auto simp: quiet_def)
  then show ?thesis by (rule sends_at_most_quiet)
next
  case False
  then obtain pre f post where "calls s3 = calls s2 @ pre @ [EvRxBusy (Inr False), EvSend f] @ post"
    "list_all (\<lambda>e. \<not> is_send e) (pre @ post)" "ok pre f"
    using assms(3) by (auto simp: sends_at_most_def)
  then show ?thesis
    unfolding sends_at_most_def using assms(1,2,4)
    by (intro disjI2 exI [of _ "evs @ pre"] exI [of _ f] exI [of _ post]) auto
qed

lemma service_send_calls:
  assumes "ring_inv (sl_tx_queue s)" "service_send (logged D) s air report may_tx = (s', air', r)"
  shows "sends_at_most (\<lambda>pre f. send_ready s air may_tx pre f \<and> pre = [] \<and> sr_tx_len report = None) s s'"
proof (cases "ring_list (sl_tx_queue s)")
  case Nil
  then show ?thesis
    using assms tx_front_list [OF assms(1)]
    by (auto simp: service_send_def intro!: sends_at_most_quiet quiet_refl split: if_splits)
next
  case (Cons f fs)
  obtain q where pop: "tx_pop (sl_tx_queue s) = Inr (f, q)"
    using ring.pop_front [OF assms(1) Cons] by (auto simp: tx_pop_def)
  have front: "tx_front (sl_tx_queue s) = Some f" using tx_front_list [OF assms(1)] Cons by simp
  obtain d b where b: "drv_rx_in_progress (logged D) (sl_driver s) = (d, b)"
    by (cases "drv_rx_in_progress (logged D) (sl_driver s)")
  note db = rx_in_progress_logged [OF b]
  have rx: "rq_len (sl_rx_queue s) = 0 \<longleftrightarrow> ring_list (sl_rx_queue s) = []"
    using length_ring_list [of "sl_rx_queue s"] by auto
  let ?sent = "may_tx \<and> is_tx_allowed_duty_cycle air \<and> ring_list (sl_rx_queue s) = [] \<and>
      b = Inr False \<and> sr_tx_len report = None"
  show ?thesis
  proof (cases ?sent)
    case False
    then have "calls s' = calls s \<or> calls s' = calls s @ [EvRxBusy b]"
      using assms(2) b db
      by (auto simp: service_send_def front pop Let_def rx split: if_splits sum.splits)
    then have "quiet s s'" by (auto intro: quiet_refl quiet_snoc)
    then show ?thesis by (rule sends_at_most_quiet)
  next
    case True
    obtain d2 x where x: "drv_start_send (logged D) d f = (d2, x)"
      by (cases "drv_start_send (logged D) d f")
    obtain d3 y where y: "drv_start_rx (logged D) d2 = (d3, y)"
      by (cases "drv_start_rx (logged D) d2")
    have "\<exists>post. calls s' = calls s @ [EvRxBusy (Inr False), EvSend f] @ post \<and>
        list_all (\<lambda>e. \<not> is_send e) post"
      using assms(2) True b db x start_send_logged [OF x] y start_rx_logged [OF y]
      by (auto simp: service_send_def front pop Let_def rx split: if_splits sum.splits)
    moreover have "send_ready s air may_tx [] f" using True Cons by (simp add: send_ready_def)
    ultimately show ?thesis
      unfolding sends_at_most_def using True append_Nil list_all_append by metis
  qed
qed

lemma recv_stage_quiet:
  assumes "slot_inv s" "service_flight (logged D) s = Inr (s1, report, completed)"
    "s2 = s1 \<or> s2 = s1\<lparr>sl_driver := fst (drv_start_rx (logged D) (sl_driver s1)), sl_rx_restart_pending := False\<rparr>"
    "recv_loop (logged D) s2 air report = (s3, air3, r)"
  shows "quiet s s3"
proof -
  have "ring_inv (sl_rx_queue s2)"
    using assms(1) service_flight_Inr [OF assms(2)] assms(3) by (auto simp: slot_inv_def)
  then have "quiet s2 s3" by (rule recv_loop_quiet [OF _ assms(4)])
  then show ?thesis using service_flight_quiet [OF assms(2)] restart_quiet [OF assms(3)] by (auto intro: quiet_trans)
qed

text \<open>The calls up to the last stage, with nothing in flight before the call.\<close>

lemma drained_calls:
  assumes inv: "slot_inv s" and idle: "sl_tx_in_flight s = None"
    and flight: "service_flight (logged D) s = Inr (s1, report, completed)"
    and s2: "s2 = s1 \<or> s2 = s1\<lparr>sl_driver := fst (drv_start_rx (logged D) (sl_driver s1)), sl_rx_restart_pending := False\<rparr>"
    and recv: "recv_loop (logged D) s2 air report = (s3, air3, Inr report3)"
    and restarted: "sl_rx_restart_pending s2 \<longrightarrow> completed"
  obtains evs where "calls s3 = calls s @ evs" "list_all (\<lambda>e. \<not> is_send e) evs"
    "ring_list (sl_rx_queue s3) = ring_list (sl_rx_queue s) @ received evs"
    "ring_list (sl_rx_queue s3) = [] \<longrightarrow> (\<exists>evs'. evs = evs' @ [EvPollRecv (Inr None)])"
proof -
  have s1: "sl_rx_queue s2 = sl_rx_queue s" "sl_tx_in_flight s2 = None" "\<not> completed"
    using service_flight_Inr [OF flight] s2 idle by auto
  have inv2: "ring_inv (sl_rx_queue s2)" using inv s1(1) by (simp add: slot_inv_def)
  have inv3: "ring_inv (sl_rx_queue s3)" using recv_loop_effect [OF inv2 recv] by (simp add: recv_frame_def)
  obtain evs where evs: "calls s3 = calls s2 @ evs" "list_all (\<lambda>e. \<not> is_send e) evs"
    "ring_list (sl_rx_queue s3) = ring_list (sl_rx_queue s2) @ received evs"
    "rq_cap (sl_rx_queue s3) \<le> rq_len (sl_rx_queue s3) \<or> (\<exists>evs'. evs = evs' @ [EvPollRecv (Inr None)])"
    using recv_loop_log [OF inv2 recv] s1(2,3) restarted by auto
  have "calls s1 = calls s" using flight idle by (auto simp: service_flight_def Let_def)
  then obtain evs2 where evs2: "calls s3 = calls s @ evs2 @ evs" "evs2 = [] \<or> evs2 = [EvStartRx]"
    using restart_calls [OF s2] evs(1) by force
  show ?thesis
  proof (rule that [of "evs2 @ evs"])
    show "ring_list (sl_rx_queue s3) = [] \<longrightarrow> (\<exists>evs'. evs2 @ evs = evs' @ [EvPollRecv (Inr None)])"
      using evs(4) inv3 length_ring_list [of "sl_rx_queue s3"] by (auto simp: ring_inv_def)
  qed (use evs evs2 s1(1) in auto)
qed

section \<open>Properties\<close>

text \<open>
  C21. A call of \<open>service\<close> keeps the queues well formed and loses no frame: what the slot
  owes (the frame in flight, then the queue) is the same after it, or shorter by its first
  frame, and then that frame was in flight (the driver reported on it) or the driver refused
  its length. This holds for every driver, whatever it returns.
\<close>

theorem service_keeps_frames:
  assumes "slot_inv s" "service D s air may_tx = (s', air', r)"
  shows "slot_inv s' \<and> (pending s' = pending s \<or>
    (\<exists>f. pending s = f # pending s' \<and> (sl_tx_in_flight s = Some f \<or> r = Inl InvalidLength)))"
  using service_service_run [OF assms(2)] assms(1)
proof cases
  case run_flight
  then show ?thesis
    using service_flight_Inl [OF run_flight(2)] assms(1)
    by (auto simp: slot_inv_def pending_def flying_def)
next
  case (run_restart s1 report d err)
  then show ?thesis
    using service_flight_Inr [OF run_restart(4)] assms(1)
    by (auto simp: slot_inv_def pending_def flying_def)
next
  case (run_recv s1 report completed s2 err)
  have s1: "sl_tx_queue s2 = sl_tx_queue s" "sl_rx_queue s2 = sl_rx_queue s" "sl_tx_in_flight s2 = None"
    using service_flight_Inr [OF run_recv(2)] run_recv(3) by auto
  have "ring_inv (sl_rx_queue s2)" using assms(1) s1 by (simp add: slot_inv_def)
  from recv_loop_effect [OF this run_recv(4)] s1 assms(1) show ?thesis
    by (cases "sl_tx_in_flight s") (auto simp: recv_frame_def slot_inv_def pending_def flying_def)
next
  case (run_send s1 report completed s2 s3 air3 report3 s4 r4)
  have s1: "sl_tx_queue s2 = sl_tx_queue s" "sl_rx_queue s2 = sl_rx_queue s" "sl_tx_in_flight s2 = None"
    and len: "sr_tx_len report \<noteq> None \<longleftrightarrow> sl_tx_in_flight s \<noteq> None"
    using service_flight_Inr [OF run_send(1)] run_send(2) by auto
  have "ring_inv (sl_rx_queue s2)" using assms(1) s1 by (simp add: slot_inv_def)
  from recv_loop_effect [OF this run_send(3)]
  have s3: "sl_tx_queue s3 = sl_tx_queue s" "sl_tx_in_flight s3 = None" "ring_inv (sl_rx_queue s3)"
    and len3: "sr_tx_len report3 = sr_tx_len report"
    using s1 by (auto simp: recv_frame_def)
  have inv3: "ring_inv (sl_tx_queue s3)" using assms(1) s3 by (simp add: slot_inv_def)
  have s': "sl_tx_queue s' = sl_tx_queue s4" "sl_tx_in_flight s' = sl_tx_in_flight s4"
    "ring_inv (sl_rx_queue s4) \<Longrightarrow> ring_inv (sl_rx_queue s')"
    using run_send(5) service_finish_fields service_finish_inv by (auto split: sum.splits)
  have fin: "r4 = Inl InvalidLength \<Longrightarrow> r = Inl InvalidLength" using run_send(5) by auto
  note snd = service_send_pending [OF inv3 s3(2) run_send(4)]
  have inv': "slot_inv s'" using snd s' s3(3) by (simp add: slot_inv_def)
  have p': "pending s' = pending s4" using s' by (simp add: pending_def flying_def)
  show ?thesis
  proof (cases "sl_tx_in_flight s")
    case None
    then have "pending s = pending s3" using s3 by (simp add: pending_def flying_def)
    then show ?thesis using snd p' fin inv' by auto
  next
    case (Some f)
    then have "s4 = s3" using run_send(4) len len3 by (auto simp: service_send_def)
    then have "pending s = f # pending s'"
      using p' s3 Some by (simp add: pending_def flying_def)
    then show ?thesis using inv' Some by blast
  qed
qed

text \<open>A driver that accepts every frame and receives nothing, and a slot with one frame queued.\<close>

definition idle_driver :: "unit radio_interface" where
  "idle_driver = \<lparr>drv_config = \<lambda>_. eu868_default, drv_init = \<lambda>d. (d, Inr ()),
     drv_poll_recv = \<lambda>d. (d, Inr None), drv_start_send = \<lambda>d f. (d, Inr ()),
     drv_poll_tx = \<lambda>d. (d, Inr None), drv_start_rx = \<lambda>d. (d, Inr ()),
     drv_rx_in_progress = \<lambda>d. (d, Inr False)\<rparr>"

definition one_frame :: tx_frame where
  "one_frame = \<lparr>tf_radio_id = 0, tf_len = 2, tf_bytes = [1, 2]\<rparr>"

definition one_queued :: "'d \<Rightarrow> 'd radio_slot" where
  "one_queued d = (case enqueue_tx (slot_new 4 4 0 d) one_frame of Inr s \<Rightarrow> s | Inl _ \<Rightarrow> slot_new 4 4 0 d)"

definition free_air :: air_time where
  "free_air = airtime_new (EU_868\<lparr>ri_duty_cycle_percent := 100\<rparr>)"

lemmas one_queued_eval = one_queued_def enqueue_tx_def slot_new_def tx_push_def ring_push_def
  tx_queue_new_def rx_queue_new_def slot_inv_def ring_inv_def

theorem service_keeps_frames_witness:
  "case service idle_driver (one_queued ()) free_air True of (s', air', r) \<Rightarrow>
     slot_inv s' \<and> sl_tx_in_flight s' = Some one_frame \<and> pending s' = [one_frame]"
proof -
  have inv: "slot_inv (one_queued ())" by (simp add: one_queued_eval)
  obtain s' air' r where sv: "service idle_driver (one_queued ()) free_air True = (s', air', r)"
    by (metis prod_cases3)
  have "sl_tx_in_flight s' = Some one_frame \<and> pending s' = [one_frame]"
    using sv
    by (auto simp: service_def service_flight_def one_queued_eval recv_loop.simps idle_driver_def
        service_send_def tx_front_def tx_pop_def ring_pop_def free_air_def is_tx_allowed_duty_cycle_def
        airtime_new_def service_finish_def rx_pop_def Let_def pending_def flying_def ring_list_def
        report_default_def report_header_def mesh_header_id_to_def one_frame_def tx_payload_def
        PACKET_HEADER_LEN_def)
  then show ?thesis using service_keeps_frames [OF inv sv] sv by simp
qed

text \<open>
  C10. One call of \<open>service\<close> hands at most one frame to the driver, and only the front of
  the transmit queue, with nothing in flight, the caller's leave and the duty cycle open. The
  receive queue is then empty after the driver has been drained: it was empty before the call,
  no poll of this call returned a frame, the last of them said that there is none, and the driver
  then answered that it is not receiving. The statement is over the log of the calls made to an
  arbitrary driver.
\<close>

theorem service_sends_safely:
  assumes "slot_inv s" "service (logged D) s air may_tx = (s', air', r)"
  shows "sends_at_most (\<lambda>pre f. send_ready s air may_tx pre f \<and> sl_tx_in_flight s = None \<and>
    (\<exists>pre'. pre = pre' @ [EvPollRecv (Inr None)])) s s'"
  using service_service_run [OF assms(2)]
proof cases
  case run_flight
  then show ?thesis
    using service_flight_quiet [OF run_flight(2)] by (auto intro: sends_at_most_quiet)
next
  case (run_restart s1 report d err)
  have "quiet s s1" using service_flight_quiet [OF run_restart(4)] by simp
  moreover have "quiet s1 s'"
    using start_rx_logged [OF run_restart(6)] run_restart(1) by (auto intro: quiet_snoc)
  ultimately show ?thesis by (blast intro: sends_at_most_quiet quiet_trans)
next
  case (run_recv s1 report completed s2 err)
  show ?thesis by (rule sends_at_most_quiet [OF recv_stage_quiet [OF assms(1) run_recv(2-4)]])
next
  case (run_send s1 report completed s2 s3 air3 report3 s4 r4)
  have s1: "sl_tx_queue s2 = sl_tx_queue s" "sl_rx_queue s2 = sl_rx_queue s" "sl_tx_in_flight s2 = None"
    and len: "sr_tx_len report \<noteq> None \<longleftrightarrow> sl_tx_in_flight s \<noteq> None" "completed \<longleftrightarrow> sl_tx_in_flight s \<noteq> None"
    using service_flight_Inr [OF run_send(1)] run_send(2) by auto
  have inv2: "ring_inv (sl_rx_queue s2)" using assms(1) s1 by (simp add: slot_inv_def)
  from recv_loop_effect [OF this run_send(3)]
  have s3: "sl_tx_queue s3 = sl_tx_queue s" "is_tx_allowed_duty_cycle air3 = is_tx_allowed_duty_cycle air"
    "ring_inv (sl_rx_queue s3)" "sr_tx_len report3 = sr_tx_len report"
    using s1 by (auto simp: recv_frame_def)
  have inv3: "ring_inv (sl_tx_queue s3)" using assms(1) s3 by (simp add: slot_inv_def)
  have "calls s' = calls s4"
    using run_send(5) by (auto dest: service_finish_fields split: sum.splits)
  then have sent: "sends_at_most (\<lambda>pre f. send_ready s3 air3 may_tx pre f \<and> pre = [] \<and> sr_tx_len report3 = None) s3 s'"
    using service_send_calls [OF inv3 run_send(4)] by (simp add: sends_at_most_def quiet_def)
  show ?thesis
  proof (cases "sl_tx_in_flight s")
    case None
    obtain evs where evs: "calls s3 = calls s @ evs" "list_all (\<lambda>e. \<not> is_send e) evs"
      "ring_list (sl_rx_queue s3) = ring_list (sl_rx_queue s) @ received evs"
      "ring_list (sl_rx_queue s3) = [] \<longrightarrow> (\<exists>evs'. evs = evs' @ [EvPollRecv (Inr None)])"
      using drained_calls [OF assms(1) None run_send(1-3,6)] .
    show ?thesis
      by (rule quiet_sends_at_most [OF evs(1,2) sent]) (use evs(3,4) s3 None in \<open>auto simp: send_ready_def\<close>)
  next
    case (Some tx)
    then have "quiet s3 s'" using sent len(1) s3(4) by (auto simp: sends_at_most_def)
    then show ?thesis
      using recv_stage_quiet [OF assms(1) run_send(1-3)] by (blast intro: sends_at_most_quiet quiet_trans)
  qed
qed

definition one_logged :: "(unit \<times> drv_event list) radio_slot" where
  "one_logged = one_queued ((), [])"

theorem service_sends_safely_witness:
  "case service (logged idle_driver) one_logged free_air True of (s', air', r) \<Rightarrow>
     calls s' = [EvPollRecv (Inr None), EvRxBusy (Inr False), EvSend one_frame] \<and>
     sends_at_most (\<lambda>pre f. send_ready one_logged free_air True pre f \<and> sl_tx_in_flight one_logged = None \<and>
       (\<exists>pre'. pre = pre' @ [EvPollRecv (Inr None)])) one_logged s'"
proof -
  have inv: "slot_inv one_logged" by (simp add: one_logged_def one_queued_eval)
  obtain s' air' r where sv: "service (logged idle_driver) one_logged free_air True = (s', air', r)"
    by (metis prod_cases3)
  have "calls s' = [EvPollRecv (Inr None), EvRxBusy (Inr False), EvSend one_frame]"
    using sv
    by (auto simp: service_def service_flight_def one_logged_def one_queued_eval recv_loop.simps idle_driver_def
        logged_def service_send_def tx_front_def tx_pop_def ring_pop_def free_air_def
        is_tx_allowed_duty_cycle_def airtime_new_def service_finish_def rx_pop_def Let_def
        report_default_def report_header_def mesh_header_id_to_def one_frame_def tx_payload_def
        PACKET_HEADER_LEN_def)
  then show ?thesis using service_sends_safely [OF inv sv] sv by simp
qed

end
