(* ===== verification/Etx.thy ===== *)
theory Etx
  imports RadioConfig
begin

unbundle bit_operations_syntax

text \<open>
  The price of a link (\<open>graph/etx.rs\<close>, \<open>graph/placeholder.rs\<close>): signal to noise ratio and
  signal strength become a delivery probability by interpolation in single precision, and its
  inverse, the expected number of transmissions, becomes a fixed point price in hundredths.
  Signal values of the types \<open>i8\<close>, \<open>i16\<close> and \<open>i32\<close> are integers. The lemmas show that the
  interpolation, for all its rounding, is monotone across its break points, so a better signal
  never costs more.
\<close>

section \<open>Placeholder nodes\<close>

definition PLACEHOLDER_NODE_PREFIX :: u32 where "PLACEHOLDER_NODE_PREFIX = 0xFF000000"

definition placeholder_node_id :: "u8 \<Rightarrow> u32" where
  "placeholder_node_id relay_byte = PLACEHOLDER_NODE_PREFIX OR ucast relay_byte"

definition get_placeholder_for_relay :: "u8 \<Rightarrow> u32" where
  "get_placeholder_for_relay relay_byte = placeholder_node_id relay_byte"

definition is_placeholder_node :: "u32 \<Rightarrow> bool" where
  "is_placeholder_node node_id \<longleftrightarrow> (node_id AND 0xFF000000) = PLACEHOLDER_NODE_PREFIX"

section \<open>Model\<close>

definition ETX_MIN_FIXED :: u16 where "ETX_MIN_FIXED = 100"
definition ETX_MAX_FIXED :: u16 where "ETX_MAX_FIXED = 10000"

definition SF7_SNR_THRESHOLD_DB :: f32 where "SF7_SNR_THRESHOLD_DB = Fin (- 15 / 2)"
definition SNR_THRESHOLD_STEP_DB_PER_SF :: f32 where "SNR_THRESHOLD_STEP_DB_PER_SF = Fin (- 5 / 2)"

definition spreading_factor_snr_threshold_db :: "u8 \<Rightarrow> f32" where
  "spreading_factor_snr_threshold_db sf =
     f32_add SF7_SNR_THRESHOLD_DB
       (f32_mul SNR_THRESHOLD_STEP_DB_PER_SF (f32_sub (f32_of_nat (unat sf)) (Fin 7)))"

definition preset_snr_threshold_db :: "u8 \<Rightarrow> f32" where
  "preset_snr_threshold_db preset =
     spreading_factor_snr_threshold_db (mp_spreading_factor (modem_preset_params preset False))"

text \<open>Decimal constants of the source are rounded to single precision; the break points are exact.\<close>

definition MARGIN_BREAK_DB :: "f32 list" where
  "MARGIN_BREAK_DB = map Fin [- 10, - 5, - 2, 0, 6, 12, 17]"

definition MARGIN_PROB :: "f32 list" where
  "MARGIN_PROB = map round32 [25 / 1000, 35 / 1000, 65 / 1000, 10 / 100, 40 / 100, 62 / 100, 95 / 100]"

definition MARGIN_LAST :: nat where "MARGIN_LAST = 6"

definition RSSI_FACTOR_BREAK_DBM :: "int list" where "RSSI_FACTOR_BREAK_DBM = [- 120, - 60]"
definition RSSI_FACTOR :: "f32 list" where "RSSI_FACTOR = map round32 [90 / 100, 1]"

definition NON_FINITE_SNR_FALLBACK_DB :: f32 where "NON_FINITE_SNR_FALLBACK_DB = Fin (- 100)"

definition SATURATED_RX_RSSI_DBM :: int where "SATURATED_RX_RSSI_DBM = - 30"

definition normalize_rx_signal :: "int \<Rightarrow> int \<Rightarrow> (int \<times> int) option" where
  "normalize_rx_signal rssi snr =
     (if rssi = 0 \<and> snr = 0 then None
      else if rssi = 0 then Some (SATURATED_RX_RSSI_DBM, snr)
      else Some (rssi, snr))"

definition f32_of_int :: "int \<Rightarrow> f32" where
  "f32_of_int n = round32 (of_int n)"

definition margin_delivery_probability :: "f32 \<Rightarrow> f32" where
  "margin_delivery_probability margin_db =
     (if f32_le margin_db (MARGIN_BREAK_DB ! 0) then MARGIN_PROB ! 0
      else if f32_le (MARGIN_BREAK_DB ! MARGIN_LAST) margin_db then MARGIN_PROB ! MARGIN_LAST
      else
        let seg = (case position (\<lambda>brk. f32_less margin_db brk) (drop 1 MARGIN_BREAK_DB) of
                     None \<Rightarrow> 0 | Some i \<Rightarrow> i);
            t = f32_div (f32_sub margin_db (MARGIN_BREAK_DB ! seg))
                  (f32_sub (MARGIN_BREAK_DB ! (seg + 1)) (MARGIN_BREAK_DB ! seg))
        in f32_add (MARGIN_PROB ! seg)
             (f32_mul t (f32_sub (MARGIN_PROB ! (seg + 1)) (MARGIN_PROB ! seg))))"

definition rssi_quality_factor :: "int \<Rightarrow> f32" where
  "rssi_quality_factor rssi =
     (if rssi \<le> RSSI_FACTOR_BREAK_DBM ! 0 then RSSI_FACTOR ! 0
      else if RSSI_FACTOR_BREAK_DBM ! 1 \<le> rssi then RSSI_FACTOR ! 1
      else
        let t = f32_div (f32_of_int (rssi - RSSI_FACTOR_BREAK_DBM ! 0))
                  (f32_of_int (RSSI_FACTOR_BREAK_DBM ! 1 - RSSI_FACTOR_BREAK_DBM ! 0))
        in f32_add (RSSI_FACTOR ! 0) (f32_mul t (f32_sub (RSSI_FACTOR ! 1) (RSSI_FACTOR ! 0))))"

definition calculate_etx :: "int \<Rightarrow> f32 \<Rightarrow> u8 \<Rightarrow> f32" where
  "calculate_etx rssi snr preset =
     (let snr = (if is_finite snr then snr else NON_FINITE_SNR_FALLBACK_DB);
          margin = f32_sub snr (preset_snr_threshold_db preset);
          prob = f32_mul (margin_delivery_probability margin) (rssi_quality_factor rssi)
      in if f32_less (Fin 0) prob then f32_div (Fin 1) prob else Fin 100)"

definition etx_to_fixed :: "f32 \<Rightarrow> u16" where
  "etx_to_fixed etx =
     (if \<not> is_finite etx then - 1
      else max (f32_to_word (f32_clamp (f32_mul etx (Fin 100)) (Fin 1) (Fin 65535))) ETX_MIN_FIXED)"

definition fixed_to_etx :: "u16 \<Rightarrow> f32" where
  "fixed_to_etx fixed = f32_div (f32_of_nat (unat fixed)) (Fin 100)"

text \<open>\<open>x as i8\<close> of a value clamped to the range of \<open>i8\<close>: towards zero, not a number to zero.\<close>

definition f32_to_i8 :: "f32 \<Rightarrow> int" where
  "f32_to_i8 x =
     (case x of NaN \<Rightarrow> 0 | NInf \<Rightarrow> - 128 | PInf \<Rightarrow> 127
      | Fin a \<Rightarrow> max (- 128) (min 127 (if 0 \<le> a then \<lfloor>a\<rfloor> else \<lceil>a\<rceil>)))"

definition etx_to_signal :: "f32 \<Rightarrow> u8 \<Rightarrow> int \<times> int" where
  "etx_to_signal etx preset =
     (let target_prob = f32_clamp (f32_div (Fin 1) (f32_max etx (Fin 1)))
            (MARGIN_PROB ! 0) (MARGIN_PROB ! MARGIN_LAST);
          margin =
            (if f32_le target_prob (MARGIN_PROB ! 0) then MARGIN_BREAK_DB ! 0
             else if f32_le (MARGIN_PROB ! MARGIN_LAST) target_prob then MARGIN_BREAK_DB ! MARGIN_LAST
             else
               let seg = (case position (\<lambda>p. f32_less target_prob p) (drop 1 MARGIN_PROB) of
                            None \<Rightarrow> 0 | Some i \<Rightarrow> i);
                   t = f32_div (f32_sub target_prob (MARGIN_PROB ! seg))
                         (f32_sub (MARGIN_PROB ! (seg + 1)) (MARGIN_PROB ! seg))
               in f32_add (MARGIN_BREAK_DB ! seg)
                    (f32_mul t (f32_sub (MARGIN_BREAK_DB ! (seg + 1)) (MARGIN_BREAK_DB ! seg))));
          snr = f32_add (preset_snr_threshold_db preset) margin
      in (RSSI_FACTOR_BREAK_DBM ! 1, f32_to_i8 (f32_clamp snr (Fin (- 128)) (Fin 127))))"

section \<open>Bounded operations stay finite\<close>

lemma rnd_neg: "rnd (- a) = - rnd a"
  by (auto simp: rnd_def)

lemma round32_bounded:
  assumes "\<bar>q\<bar> \<le> of_int n" "n \<le> 2 ^ 24"
  shows "round32 q = Fin (rnd q)" "\<bar>rnd q\<bar> \<le> of_int n"
proof -
  have n: "\<bar>n\<bar> \<le> 2 ^ 24" using assms by (metis abs_of_nonneg abs_ge_zero of_int_0_le_iff order_trans)
  have "rnd q \<le> of_int n" using assms(1) n by (intro rnd_le_int) linarith+
  moreover have "of_int (- n) \<le> rnd q" using assms(1) n by (intro rnd_ge_int) (simp, linarith)+
  ultimately show b: "\<bar>rnd q\<bar> \<le> of_int n" by simp
  have "of_int n \<le> (of_int (2 ^ 24) :: rat)" using assms(2) by (simp only: of_int_le_iff)
  then have "\<bar>rnd q\<bar> < 2 ^ 128" using b by simp
  then show "round32 q = Fin (rnd q)" by (simp add: round32_def Let_def abs_less_iff)
qed

lemma f32_of_int_small: "\<bar>n\<bar> \<le> 2 ^ 24 \<Longrightarrow> f32_of_int n = Fin (of_int n)"
  using round32_bounded(1) [of "of_int n" "\<bar>n\<bar>"] rnd_int [of n] by (simp add: f32_of_int_def)


section \<open>Interpolation is monotone\<close>

text \<open>One segment of a table, with every operation rounded.\<close>

definition interp :: "rat \<Rightarrow> rat \<Rightarrow> rat \<Rightarrow> rat \<Rightarrow> rat \<Rightarrow> rat" where
  "interp a b p q m = rnd (p + rnd (rnd (rnd (m - a) / rnd (b - a)) * rnd (q - p)))"

lemma rnd_0 [simp]: "rnd 0 = 0" by (simp add: rnd_def)

lemma rnd_1 [simp]: "rnd 1 = 1" using rnd_int [of 1] by simp

lemma interp_mono:
  assumes "a \<le> b" "p \<le> q" "m \<le> m'"
  shows "interp a b p q m \<le> interp a b p q m'"
proof -
  have "0 \<le> rnd (b - a)" "0 \<le> rnd (q - p)" using assms by (simp_all add: rnd_pos)
  then show ?thesis
    unfolding interp_def using assms(3)
    by (intro rnd_mono add_left_mono mult_right_mono divide_right_mono) simp_all
qed

lemma interp_start: "rnd p = p \<Longrightarrow> interp a b p q a = p"
  by (simp add: interp_def)

lemma interp_end: "rnd (b - a) \<noteq> 0 \<Longrightarrow> interp a b p q b = rnd (p + rnd (rnd (q - p)))"
  by (simp add: interp_def)

text \<open>
  The probabilities as representable numbers, and the sums at the segments' ends, which come out
  exactly at the next entry of the table.
\<close>

definition probs :: "rat list" where
  "probs = [13421773 / 536870912, 9395241 / 268435456, 1090519 / 16777216, 13421773 / 134217728,
     13421773 / 33554432, 5200937 / 8388608, 15938355 / 16777216]"

lemma rnd_by:
  fixes n :: int
  assumes "1 \<le> a * 2 ^ k" "a * 2 ^ k < 2" "k \<le> 126"
    "of_int n - 1 / 2 < a * 2 ^ (k + 23)" "a * 2 ^ (k + 23) < of_int n + 1 / 2"
  shows "rnd a = of_int n / 2 ^ (k + 23)"
proof -
  have pw: "(2::rat) powi (- int m) = 1 / 2 ^ m" for m by (simp add: power_int_minus divide_inverse)
  have e: "- int k + 1 = 1 - int k" "- int k - 23 = - int (k + 23)" by simp_all
  have "2 powi (- int k) \<le> a" using assms(1) by (simp add: pw divide_le_eq)
  moreover have "a < 2 powi (- int k + 1)"
    unfolding powi_split pw using assms(2) by (simp add: less_divide_eq)
  moreover have "rne (a / 2 powi (- int k - 23)) = n"
    unfolding e(2) pw using assms(4,5) by (intro rne_eval) simp_all
  ultimately have "rnd a = of_int n * 2 powi (- int k - 23)"
    using rnd_eval [of "- int k" a] assms(3) by simp
  then show ?thesis unfolding e(2) pw by simp
qed

lemma probs_rounded:
  "rnd (25 / 1000) = probs ! 0" "rnd (35 / 1000) = probs ! 1" "rnd (65 / 1000) = probs ! 2"
  "rnd (10 / 100) = probs ! 3" "rnd (40 / 100) = probs ! 4" "rnd (62 / 100) = probs ! 5"
  "rnd (95 / 100) = probs ! 6"
  using rnd_by [of "25 / 1000" 6 13421773] rnd_by [of "35 / 1000" 5 9395241]
    rnd_by [of "65 / 1000" 4 8724152] rnd_by [of "10 / 100" 4 13421773]
    rnd_by [of "40 / 100" 2 13421773] rnd_by [of "62 / 100" 1 10401874]
    rnd_by [of "95 / 100" 1 15938355]
  by (simp_all add: probs_def)

text \<open>The segment ends.\<close>

lemma rnd_segments:
  "rnd (5368709 / 536870912) = 5368709 / 536870912"
  "rnd (9395241 / 268435456) = 9395241 / 268435456"
  "rnd (8053063 / 268435456) = 8053063 / 268435456"
  "rnd (1090519 / 16777216) = 1090519 / 16777216"
  "rnd (4697621 / 134217728) = 4697621 / 134217728"
  "rnd (13421773 / 134217728) = 13421773 / 134217728"
  "rnd (40265319 / 134217728) = 5033165 / 16777216"
  "rnd (5033165 / 16777216) = 5033165 / 16777216"
  "rnd (53687093 / 134217728) = 13421773 / 33554432"
  "rnd (7381975 / 33554432) = 7381975 / 33554432"
  "rnd (5200937 / 8388608) = 5200937 / 8388608"
  "rnd (5536481 / 16777216) = 5536481 / 16777216"
  "rnd (15938355 / 16777216) = 15938355 / 16777216"
  "rnd 5 = 5" "rnd 3 = 3" "rnd 2 = 2" "rnd 6 = 6"
  using rnd_by [of "5368709 / 536870912" 7 10737418] rnd_by [of "9395241 / 268435456" 5 9395241]
    rnd_by [of "8053063 / 268435456" 6 16106126] rnd_by [of "1090519 / 16777216" 4 8724152]
    rnd_by [of "4697621 / 134217728" 5 9395242] rnd_by [of "13421773 / 134217728" 4 13421773]
    rnd_by [of "40265319 / 134217728" 2 10066330] rnd_by [of "5033165 / 16777216" 2 10066330]
    rnd_by [of "53687093 / 134217728" 2 13421773]
    rnd_by [of "7381975 / 33554432" 3 14763950] rnd_by [of "5200937 / 8388608" 1 10401874]
    rnd_by [of "5536481 / 16777216" 2 11072962] rnd_by [of "15938355 / 16777216" 1 15938355]
    rnd_int [of 5] rnd_int [of 3] rnd_int [of 2] rnd_int [of 6]
  by simp_all

lemma probs_ends:
  "interp (- 10) (- 5) (probs ! 0) (probs ! 1) (- 5) = probs ! 1"
  "interp (- 5) (- 2) (probs ! 1) (probs ! 2) (- 2) = probs ! 2"
  "interp (- 2) 0 (probs ! 2) (probs ! 3) 0 = probs ! 3"
  "interp 0 6 (probs ! 3) (probs ! 4) 6 = probs ! 4"
  "interp 6 12 (probs ! 4) (probs ! 5) 12 = probs ! 5"
  "interp 12 17 (probs ! 5) (probs ! 6) 17 = probs ! 6"
  by (simp_all add: interp_def probs_def rnd_segments)

lemma probs_exact: "k < 7 \<Longrightarrow> rnd (probs ! k) = probs ! k"
  using rnd_by [of "13421773 / 536870912" 6 13421773] rnd_by [of "9395241 / 268435456" 5 9395241]
    rnd_by [of "1090519 / 16777216" 4 8724152] rnd_by [of "13421773 / 134217728" 4 13421773]
    rnd_by [of "13421773 / 33554432" 2 13421773] rnd_by [of "5200937 / 8388608" 1 10401874]
    rnd_by [of "15938355 / 16777216" 1 15938355]
  by (auto simp: probs_def less_Suc_eq eval_nat_numeral)

lemma f32_interp:
  assumes "a \<le> m" "m \<le> b" "1 \<le> b - a" "b - a \<le> 1000" "0 \<le> p" "p \<le> q" "q \<le> 1"
  shows "f32_add (Fin p) (f32_mul (f32_div (f32_sub (Fin m) (Fin a)) (f32_sub (Fin b) (Fin a)))
    (f32_sub (Fin q) (Fin p))) = Fin (interp a b p q m)"
proof -
  have ba: "round32 (b - a) = Fin (rnd (b - a))" "1 \<le> rnd (b - a)"
    using assms round32_bounded [of "b - a" 1000] rnd_ge_int [of 1 "b - a"] by simp_all
  have ma: "round32 (m - a) = Fin (rnd (m - a))" "0 \<le> rnd (m - a)" "rnd (m - a) \<le> rnd (b - a)"
    using assms round32_bounded [of "m - a" 1000] by (simp_all add: rnd_pos rnd_mono)
  define t where "t = rnd (m - a) / rnd (b - a)"
  have t: "0 \<le> t" "t \<le> 1" using ma ba by (simp_all add: t_def)
  have rt: "round32 t = Fin (rnd t)" "0 \<le> rnd t" "rnd t \<le> 1"
    using t round32_bounded [of t 1] by (simp_all add: rnd_pos)
  have qp: "round32 (q - p) = Fin (rnd (q - p))" "0 \<le> rnd (q - p)" "rnd (q - p) \<le> 1"
    using assms round32_bounded [of "q - p" 1] by (simp_all add: rnd_pos)
  have m: "round32 (rnd t * rnd (q - p)) = Fin (rnd (rnd t * rnd (q - p)))"
    "0 \<le> rnd (rnd t * rnd (q - p))" "rnd (rnd t * rnd (q - p)) \<le> 1"
    using rt qp mult_le_one [of "rnd t" "rnd (q - p)"] round32_bounded [of "rnd t * rnd (q - p)" 1]
    by (simp_all add: rnd_pos)
  have "round32 (p + rnd (rnd t * rnd (q - p))) = Fin (rnd (p + rnd (rnd t * rnd (q - p))))"
    using m assms round32_bounded(1) [of "p + rnd (rnd t * rnd (q - p))" 2] by simp
  then show ?thesis using ba ma rt qp m by (simp add: f32_sub_def interp_def t_def)
qed

section \<open>Delivery probability\<close>

definition prob_of_margin :: "rat \<Rightarrow> rat" where
  "prob_of_margin m =
     (if m \<le> - 10 then probs ! 0 else if 17 \<le> m then probs ! 6
      else if m < - 5 then interp (- 10) (- 5) (probs ! 0) (probs ! 1) m
      else if m < - 2 then interp (- 5) (- 2) (probs ! 1) (probs ! 2) m
      else if m < 0 then interp (- 2) 0 (probs ! 2) (probs ! 3) m
      else if m < 6 then interp 0 6 (probs ! 3) (probs ! 4) m
      else if m < 12 then interp 6 12 (probs ! 4) (probs ! 5) m
      else interp 12 17 (probs ! 5) (probs ! 6) m)"

lemma probs_le: "probs ! 0 \<le> probs ! 1" "probs ! 1 \<le> probs ! 2" "probs ! 2 \<le> probs ! 3"
  "probs ! 3 \<le> probs ! 4" "probs ! 4 \<le> probs ! 5" "probs ! 5 \<le> probs ! 6" "probs ! 6 \<le> 1"
  "0 \<le> probs ! 0" "0 \<le> probs ! 1" "0 \<le> probs ! 2" "0 \<le> probs ! 3" "0 \<le> probs ! 4" "0 \<le> probs ! 5"
  "probs ! 1 \<le> 1" "probs ! 2 \<le> 1" "probs ! 3 \<le> 1" "probs ! 4 \<le> 1" "probs ! 5 \<le> 1"
  by (simp_all add: probs_def)

lemma MARGIN_PROB_eval: "MARGIN_PROB = map Fin probs"
proof -
  have "round32 q = Fin (rnd q)" if "0 \<le> q" "q \<le> 1" for q
    using that round32_bounded(1) [of q 1] by simp
  then show ?thesis
    using probs_rounded by (simp add: MARGIN_PROB_def probs_def)
qed

lemma MARGIN_PROB_nth: "k < 7 \<Longrightarrow> MARGIN_PROB ! k = Fin (probs ! k)"
  unfolding MARGIN_PROB_eval by (rule nth_map) (simp add: probs_def)

lemma margin_probability_eval: "margin_delivery_probability (Fin m) = Fin (prob_of_margin m)"
  using probs_le [unfolded One_nat_def eval_nat_numeral]
  by (auto simp: margin_delivery_probability_def prob_of_margin_def MARGIN_BREAK_DB_def
      MARGIN_PROB_nth MARGIN_LAST_def f32_le_def f32_interp eval_nat_numeral)

text \<open>On each closed segment the probability is that segment's interpolation, ends included.\<close>

lemma prob_on_segments:
  "- 10 \<le> m \<Longrightarrow> m \<le> - 5 \<Longrightarrow> prob_of_margin m = interp (- 10) (- 5) (probs ! 0) (probs ! 1) m"
  "- 5 \<le> m \<Longrightarrow> m \<le> - 2 \<Longrightarrow> prob_of_margin m = interp (- 5) (- 2) (probs ! 1) (probs ! 2) m"
  "- 2 \<le> m \<Longrightarrow> m \<le> 0 \<Longrightarrow> prob_of_margin m = interp (- 2) 0 (probs ! 2) (probs ! 3) m"
  "0 \<le> m \<Longrightarrow> m \<le> 6 \<Longrightarrow> prob_of_margin m = interp 0 6 (probs ! 3) (probs ! 4) m"
  "6 \<le> m \<Longrightarrow> m \<le> 12 \<Longrightarrow> prob_of_margin m = interp 6 12 (probs ! 4) (probs ! 5) m"
  "12 \<le> m \<Longrightarrow> m \<le> 17 \<Longrightarrow> prob_of_margin m = interp 12 17 (probs ! 5) (probs ! 6) m"
proof -
  note ends = probs_ends [unfolded One_nat_def] interp_start [OF probs_exact]
  show "- 10 \<le> m \<Longrightarrow> m \<le> - 5 \<Longrightarrow> prob_of_margin m = interp (- 10) (- 5) (probs ! 0) (probs ! 1) m"
    by (cases "m = - 10"; cases "m = - 5") (simp_all add: prob_of_margin_def ends)
  show "- 5 \<le> m \<Longrightarrow> m \<le> - 2 \<Longrightarrow> prob_of_margin m = interp (- 5) (- 2) (probs ! 1) (probs ! 2) m"
    by (cases "m = - 2") (simp_all add: prob_of_margin_def ends)
  show "- 2 \<le> m \<Longrightarrow> m \<le> 0 \<Longrightarrow> prob_of_margin m = interp (- 2) 0 (probs ! 2) (probs ! 3) m"
    by (cases "m = 0") (simp_all add: prob_of_margin_def ends)
  show "0 \<le> m \<Longrightarrow> m \<le> 6 \<Longrightarrow> prob_of_margin m = interp 0 6 (probs ! 3) (probs ! 4) m"
    by (cases "m = 6") (simp_all add: prob_of_margin_def ends)
  show "6 \<le> m \<Longrightarrow> m \<le> 12 \<Longrightarrow> prob_of_margin m = interp 6 12 (probs ! 4) (probs ! 5) m"
    by (cases "m = 12") (simp_all add: prob_of_margin_def ends)
  show "12 \<le> m \<Longrightarrow> m \<le> 17 \<Longrightarrow> prob_of_margin m = interp 12 17 (probs ! 5) (probs ! 6) m"
    by (cases "m = 17") (simp_all add: prob_of_margin_def ends)
qed

lemma mono_on_glue:
  fixes f :: "rat \<Rightarrow> rat"
  assumes "mono_on {..a} f" "mono_on {a..b} f" "a \<le> b"
  shows "mono_on {..b} f"
proof (rule mono_onI)
  fix x y assume xy: "x \<in> {..b}" "y \<in> {..b}" "x \<le> y"
  show "f x \<le> f y"
  proof (cases "x \<le> a \<and> a < y")
    case True
    then have "f x \<le> f a" "f a \<le> f y"
      using xy assms(3) by (auto intro: mono_onD [OF assms(1)] mono_onD [OF assms(2)])
    then show ?thesis by simp
  next
    case False
    then show ?thesis
      using xy by (cases "y \<le> a") (auto intro: mono_onD [OF assms(1)] mono_onD [OF assms(2)])
  qed
qed

lemma mono_on_interp:
  assumes "\<And>m. a \<le> m \<Longrightarrow> m \<le> b \<Longrightarrow> f m = interp a b p q m" "a \<le> b" "p \<le> q"
  shows "mono_on {a..b} f"
  using assms interp_mono [OF assms(2,3)] by (auto intro!: mono_onI)

lemma prob_of_margin_mono:
  assumes "m \<le> m'"
  shows "prob_of_margin m \<le> prob_of_margin m'"
proof -
  have "mono_on {..- 10} prob_of_margin" by (auto intro!: mono_onI simp: prob_of_margin_def)
  then have "mono_on {..- 5} prob_of_margin"
    by (rule mono_on_glue [OF _ mono_on_interp [OF prob_on_segments(1)]]) (simp_all add: probs_le [unfolded One_nat_def])
  then have "mono_on {..- 2} prob_of_margin"
    by (rule mono_on_glue [OF _ mono_on_interp [OF prob_on_segments(2)]]) (simp_all add: probs_le [unfolded One_nat_def])
  then have "mono_on {..0} prob_of_margin"
    by (rule mono_on_glue [OF _ mono_on_interp [OF prob_on_segments(3)]]) (simp_all add: probs_le)
  then have "mono_on {..6} prob_of_margin"
    by (rule mono_on_glue [OF _ mono_on_interp [OF prob_on_segments(4)]]) (simp_all add: probs_le)
  then have "mono_on {..12} prob_of_margin"
    by (rule mono_on_glue [OF _ mono_on_interp [OF prob_on_segments(5)]]) (simp_all add: probs_le)
  then have "mono_on {..17} prob_of_margin"
    by (rule mono_on_glue [OF _ mono_on_interp [OF prob_on_segments(6)]]) (simp_all add: probs_le)
  then have "mono_on {..max 17 m'} prob_of_margin"
    by (rule mono_on_glue) (auto intro!: mono_onI simp: prob_of_margin_def)
  then show ?thesis using assms by (auto intro: mono_onD)
qed

lemma prob_of_margin_range: "probs ! 0 \<le> prob_of_margin m" "prob_of_margin m \<le> probs ! 6"
proof -
  have "prob_of_margin (min m (- 10)) = probs ! 0" by (simp add: prob_of_margin_def)
  then show "probs ! 0 \<le> prob_of_margin m" using prob_of_margin_mono [of "min m (- 10)" m] by simp
  have "prob_of_margin (max m 17) = probs ! 6" by (simp add: prob_of_margin_def)
  then show "prob_of_margin m \<le> probs ! 6" using prob_of_margin_mono [of m "max m 17"] by simp
qed

section \<open>Signal strength factor\<close>

definition factor_of_rssi :: "int \<Rightarrow> rat" where
  "factor_of_rssi r =
     (if r \<le> - 120 then 7549747 / 8388608 else if - 60 \<le> r then 1
      else interp (- 120) (- 60) (7549747 / 8388608) 1 (of_int r))"

lemma factor_consts:
  "rnd (9 / 10) = 7549747 / 8388608" "rnd (7549747 / 8388608) = 7549747 / 8388608"
  "rnd (838861 / 8388608) = 838861 / 8388608" "rnd 60 = 60"
  using rnd_by [of "9 / 10" 1 15099494] rnd_by [of "7549747 / 8388608" 1 15099494]
    rnd_by [of "838861 / 8388608" 4 13421776] rnd_int [of 60]
  by simp_all

lemma rssi_factor_eval: "rssi_quality_factor r = Fin (factor_of_rssi r)"
proof -
  have f: "RSSI_FACTOR = [Fin (7549747 / 8388608), Fin 1]"
    using round32_bounded(1) [of "9 / 10" 1] round32_bounded(1) [of 1 1]
    by (simp add: RSSI_FACTOR_def factor_consts)
  show ?thesis
  proof (cases "- 120 < r \<and> r < - 60")
    case True
    then have "f32_of_int (r - (- 120)) = f32_sub (Fin (of_int r)) (Fin (- 120))"
      "f32_of_int (- 60 - (- 120)) = f32_sub (Fin (- 60)) (Fin (- 120))"
      by (simp_all add: f32_of_int_def f32_sub_def)
    then show ?thesis
      using True f32_interp [of "- 120" "of_int r" "- 60" "7549747 / 8388608" 1]
      by (simp add: rssi_quality_factor_def factor_of_rssi_def RSSI_FACTOR_BREAK_DBM_def f)
  qed (auto simp: rssi_quality_factor_def factor_of_rssi_def RSSI_FACTOR_BREAK_DBM_def f)
qed

lemma interp_factor: "- 120 \<le> m \<Longrightarrow> m \<le> - 60 \<Longrightarrow>
  7549747 / 8388608 \<le> interp (- 120) (- 60) (7549747 / 8388608) 1 m \<and>
  interp (- 120) (- 60) (7549747 / 8388608) 1 m \<le> 1"
  using interp_mono [of "- 120" "- 60" "7549747 / 8388608" 1 "- 120" m]
    interp_mono [of "- 120" "- 60" "7549747 / 8388608" 1 m "- 60"]
    interp_start [of "7549747 / 8388608" "- 120" "- 60" 1]
    interp_end [of "- 60" "- 120" "7549747 / 8388608" 1]
  by (simp add: factor_consts)

lemma factor_of_rssi_range: "7549747 / 8388608 \<le> factor_of_rssi r" "factor_of_rssi r \<le> 1"
  using interp_factor [of "of_int r"] by (auto simp: factor_of_rssi_def)

lemma factor_of_rssi_mono:
  assumes "r \<le> r'"
  shows "factor_of_rssi r \<le> factor_of_rssi r'"
  using assms factor_of_rssi_range [of r] factor_of_rssi_range [of r']
    interp_mono [of "- 120" "- 60" "7549747 / 8388608" 1 "of_int r" "of_int r'"]
  by (auto simp: factor_of_rssi_def split: if_splits)

section \<open>The price\<close>

lemma threshold_bounded: "\<exists>q. preset_snr_threshold_db preset = Fin q \<and> \<bar>q\<bar> \<le> 100"
proof -
  let ?sf = "mp_spreading_factor (modem_preset_params preset False)"
  define n where "n = unat ?sf"
  have "n \<le> 12" unfolding n_def by (simp add: modem_preset_params_def Let_def)
  then have r: "rat_of_nat n \<le> 12" using of_nat_mono [of n 12] by simp
  have sf: "f32_of_nat n = Fin (of_nat n)" "\<bar>of_nat n - 7 :: rat\<bar> \<le> of_int 7"
    using r round32_bounded(1) [of "of_nat n" 12] rnd_int [of "int n"] \<open>n \<le> 12\<close>
    by (simp_all add: f32_of_nat_def abs_le_iff)
  define d where "d = rnd (of_nat n - 7)"
  have d: "f32_sub (f32_of_nat (unat ?sf)) (Fin 7) = Fin d" "\<bar>d\<bar> \<le> 7"
    using round32_bounded [OF sf(2)] by (simp_all add: sf(1) f32_sub_def d_def n_def [symmetric])
  define e where "e = rnd (- 5 / 2 * d)"
  have e: "f32_mul SNR_THRESHOLD_STEP_DB_PER_SF (Fin d) = Fin e" "\<bar>e\<bar> \<le> 18"
    using round32_bounded [of "- 5 / 2 * d" 18] d(2)
    by (simp_all add: SNR_THRESHOLD_STEP_DB_PER_SF_def e_def abs_mult)
  have "f32_add SF7_SNR_THRESHOLD_DB (Fin e) = Fin (rnd (- 15 / 2 + e))" "\<bar>rnd (- 15 / 2 + e)\<bar> \<le> 100"
    using round32_bounded [of "- 15 / 2 + e" 100] e(2) by (simp_all add: SF7_SNR_THRESHOLD_DB_def abs_le_iff)
  then show ?thesis
    by (simp add: preset_snr_threshold_db_def spreading_factor_snr_threshold_db_def d(1) e(1))
qed

text \<open>The delivery probability as a rational, for a threshold \<open>q\<close> of the preset.\<close>

definition delivery :: "rat \<Rightarrow> int \<Rightarrow> int \<Rightarrow> rat" where
  "delivery q rssi snr = rnd (prob_of_margin (rnd (of_int snr - q)) * factor_of_rssi rssi)"

lemma delivery_mono:
  assumes "rssi \<le> rssi'" "snr \<le> snr'"
  shows "delivery q rssi snr \<le> delivery q rssi' snr'"
proof -
  have p: "prob_of_margin (rnd (of_int snr - q)) \<le> prob_of_margin (rnd (of_int snr' - q))"
    using assms(2) by (intro prob_of_margin_mono rnd_mono) simp
  have "0 \<le> prob_of_margin (rnd (of_int snr' - q))"
    using prob_of_margin_range(1) probs_le(8) order_trans by blast
  moreover have "0 \<le> factor_of_rssi rssi"
    using factor_of_rssi_range(1) [of rssi] by (rule order_trans [rotated]) simp
  ultimately show ?thesis
    unfolding delivery_def using p factor_of_rssi_mono [OF assms(1)]
    by (intro rnd_mono mult_mono)
qed

lemma delivery_range: "1 / 64 \<le> delivery q rssi snr" "delivery q rssi snr \<le> 1"
proof -
  let ?p = "prob_of_margin (rnd (of_int snr - q))"
  have p: "13421773 / 536870912 \<le> ?p" "?p \<le> 1"
    using prob_of_margin_range [of "rnd (of_int snr - q)"] by (simp_all add: probs_def)
  note f = factor_of_rssi_range [of rssi]
  have "13421773 / 536870912 * (7549747 / 8388608) \<le> ?p * factor_of_rssi rssi"
    using p f by (intro mult_mono) simp_all
  then have "rnd (1 / 64) \<le> delivery q rssi snr" unfolding delivery_def by (intro rnd_mono) simp
  moreover have "rnd (1 / 64) = 1 / 64" using rnd_by [of "1 / 64" 6 8388608] by simp
  ultimately show "1 / 64 \<le> delivery q rssi snr" by simp
  have "?p * factor_of_rssi rssi \<le> 1" using p f by (intro mult_le_one) simp_all
  then have "delivery q rssi snr \<le> rnd 1" unfolding delivery_def by (rule rnd_mono)
  then show "delivery q rssi snr \<le> 1" by simp
qed

lemma calculate_etx_eval:
  assumes "preset_snr_threshold_db preset = Fin q" "\<bar>q\<bar> \<le> 100" "\<bar>snr\<bar> \<le> 128"
  shows "calculate_etx rssi (f32_of_int snr) preset = Fin (rnd (1 / delivery q rssi snr))"
proof -
  have s: "f32_of_int snr = Fin (of_int snr)" using assms(3) by (simp add: f32_of_int_small)
  have "\<bar>rat_of_int snr\<bar> \<le> 128" using assms(3) by (metis of_int_abs of_int_le_iff of_int_numeral)
  then have m: "f32_sub (Fin (of_int snr)) (Fin q) = Fin (rnd (of_int snr - q))"
    using round32_bounded(1) [of "of_int snr - q" 300] assms(2)
    by (simp add: f32_sub_def abs_le_iff)
  let ?p = "prob_of_margin (rnd (of_int snr - q)) * factor_of_rssi rssi"
  have "0 \<le> prob_of_margin (rnd (of_int snr - q))" "prob_of_margin (rnd (of_int snr - q)) \<le> 1"
    using prob_of_margin_range [of "rnd (of_int snr - q)"] by (simp_all add: probs_def)
  then have "0 \<le> ?p" "?p \<le> 1"
    using factor_of_rssi_range [of rssi] by (simp_all add: mult_le_one)
  then have "round32 ?p = Fin (delivery q rssi snr)"
    using round32_bounded(1) [of ?p 1] by (simp add: delivery_def)
  moreover note delivery_range [of q rssi snr]
  moreover have "1 / delivery q rssi snr \<le> 64" "0 \<le> 1 / delivery q rssi snr"
    using delivery_range(1) [of q rssi snr] by (simp_all add: divide_le_eq)
  then have "round32 (1 / delivery q rssi snr) = Fin (rnd (1 / delivery q rssi snr))"
    using round32_bounded(1) [of "1 / delivery q rssi snr" 64] by simp
  ultimately show ?thesis
    by (simp add: calculate_etx_def s is_finite_def assms(1) m margin_probability_eval rssi_factor_eval
        Let_def)
qed

definition fixed_price :: "rat \<Rightarrow> nat" where
  "fixed_price e = max (nat \<lfloor>max 1 (rnd (e * 100))\<rfloor>) 100"

lemma etx_to_fixed_eval:
  assumes "0 \<le> e" "e \<le> 64"
  shows "unat (etx_to_fixed (Fin e)) = fixed_price e" "fixed_price e \<le> 6400"
proof -
  have r: "round32 (e * 100) = Fin (rnd (e * 100))" "\<bar>rnd (e * 100)\<bar> \<le> 6400"
    using assms round32_bounded [of "e * 100" 6400] by simp_all
  let ?x = "max 1 (rnd (e * 100))"
  have "\<lfloor>?x\<rfloor> \<le> 6400" using r(2) by (simp add: floor_le_iff)
  then have n: "nat \<lfloor>?x\<rfloor> \<le> 6400" by (simp only: nat_le_iff of_nat_numeral)
  have c: "f32_clamp (Fin (rnd (e * 100))) (Fin 1) (Fin 65535) = Fin ?x"
    using r(2) by (auto simp: f32_clamp_def Let_def max_def)
  show "fixed_price e \<le> 6400" using n by (simp add: fixed_price_def)
  have "unat (of_nat k :: u16) = k" if "k \<le> 6400" for k using that by (simp add: unat_of_nat)
  from this [OF n] have "unat (of_nat (min 65535 (nat \<lfloor>?x\<rfloor>)) :: u16) = nat \<lfloor>?x\<rfloor>"
    using n by (simp only: min_def) simp
  then have "unat (f32_to_word (Fin ?x) :: u16) = nat \<lfloor>?x\<rfloor>"
    by (simp add: f32_to_word_def f32_to_nat_def)
  then show "unat (etx_to_fixed (Fin e)) = fixed_price e"
    by (simp add: etx_to_fixed_def is_finite_def r(1) c fixed_price_def ETX_MIN_FIXED_def
        max_def word_le_nat_alt)
qed

lemma etx_to_fixed_two: "etx_to_fixed (Fin 2) = 200"
proof -
  have "rnd 200 = (200 :: rat)" using rnd_int [of 200] by simp
  then have "fixed_price 2 = 200" by (simp add: fixed_price_def)
  then show ?thesis using etx_to_fixed_eval(1) [of 2] by (simp add: word_unat_eq_iff)
qed

lemma fixed_price_mono: "e \<le> e' \<Longrightarrow> fixed_price e \<le> fixed_price e'"
  unfolding fixed_price_def
  by (intro max.mono nat_mono floor_mono rnd_mono mult_right_mono order_refl) simp_all

section \<open>Property\<close>

text \<open>
  C36. A better signal never costs more: at every preset, raising the signal strength or the
  signal to noise ratio of a reception does not raise the fixed point price computed from it,
  and every price lies between 100 and 6400 hundredths.
\<close>

theorem better_signal_never_costs_more:
  assumes "rssi \<le> rssi'" "- 128 \<le> snr" "snr \<le> snr'" "snr' \<le> 127"
  shows "etx_to_fixed (calculate_etx rssi' (f32_of_int snr') preset)
      \<le> etx_to_fixed (calculate_etx rssi (f32_of_int snr) preset) \<and>
    100 \<le> etx_to_fixed (calculate_etx rssi (f32_of_int snr) preset) \<and>
    etx_to_fixed (calculate_etx rssi (f32_of_int snr) preset) \<le> 6400"
proof -
  obtain q where q: "preset_snr_threshold_db preset = Fin q" "\<bar>q\<bar> \<le> 100"
    using threshold_bounded by blast
  have e: "calculate_etx rssi (f32_of_int snr) preset = Fin (rnd (1 / delivery q rssi snr))"
    "calculate_etx rssi' (f32_of_int snr') preset = Fin (rnd (1 / delivery q rssi' snr'))"
    using assms by (auto intro!: calculate_etx_eval [OF q])
  have b: "0 \<le> rnd (1 / delivery q a b)" "rnd (1 / delivery q a b) \<le> 64" for a b
    using delivery_range(1) [of q a b] rnd_le_int [of "1 / delivery q a b" 64]
    by (simp_all add: rnd_pos divide_le_eq)
  have "1 / delivery q rssi' snr' \<le> 1 / delivery q rssi snr"
    using delivery_mono [OF assms(1,3), of q] delivery_range(1) [of q rssi snr]
    by (intro divide_left_mono) (auto simp: zero_less_mult_iff)
  then have "fixed_price (rnd (1 / delivery q rssi' snr')) \<le> fixed_price (rnd (1 / delivery q rssi snr))"
    by (intro fixed_price_mono rnd_mono)
  moreover have "100 \<le> fixed_price x" for x by (simp add: fixed_price_def)
  ultimately show ?thesis
    using etx_to_fixed_eval(2) [OF b, of rssi snr]
    by (simp add: e word_le_nat_alt etx_to_fixed_eval(1) [OF b])
qed

theorem better_signal_never_costs_more_witness:
  "etx_to_fixed (calculate_etx (- 60) (f32_of_int 10) MODEM_LONG_FAST)
     \<le> etx_to_fixed (calculate_etx (- 110) (f32_of_int (- 12)) MODEM_LONG_FAST)"
  using better_signal_never_costs_more [of "- 110" "- 60" "- 12" 10 MODEM_LONG_FAST] by simp

end
