(* ===== verification/GraphEdges.thy ===== *)
theory GraphEdges
  imports Etx Downstream
begin

text \<open>
  The graph of known nodes and links (\<open>graph/edge.rs\<close>): at most 32 nodes, each with the at most
  40 edges it is known to have, kept in arrays with a count. The store admits a node only within
  its horizon of three hops, evicts by class when it is full, hands the destinations of an evicted
  node over to a direct neighbour in the downstream table, and drops what the root no longer
  reaches. Compaction loops are \<open>compact_loop\<close>; the depth first search keeps the code's
  bounded stack.
\<close>

section \<open>Edges\<close>

definition MAX_EDGES_PER_NODE :: nat where "MAX_EDGES_PER_NODE = 40"
definition MAX_GRAPH_NODES :: nat where "MAX_GRAPH_NODES = 32"
definition GRAPH_MAX_DEPTH :: nat where "GRAPH_MAX_DEPTH = 3"

definition EDGE_NO_CHANGE :: int where "EDGE_NO_CHANGE = 0"
definition EDGE_NEW :: int where "EDGE_NEW = 1"
definition EDGE_SIGNIFICANT_CHANGE :: int where "EDGE_SIGNIFICANT_CHANGE = 2"

datatype edge_source = Mirrored | Reported | Inferred

fun source_rank :: "edge_source \<Rightarrow> nat" where
  "source_rank Inferred = 0" | "source_rank Mirrored = 1" | "source_rank Reported = 2"

definition is_measured :: "edge_source \<Rightarrow> bool" where
  "is_measured s \<longleftrightarrow> s \<noteq> Inferred"

record edge =
  eg_to :: u32
  eg_etx_fixed :: u16
  eg_last_update_ms :: u32
  eg_etx_variance :: u8
  eg_source :: edge_source
  eg_hears_us :: bool
  eg_heard_on :: u8
  eg_last_heard_ms :: u32

definition edge_default :: edge where
  "edge_default = \<lparr>eg_to = 0, eg_etx_fixed = 0, eg_last_update_ms = 0, eg_etx_variance = 0,
     eg_source = Mirrored, eg_hears_us = False, eg_heard_on = 0, eg_last_heard_ms = 0\<rparr>"

definition edge_etx :: "edge \<Rightarrow> f32" where
  "edge_etx e = fixed_to_etx (eg_etx_fixed e)"

definition set_etx :: "edge \<Rightarrow> f32 \<Rightarrow> edge" where
  "set_etx e etx = e\<lparr>eg_etx_fixed := etx_to_fixed etx\<rparr>"

definition etx_variance_f :: "edge \<Rightarrow> f32" where
  "etx_variance_f e = f32_div (f32_of_nat (unat (eg_etx_variance e))) (Fin 20)"

definition update_etx_variance :: "edge \<Rightarrow> f32 \<Rightarrow> edge" where
  "update_etx_variance e abs_change =
     (let cur = etx_variance_f e;
          updated = f32_add (f32_mul (Fin (3 / 4)) cur) (f32_mul (Fin (1 / 4)) abs_change);
          scaled = f32_to_word (f32_add (f32_mul updated (Fin 20)) (Fin (1 / 2))) :: u16
      in e\<lparr>eg_etx_variance := ucast (min scaled 255)\<rparr>)"

text \<open>
  The products of the penalty for silence fit in 64 bits and the quotients in 16, so they are
  computed in \<open>nat\<close>.
\<close>

definition silence_etx_fixed_from_age :: "u32 \<Rightarrow> u32 \<Rightarrow> u16" where
  "silence_etx_fixed_from_age age_ms period_ms =
     (if period_ms < 2 then 1275
      else
        let half = period_ms div 2 in
        if age_ms < half then 0
        else if age_ms < period_ms then of_nat (unat (age_ms - half) * 50 div unat half)
        else if unat age_ms < unat period_ms * 2
          then of_nat (50 + unat (age_ms - period_ms) * 550 div unat period_ms)
        else 1275)"

definition silence_variance_byte_from_age :: "u32 \<Rightarrow> u32 \<Rightarrow> u8" where
  "silence_variance_byte_from_age age_ms period_ms =
     of_nat (min ((unat (silence_etx_fixed_from_age age_ms period_ms) * 20 + 50) div 100) 255)"

definition effective_variance_byte :: "edge \<Rightarrow> u32 \<Rightarrow> u32 \<Rightarrow> bool \<Rightarrow> u8" where
  "effective_variance_byte e now_ms period_ms our_rx =
     (if \<not> our_rx \<or> eg_last_heard_ms e = 0 then eg_etx_variance e
      else sat_add (eg_etx_variance e)
             (silence_variance_byte_from_age (now_ms - eg_last_heard_ms e) period_ms))"

section \<open>Nodes\<close>

datatype node_class = ClassUnknown | ClassL1 | ClassL2 | ClassL3

fun class_depth :: "node_class \<Rightarrow> nat" where
  "class_depth ClassL1 = 1" | "class_depth ClassL2 = 2" | "class_depth ClassL3 = 3"
| "class_depth ClassUnknown = 255"

fun eviction_rank :: "node_class \<Rightarrow> nat" where
  "eviction_rank ClassUnknown = 3" | "eviction_rank ClassL3 = 2" | "eviction_rank ClassL2 = 1"
| "eviction_rank ClassL1 = 0"

record node_edges =
  ne_node_id :: u32
  ne_edge_count :: nat
  ne_last_full_update_ms :: u32
  ne_class :: node_class
  ne_parent_hint :: u32
  ne_edges :: "edge list"

definition node_fresh :: "u32 \<Rightarrow> u32 \<Rightarrow> node_class \<Rightarrow> u32 \<Rightarrow> node_edges" where
  "node_fresh node_id now_ms cls parent_hint =
     \<lparr>ne_node_id = node_id, ne_edge_count = 0, ne_last_full_update_ms = now_ms, ne_class = cls,
      ne_parent_hint = parent_hint, ne_edges = replicate MAX_EDGES_PER_NODE edge_default\<rparr>"

definition live_edges :: "node_edges \<Rightarrow> edge list" where
  "live_edges n = take (ne_edge_count n) (ne_edges n)"

definition find_edge :: "node_edges \<Rightarrow> u32 \<Rightarrow> edge option" where
  "find_edge n to = find (\<lambda>e. eg_to e = to) (live_edges n)"

definition modify_edge :: "node_edges \<Rightarrow> u32 \<Rightarrow> (edge \<Rightarrow> edge) \<Rightarrow> node_edges" where
  "modify_edge n to f =
     (case position (\<lambda>e. eg_to e = to) (live_edges n) of
        None \<Rightarrow> n | Some i \<Rightarrow> n\<lparr>ne_edges := (ne_edges n)[i := f (ne_edges n ! i)]\<rparr>)"

record pending_demotion =
  pd_victim :: u32
  pd_parent :: u32
  pd_cost_fixed :: u16

record edge_store =
  es_nodes :: "node_edges list"
  es_node_count :: nat
  es_etx_change_threshold :: f32
  es_pending_demotion :: "pending_demotion option"

definition es_new :: edge_store where
  "es_new = \<lparr>es_nodes = replicate MAX_GRAPH_NODES \<lparr>ne_node_id = 0, ne_edge_count = 0,
       ne_last_full_update_ms = 0, ne_class = ClassUnknown, ne_parent_hint = 0,
       ne_edges = replicate MAX_EDGES_PER_NODE (edge_default\<lparr>eg_etx_fixed := 100\<rparr>)\<rparr>,
     es_node_count = 0, es_etx_change_threshold = Fin (1 / 2), es_pending_demotion = None\<rparr>"

definition es_clear :: "edge_store \<Rightarrow> edge_store" where
  "es_clear s = s\<lparr>es_node_count := 0, es_pending_demotion := None\<rparr>"

definition take_pending_demotion :: "edge_store \<Rightarrow> edge_store \<times> pending_demotion option" where
  "take_pending_demotion s = (s\<lparr>es_pending_demotion := None\<rparr>, es_pending_demotion s)"

definition live_nodes :: "edge_store \<Rightarrow> node_edges list" where
  "live_nodes s = take (es_node_count s) (es_nodes s)"

definition find_node :: "edge_store \<Rightarrow> u32 \<Rightarrow> node_edges option" where
  "find_node s node_id = find (\<lambda>n. ne_node_id n = node_id) (live_nodes s)"

definition find_node_index :: "edge_store \<Rightarrow> u32 \<Rightarrow> nat option" where
  "find_node_index s node_id = position (\<lambda>n. ne_node_id n = node_id) (live_nodes s)"

text \<open>A change through \<open>find_node_mut\<close>.\<close>

definition modify_node :: "edge_store \<Rightarrow> u32 \<Rightarrow> (node_edges \<Rightarrow> node_edges) \<Rightarrow> edge_store" where
  "modify_node s node_id f =
     (case find_node_index s node_id of
        None \<Rightarrow> s | Some i \<Rightarrow> s\<lparr>es_nodes := (es_nodes s)[i := f (es_nodes s ! i)]\<rparr>)"

text \<open>\<open>find_node(a).and_then(|n| n.find_edge(b))\<close>.\<close>

definition edge_of :: "edge_store \<Rightarrow> u32 \<Rightarrow> u32 \<Rightarrow> edge option" where
  "edge_of s a b = Option.bind (find_node s a) (\<lambda>n. find_edge n b)"

definition es_node_class :: "edge_store \<Rightarrow> u32 \<Rightarrow> node_class option" where
  "es_node_class s node_id = map_option ne_class (find_node s node_id)"

definition count_horizon_classes :: "edge_store \<Rightarrow> nat \<times> nat \<times> nat" where
  "count_horizon_classes s =
     (let n = (\<lambda>c. min 255 (length (filter (\<lambda>x. ne_class x = c) (live_nodes s))))
      in (n ClassL1, n ClassL2, n ClassL3))"

definition set_node_class :: "edge_store \<Rightarrow> u32 \<Rightarrow> node_class \<Rightarrow> u32 \<Rightarrow> edge_store" where
  "set_node_class s node_id cls parent_hint =
     modify_node s node_id (\<lambda>n.
       if ne_class n = ClassL1 \<and> cls \<noteq> ClassL1
       then (if parent_hint \<noteq> 0 then n\<lparr>ne_parent_hint := parent_hint\<rparr> else n)
       else let n = n\<lparr>ne_class := cls\<rparr>
            in if parent_hint \<noteq> 0 then n\<lparr>ne_parent_hint := parent_hint\<rparr> else n)"

definition set_l1 :: "edge_store \<Rightarrow> u32 \<Rightarrow> edge_store" where
  "set_l1 s node_id = modify_node s node_id (\<lambda>n. n\<lparr>ne_class := ClassL1, ne_parent_hint := 0\<rparr>)"

definition class_within_depth :: "node_class \<Rightarrow> bool" where
  "class_within_depth c \<longleftrightarrow> c \<noteq> ClassUnknown \<and> class_depth c \<le> GRAPH_MAX_DEPTH"

definition node_id_at :: "edge_store \<Rightarrow> nat \<Rightarrow> u32 option" where
  "node_id_at s i = (if i < es_node_count s then Some (ne_node_id (es_nodes s ! i)) else None)"

definition is_our_direct_neighbor :: "edge_store \<Rightarrow> u32 \<Rightarrow> u32 \<Rightarrow> bool" where
  "is_our_direct_neighbor s node_id my_node \<longleftrightarrow> edge_of s my_node node_id \<noteq> None"

definition has_direct_reported_edge_to :: "edge_store \<Rightarrow> u32 \<Rightarrow> u32 \<Rightarrow> bool" where
  "has_direct_reported_edge_to s frm to \<longleftrightarrow>
     (case edge_of s frm to of None \<Rightarrow> False | Some e \<Rightarrow> eg_source e = Reported)"

definition reachable_via_neighbor :: "edge_store \<Rightarrow> u32 \<Rightarrow> bool" where
  "reachable_via_neighbor s node_id \<longleftrightarrow>
     list_ex (\<lambda>n. list_ex (\<lambda>e. eg_to e = node_id) (live_edges n)) (live_nodes s)"

definition reachable_via_hears_us :: "edge_store \<Rightarrow> u32 \<Rightarrow> bool" where
  "reachable_via_hears_us s node_id \<longleftrightarrow>
     list_ex (\<lambda>n. list_ex (\<lambda>e. eg_to e = node_id \<and> eg_hears_us e) (live_edges n)) (live_nodes s)"

section \<open>Eviction\<close>

text \<open>
  The victim: the largest rank, then the fewest edges, then the oldest, the first among equals.
\<close>

fun victim_loop ::
  "u32 \<Rightarrow> bool \<Rightarrow> u32 \<Rightarrow> node_edges list \<Rightarrow> nat \<Rightarrow> (nat \<times> nat \<times> nat \<times> u32) option \<Rightarrow>
   (nat \<times> nat \<times> nat \<times> u32) option" where
  "victim_loop my_node protect_l1 now_ms [] i best = best"
| "victim_loop my_node protect_l1 now_ms (n # ns) i best =
     (if ne_node_id n = my_node then victim_loop my_node protect_l1 now_ms ns (Suc i) best
      else if protect_l1 \<and> ne_class n = ClassL1 then victim_loop my_node protect_l1 now_ms ns (Suc i) best
      else
        let rank = eviction_rank (ne_class n) in
        if protect_l1 \<and> rank = 0 then victim_loop my_node protect_l1 now_ms ns (Suc i) best
        else
          let edges = ne_edge_count n; age = now_ms - ne_last_full_update_ms n;
              better = (case best of None \<Rightarrow> True
                | Some (_, br, be, ba) \<Rightarrow>
                    br < rank \<or> (rank = br \<and> (edges < be \<or> (edges = be \<and> ba < age))))
          in victim_loop my_node protect_l1 now_ms ns (Suc i)
               (if better then Some (i, rank, edges, age) else best))"

definition select_eviction_victim :: "edge_store \<Rightarrow> u32 \<Rightarrow> bool \<Rightarrow> u32 \<Rightarrow> nat option" where
  "select_eviction_victim s my_node protect_l1 now_ms =
     map_option fst (victim_loop my_node protect_l1 now_ms (live_nodes s) 0 None)"

fun parent_loop ::
  "edge_store \<Rightarrow> u32 \<Rightarrow> u32 \<Rightarrow> edge list \<Rightarrow> (u32 \<times> u16) option \<Rightarrow> (u32 \<times> u16) option" where
  "parent_loop s victim hint [] best = best"
| "parent_loop s victim hint (e # es) best =
     (let l1 = eg_to e in
      if l1 = 0 \<or> eg_source e \<noteq> Reported then parent_loop s victim hint es best
      else
        let lists_v = edge_of s l1 victim \<noteq> None;
            v_lists = (case edge_of s victim l1 of None \<Rightarrow> False | Some e \<Rightarrow> eg_hears_us e)
        in if \<not> lists_v \<and> \<not> v_lists \<and> hint \<noteq> l1 then parent_loop s victim hint es best
           else
             let cost = eg_etx_fixed e in
             parent_loop s victim hint es
               (if (case best of None \<Rightarrow> True | Some (_, c) \<Rightarrow> cost < c) then Some (l1, cost) else best))"

definition pick_l1_parent :: "edge_store \<Rightarrow> u32 \<Rightarrow> u32 \<Rightarrow> (u32 \<times> u16) option" where
  "pick_l1_parent s victim my_node =
     (let hint = (case find_node s victim of None \<Rightarrow> 0 | Some n \<Rightarrow> ne_parent_hint n) in
      if hint \<noteq> 0 \<and> is_our_direct_neighbor s hint my_node then
        Some (hint, case edge_of s my_node hint of None \<Rightarrow> 200 | Some e \<Rightarrow> eg_etx_fixed e)
      else
        (case find_node s my_node of
           None \<Rightarrow> None | Some me \<Rightarrow> parent_loop s victim hint (live_edges me) None))"

definition apply_demotion ::
  "edge_store \<Rightarrow> u32 \<Rightarrow> pending_demotion \<Rightarrow> u32 \<Rightarrow> downstream_table \<Rightarrow> edge_store \<times> downstream_table" where
  "apply_demotion s my_node demotion now_ms ds =
     (let cost = f32_div (f32_of_nat (unat (pd_cost_fixed demotion))) (Fin 100);
          listed_hears = (case edge_of s (pd_parent demotion) (pd_victim demotion) of
                            None \<Rightarrow> False | Some e \<Rightarrow> eg_hears_us e);
          ds = (if listed_hears
                then update_listed ds my_node (pd_victim demotion) (pd_parent demotion) cost now_ms False 0
                else ds_update ds my_node (pd_victim demotion) (pd_parent demotion) cost now_ms False 0);
          (ds, _) = transfer_downstream ds (pd_victim demotion) (pd_parent demotion) now_ms
      in (s\<lparr>es_pending_demotion := None\<rparr>, ds))"

definition flush_pending_demotion ::
  "edge_store \<Rightarrow> u32 \<Rightarrow> u32 \<Rightarrow> downstream_table \<Rightarrow> edge_store \<times> downstream_table" where
  "flush_pending_demotion s my_node now_ms ds =
     (case es_pending_demotion s of
        None \<Rightarrow> (s, ds)
      | Some d \<Rightarrow> apply_demotion (s\<lparr>es_pending_demotion := None\<rparr>) my_node d now_ms ds)"

text \<open>\<open>remove_node_at\<close> and the swap at the end of \<open>remove_node\<close>: the last node takes the place.\<close>

definition remove_node_at :: "edge_store \<Rightarrow> nat \<Rightarrow> edge_store" where
  "remove_node_at s idx =
     (let s = (if idx < es_node_count s - 1
               then s\<lparr>es_nodes := (es_nodes s)[idx := es_nodes s ! (es_node_count s - 1)]\<rparr> else s)
      in s\<lparr>es_node_count := es_node_count s - 1\<rparr>)"

definition evict_for_capacity ::
  "edge_store \<Rightarrow> u32 \<Rightarrow> u32 \<Rightarrow> downstream_table option \<Rightarrow>
   edge_store \<times> downstream_table option \<times> bool" where
  "evict_for_capacity s now_ms my_node downstream =
     (case select_eviction_victim s my_node True now_ms of
        None \<Rightarrow> (s, downstream, False)
      | Some idx \<Rightarrow>
          let victim = ne_node_id (es_nodes s ! idx) in
          (case pick_l1_parent s victim my_node of
             Some (parent, cost_fixed) \<Rightarrow>
               let demotion = \<lparr>pd_victim = victim, pd_parent = parent, pd_cost_fixed = cost_fixed\<rparr> in
               (case downstream of
                  Some ds \<Rightarrow>
                    (case apply_demotion s my_node demotion now_ms ds of
                       (s, ds) \<Rightarrow> (remove_node_at s idx, Some ds, True))
                | None \<Rightarrow>
                    (remove_node_at (s\<lparr>es_pending_demotion := Some demotion\<rparr>) idx, None, True))
           | None \<Rightarrow>
               if downstream \<noteq> None then (s, downstream, False)
               else (remove_node_at s idx, None, True)))"

definition demote_for_capacity ::
  "edge_store \<Rightarrow> u32 \<Rightarrow> u32 \<Rightarrow> downstream_table \<Rightarrow> edge_store \<times> downstream_table \<times> bool" where
  "demote_for_capacity s now_ms my_node ds =
     (case evict_for_capacity s now_ms my_node (Some ds) of
        (s, ds', ok) \<Rightarrow> (s, case ds' of None \<Rightarrow> ds | Some d \<Rightarrow> d, ok))"

definition push_node :: "edge_store \<Rightarrow> node_edges \<Rightarrow> edge_store" where
  "push_node s n = s\<lparr>es_nodes := (es_nodes s)[es_node_count s := n], es_node_count := es_node_count s + 1\<rparr>"

text \<open>\<open>find_or_create_node\<close>: the new state and whether the node is there.\<close>

definition find_or_create_node :: "edge_store \<Rightarrow> u32 \<Rightarrow> u32 \<Rightarrow> u32 \<Rightarrow> edge_store \<times> bool" where
  "find_or_create_node s node_id now_ms my_node =
     (if find_node_index s node_id \<noteq> None then (s, True)
      else
        (case (if MAX_GRAPH_NODES \<le> es_node_count s then evict_for_capacity s now_ms my_node None
               else (s, None, True)) of
           (s, _, ok) \<Rightarrow>
             if \<not> ok then (s, False)
             else (push_node s (node_fresh node_id now_ms
                     (if node_id = my_node then ClassL1 else ClassUnknown) 0), True)))"

definition ensure_publisher ::
  "edge_store \<Rightarrow> u32 \<Rightarrow> node_class \<Rightarrow> u32 \<Rightarrow> u32 \<Rightarrow> u32 \<Rightarrow> downstream_table \<Rightarrow>
   edge_store \<times> downstream_table \<times> bool" where
  "ensure_publisher s node_id cls parent_hint now_ms my_node ds =
     (if node_id = 0 \<or> node_id = my_node then (s, ds, True)
      else if \<not> class_within_depth cls then (s, ds, False)
      else if find_node s node_id \<noteq> None then
        (modify_node (set_node_class s node_id cls parent_hint) node_id
           (\<lambda>n. n\<lparr>ne_last_full_update_ms := now_ms\<rparr>), ds, True)
      else
        (case (if MAX_GRAPH_NODES \<le> es_node_count s then demote_for_capacity s now_ms my_node ds
               else (s, ds, True)) of
           (s, ds, ok) \<Rightarrow>
             if \<not> ok then (s, ds, False)
             else (push_node s (node_fresh node_id now_ms cls parent_hint), ds, True)))"

section \<open>Horizon classes\<close>

text \<open>The neighbours this node itself reports, where both classification loops start.\<close>

definition reported_l1s :: "edge_store \<Rightarrow> u32 \<Rightarrow> u32 list" where
  "reported_l1s s my_node =
     (case find_node s my_node of
        None \<Rightarrow> []
      | Some me \<Rightarrow> map eg_to (filter (\<lambda>e. eg_to e \<noteq> 0 \<and> eg_source e = Reported) (live_edges me)))"

definition classify_candidate :: "edge_store \<Rightarrow> u32 \<Rightarrow> u32 \<Rightarrow> node_class" where
  "classify_candidate s node_id my_node =
     (if node_id = my_node then ClassL1
      else if has_direct_reported_edge_to s my_node node_id then ClassL1
      else if list_ex (\<lambda>l1. (case edge_of s l1 node_id of None \<Rightarrow> False | Some e \<Rightarrow> eg_hears_us e)
                \<or> edge_of s node_id l1 \<noteq> None) (reported_l1s s my_node) then ClassL2
      else if 3 \<le> GRAPH_MAX_DEPTH \<and>
          list_ex (\<lambda>n. ne_class n = ClassL2 \<and>
            ((case find_edge n node_id of None \<Rightarrow> False | Some e \<Rightarrow> eg_hears_us e)
             \<or> edge_of s node_id (ne_node_id n) \<noteq> None)) (live_nodes s) then ClassL3
      else ClassUnknown)"

definition bootstrap_class_from_reachability :: "edge_store \<Rightarrow> u32 \<Rightarrow> u32 \<Rightarrow> node_class" where
  "bootstrap_class_from_reachability s node_id my_node =
     (if list_ex (\<lambda>l1. edge_of s l1 node_id \<noteq> None) (reported_l1s s my_node) then ClassL2
      else if 3 \<le> GRAPH_MAX_DEPTH \<and>
          list_ex (\<lambda>n. ne_class n = ClassL2 \<and> find_edge n node_id \<noteq> None) (live_nodes s) then ClassL3
      else ClassUnknown)"

section \<open>Removing edges and nodes\<close>

text \<open>The compaction loop: elements to keep are copied down to the write position.\<close>

fun compact_loop :: "('e \<Rightarrow> bool) \<Rightarrow> nat list \<Rightarrow> 'e list \<Rightarrow> nat \<Rightarrow> 'e list \<times> nat" where
  "compact_loop keep [] xs wr = (xs, wr)"
| "compact_loop keep (i # is) xs wr =
     (if keep (xs ! i) then compact_loop keep is (if wr \<noteq> i then xs[wr := xs ! i] else xs) (wr + 1)
      else compact_loop keep is xs wr)"

definition compact_edges :: "(edge \<Rightarrow> bool) \<Rightarrow> node_edges \<Rightarrow> node_edges" where
  "compact_edges keep n =
     (case compact_loop keep [0..<ne_edge_count n] (ne_edges n) 0 of
        (es, wr) \<Rightarrow> n\<lparr>ne_edges := es, ne_edge_count := wr\<rparr>)"

definition map_live_nodes :: "(node_edges \<Rightarrow> node_edges) \<Rightarrow> edge_store \<Rightarrow> edge_store" where
  "map_live_nodes f s =
     s\<lparr>es_nodes := map f (live_nodes s) @ drop (es_node_count s) (es_nodes s)\<rparr>"

definition remove_node_edges_to :: "edge_store \<Rightarrow> u32 \<Rightarrow> edge_store" where
  "remove_node_edges_to s removed = map_live_nodes (compact_edges (\<lambda>e. eg_to e \<noteq> removed)) s"

definition remove_edges_to :: "edge_store \<Rightarrow> u32 \<Rightarrow> edge_store" where
  "remove_edges_to s target = remove_node_edges_to s target"

definition remove_edge :: "edge_store \<Rightarrow> u32 \<Rightarrow> u32 \<Rightarrow> edge_store \<times> bool" where
  "remove_edge s frm to =
     (case find_node_index s frm of
        None \<Rightarrow> (s, False)
      | Some idx \<Rightarrow>
          (modify_node s frm (compact_edges (\<lambda>e. eg_to e \<noteq> to)),
           list_ex (\<lambda>e. eg_to e = to) (live_edges (es_nodes s ! idx))))"

definition remove_node :: "edge_store \<Rightarrow> u32 \<Rightarrow> edge_store \<times> bool" where
  "remove_node s node_id =
     (if node_id = 0 then (s, False)
      else
        let s = remove_node_edges_to s node_id in
        (case find_node_index s node_id of
           None \<Rightarrow> (s, False) | Some idx \<Rightarrow> (remove_node_at s idx, True)))"

definition retain_listed_edges :: "edge_store \<Rightarrow> u32 \<Rightarrow> u32 list \<Rightarrow> edge_store \<times> bool" where
  "retain_listed_edges s sender listed_ids =
     (let keep = (\<lambda>e. eg_to e = 0 \<or> eg_source e = Reported \<or> is_placeholder_node (eg_to e)
                      \<or> List.member listed_ids (eg_to e)) in
      case find_node_index s sender of
        None \<Rightarrow> (s, False)
      | Some idx \<Rightarrow>
          (modify_node s sender (compact_edges keep),
           list_ex (\<lambda>e. \<not> keep e) (live_edges (es_nodes s ! idx))))"

definition map_live_edges :: "(edge \<Rightarrow> edge) \<Rightarrow> node_edges \<Rightarrow> node_edges" where
  "map_live_edges f n =
     n\<lparr>ne_edges := map f (live_edges n) @ drop (ne_edge_count n) (ne_edges n)\<rparr>"

definition clear_hears_us_to_unlisted :: "edge_store \<Rightarrow> u32 \<Rightarrow> u32 list \<Rightarrow> edge_store" where
  "clear_hears_us_to_unlisted s sender listed_ids =
     map_live_nodes (\<lambda>n.
       if ne_node_id n = sender then n
       else map_live_edges (\<lambda>e.
         if eg_to e = sender \<and> eg_hears_us e \<and> \<not> List.member listed_ids (ne_node_id n)
         then e\<lparr>eg_hears_us := False\<rparr> else e) n) s"

definition set_edge_hears_us :: "edge_store \<Rightarrow> u32 \<Rightarrow> u32 \<Rightarrow> bool \<Rightarrow> edge_store" where
  "set_edge_hears_us s frm to hears_us =
     modify_node s frm (\<lambda>n. modify_edge n to (\<lambda>e. e\<lparr>eg_hears_us := hears_us\<rparr>))"

definition relay_heard_on :: "edge_store \<Rightarrow> u32 \<Rightarrow> u32 \<Rightarrow> u8" where
  "relay_heard_on s my_node relay = (case edge_of s my_node relay of None \<Rightarrow> 0 | Some e \<Rightarrow> eg_heard_on e)"

definition count_direct_neighbors :: "edge_store \<Rightarrow> u32 \<Rightarrow> nat" where
  "count_direct_neighbors s my_node =
     (case find_node s my_node of
        None \<Rightarrow> 0
      | Some n \<Rightarrow> min 255 (length (filter (\<lambda>e. eg_to e \<noteq> 0 \<and> eg_to e \<noteq> my_node \<and> eg_source e = Reported)
                   (live_edges n))))"

definition direct_neighbor_ids :: "edge_store \<Rightarrow> u32 \<Rightarrow> u32 list" where
  "direct_neighbor_ids s my_node =
     (case find_node s my_node of
        None \<Rightarrow> []
      | Some n \<Rightarrow> take MAX_EDGES_PER_NODE
          (map eg_to (filter (\<lambda>e. eg_source e = Reported \<and> eg_to e \<noteq> 0) (live_edges n))))"

definition ensure_local_node :: "edge_store \<Rightarrow> u32 \<Rightarrow> u32 \<Rightarrow> edge_store" where
  "ensure_local_node s my_node now_ms =
     (if find_node s my_node = None then fst (find_or_create_node s my_node now_ms my_node) else s)"

definition update_node_activity :: "edge_store \<Rightarrow> u32 \<Rightarrow> u32 \<Rightarrow> u32 \<Rightarrow> edge_store \<times> bool" where
  "update_node_activity s node_id now_ms my_node =
     (if node_id = 0 \<or> node_id = my_node then (s, False)
      else if find_node s node_id = None then (s, False)
      else (modify_node s node_id (\<lambda>n. n\<lparr>ne_last_full_update_ms := now_ms\<rparr>), True))"

section \<open>Pruning what the root does not reach\<close>

text \<open>
  Marking: each candidate, a position in the table of identifiers, is marked when it is new and
  pushed while the stack has room. A position outside the array, where the code would stop with
  a panic, is passed over; the candidates are positions of live nodes.
\<close>

fun mark_loop :: "u32 list \<Rightarrow> nat list \<Rightarrow> bool list \<Rightarrow> u32 list \<Rightarrow> bool list \<times> u32 list" where
  "mark_loop id_at [] reach stack = (reach, stack)"
| "mark_loop id_at (i # is) reach stack =
     (if reach ! i \<or> length reach \<le> i then mark_loop id_at is reach stack
      else mark_loop id_at is (reach[i := True])
             (if length stack < MAX_GRAPH_NODES then (id_at ! i) # stack else stack))"

lemma unmarked_update:
  "i < length reach \<Longrightarrow> \<not> reach ! i \<Longrightarrow>
   length (filter Not (reach[i := True])) + 1 = length (filter Not reach)"
proof (induction reach arbitrary: i)
  case (Cons x xs)
  then show ?case by (cases i) auto
qed simp

lemma mark_loop_measure:
  "2 * length (filter Not (fst (mark_loop id_at is reach stack)))
     + length (snd (mark_loop id_at is reach stack))
   \<le> 2 * length (filter Not reach) + length stack"
proof (induction id_at "is" reach stack rule: mark_loop.induct)
  case (2 id_at i is' reach stack)
  then show ?case using unmarked_update [of i reach] by (auto split: if_splits)
qed simp

definition edge_targets :: "edge_store \<Rightarrow> u32 list \<Rightarrow> nat \<Rightarrow> nat list" where
  "edge_targets s id_at ci =
     List.map_filter (\<lambda>e. position (\<lambda>i. i = eg_to e) id_at) (live_edges (es_nodes s ! ci))"

definition edge_origins :: "edge_store \<Rightarrow> u32 list \<Rightarrow> u32 \<Rightarrow> nat list" where
  "edge_origins s id_at cur =
     filter (\<lambda>i. find_edge (es_nodes s ! i) cur \<noteq> None) [0..<length id_at]"

text \<open>
  The search: an edge counts in both directions. Every round takes one identifier off the stack
  and what it pushes is newly marked.
\<close>

function search_loop :: "edge_store \<Rightarrow> u32 list \<Rightarrow> bool list \<Rightarrow> u32 list \<Rightarrow> bool list" where
  "search_loop s id_at reach [] = reach"
| "search_loop s id_at reach (cur # stack) =
     (case position (\<lambda>i. i = cur) id_at of
        None \<Rightarrow> search_loop s id_at reach stack
      | Some ci \<Rightarrow>
          let st1 = mark_loop id_at (edge_targets s id_at ci) reach stack;
              st2 = mark_loop id_at (edge_origins s id_at cur) (fst st1) (snd st1)
          in search_loop s id_at (fst st2) (snd st2))"
  by pat_completeness auto
termination
proof (relation "measure (\<lambda>(s, id_at, reach, stack). 2 * length (filter Not reach) + length stack)",
    simp, simp)
  fix s id_at reach cur stack ci st1 st2
  assume "position (\<lambda>i. i = cur) id_at = Some ci"
    and st: "st1 = mark_loop id_at (edge_targets s id_at ci) reach stack"
      "st2 = mark_loop id_at (edge_origins s id_at cur) (fst st1) (snd st1)"
  show "((s, id_at, fst st2, snd st2), s, id_at, reach, cur # stack)
      \<in> measure (\<lambda>(s, id_at, reach, stack). 2 * length (filter Not reach) + length stack)"
    using mark_loop_measure [of id_at "edge_targets s id_at ci" reach stack]
      mark_loop_measure [of id_at "edge_origins s id_at cur" "fst st1" "snd st1"]
    by (simp add: st case_prod_unfold)
qed

definition node_ids :: "edge_store \<Rightarrow> u32 list" where
  "node_ids s = map ne_node_id (live_nodes s)"

text \<open>Handing a node's destinations over before it goes, as pruning and ageing do.\<close>

definition demote_and_remove ::
  "u32 \<Rightarrow> u32 \<Rightarrow> u32 \<Rightarrow> edge_store \<times> downstream_table \<times> bool \<Rightarrow> edge_store \<times> downstream_table \<times> bool" where
  "demote_and_remove my_node now_ms victim st =
     (case st of (s, ds, changed) \<Rightarrow>
        let sd = (case pick_l1_parent s victim my_node of
                    Some (parent, cost_fixed) \<Rightarrow>
                      apply_demotion s my_node
                        \<lparr>pd_victim = victim, pd_parent = parent, pd_cost_fixed = cost_fixed\<rparr> now_ms ds
                  | None \<Rightarrow> (s, clear_for_destination (clear_for_relay ds victim) victim));
            sr = remove_node (fst sd) victim
        in (fst sr, snd sd, changed \<or> snd sr))"

definition prune_unreachable_from_root ::
  "edge_store \<Rightarrow> u32 \<Rightarrow> u32 \<Rightarrow> downstream_table \<Rightarrow> edge_store \<times> downstream_table \<times> bool" where
  "prune_unreachable_from_root s my_node now_ms ds =
     (let id_at = node_ids s in
      case position (\<lambda>i. i = my_node) id_at of
        None \<Rightarrow> (s, ds, False)
      | Some root_idx \<Rightarrow>
          let reach = search_loop s id_at ((replicate MAX_GRAPH_NODES False)[root_idx := True]) [my_node];
              doomed = map (\<lambda>i. id_at ! i)
                (filter (\<lambda>i. \<not> reach ! i \<and> id_at ! i \<noteq> my_node) [0..<length id_at])
          in fold (demote_and_remove my_node now_ms) doomed (s, ds, False))"

definition remove_edge_and_prune ::
  "edge_store \<Rightarrow> u32 \<Rightarrow> u32 \<Rightarrow> u32 \<Rightarrow> u32 \<Rightarrow> downstream_table \<Rightarrow> edge_store \<times> downstream_table \<times> bool" where
  "remove_edge_and_prune s frm to my_node now_ms ds =
     (case remove_edge s frm to of
        (s, False) \<Rightarrow> (s, ds, False)
      | (s, True) \<Rightarrow>
          (case prune_unreachable_from_root s my_node now_ms ds of (s, ds, _) \<Rightarrow> (s, ds, True)))"

section \<open>Ageing\<close>

definition age_victims :: "edge_store \<Rightarrow> u32 \<Rightarrow> u32 \<Rightarrow> u32 \<Rightarrow> u32 list" where
  "age_victims s my_node now_ms ttl_ms =
     take MAX_GRAPH_NODES (map ne_node_id (filter (\<lambda>n.
       ne_node_id n \<noteq> my_node \<and> \<not> has_direct_reported_edge_to s my_node (ne_node_id n) \<and>
       (ttl_ms < now_ms - ne_last_full_update_ms n \<or>
        (ne_edge_count n = 0 \<and> \<not> class_within_depth (ne_class n)))) (live_nodes s)))"

definition age_edges ::
  "edge_store \<Rightarrow> u32 \<Rightarrow> u32 \<Rightarrow> u32 \<Rightarrow> downstream_table option \<Rightarrow> edge_store \<times> downstream_table option \<times> bool" where
  "age_edges s my_node now_ms ttl_ms downstream =
     (let fresh = (\<lambda>e. now_ms - eg_last_update_ms e \<le> ttl_ms);
          changed = list_ex (\<lambda>n. list_ex (\<lambda>e. \<not> fresh e) (live_edges n)) (live_nodes s);
          s = map_live_nodes (compact_edges fresh) s;
          victims = age_victims s my_node now_ms ttl_ms
      in case downstream of
           None \<Rightarrow>
             (case fold (\<lambda>v (s, c). case remove_node s v of (s, b) \<Rightarrow> (s, c \<or> b)) victims (s, changed) of
                (s, changed) \<Rightarrow> (s, None, changed))
         | Some ds \<Rightarrow>
             (case fold (demote_and_remove my_node now_ms) victims (s, ds, changed) of
                (s, ds, changed) \<Rightarrow>
                  if changed then
                    (case prune_unreachable_from_root s my_node now_ms ds of
                       (s, ds, _) \<Rightarrow> (s, Some ds, True))
                  else (s, Some ds, False)))"

section \<open>Updating an edge\<close>

definition f32_abs :: "f32 \<Rightarrow> f32" where
  "f32_abs x = (case x of NaN \<Rightarrow> NaN | PInf \<Rightarrow> PInf | NInf \<Rightarrow> PInf | Fin a \<Rightarrow> Fin \<bar>a\<bar>)"

definition F32_MIN :: f32 where
  "F32_MIN = Fin (- ((2 ^ 24 - 1) * 2 ^ 104))"

definition edge_fresh :: "u32 \<Rightarrow> f32 \<Rightarrow> u32 \<Rightarrow> edge_source \<Rightarrow> u8 \<Rightarrow> edge" where
  "edge_fresh to etx now_ms source heard_on =
     \<lparr>eg_to = to, eg_etx_fixed = etx_to_fixed etx, eg_last_update_ms = now_ms, eg_etx_variance = 0,
      eg_source = source, eg_hears_us = False, eg_heard_on = heard_on, eg_last_heard_ms = 0\<rparr>"

text \<open>The guard on an unknown origin: whether the update goes on, and the state it goes on with.\<close>

definition admit_origin :: "edge_store \<Rightarrow> u32 \<Rightarrow> u32 \<Rightarrow> u32 \<Rightarrow> edge_store \<times> bool" where
  "admit_origin s my_node frm now_ms =
     (if frm \<noteq> my_node \<and> find_node s frm = None then
        if is_placeholder_node frm then (fst (find_or_create_node s frm now_ms my_node), True)
        else if \<not> is_our_direct_neighbor s frm my_node \<and> \<not> reachable_via_neighbor s frm then (s, False)
        else
          let cls = classify_candidate s frm my_node;
              cls = (if cls = ClassUnknown then bootstrap_class_from_reachability s frm my_node else cls)
          in (s, class_within_depth cls \<and> cls \<noteq> ClassUnknown)
      else (s, True))"

definition place_endpoints ::
  "edge_store \<Rightarrow> u32 \<Rightarrow> u32 \<Rightarrow> u32 \<Rightarrow> u32 \<Rightarrow> edge_source \<Rightarrow> edge_store" where
  "place_endpoints s my_node frm to now_ms source =
     (if frm = my_node then
        let s = fst (find_or_create_node s to now_ms my_node)
        in if source = Reported then set_l1 s to else s
      else
        let cls = classify_candidate s frm my_node;
            cls = (if cls = ClassUnknown then bootstrap_class_from_reachability s frm my_node else cls)
        in if cls \<noteq> ClassUnknown
           then set_node_class s frm cls (case find_node s frm of None \<Rightarrow> 0 | Some n \<Rightarrow> ne_parent_hint n)
           else s)"

text \<open>The three ways an edge enters its node: refreshed, appended, or in place of the worst one.\<close>

definition refresh_edge ::
  "f32 \<Rightarrow> edge \<Rightarrow> f32 \<Rightarrow> u32 \<Rightarrow> edge_source \<Rightarrow> bool \<Rightarrow> u8 \<Rightarrow> edge \<times> int" where
  "refresh_edge threshold e etx now_ms source update_timestamp heard_on =
     (if source_rank source < source_rank (eg_source e) then (e, EDGE_NO_CHANGE)
      else
        let abs_change = f32_abs (f32_sub etx (edge_etx e));
            dynamic = f32_add threshold (etx_variance_f e);
            significant = f32_less dynamic abs_change;
            e = set_etx e etx;
            e = (if update_timestamp then e\<lparr>eg_last_update_ms := now_ms\<rparr> else e);
            e = (if source = Reported then update_etx_variance e abs_change else e);
            e = e\<lparr>eg_source := source\<rparr>;
            e = (if source = Reported then e\<lparr>eg_heard_on := heard_on\<rparr> else e)
        in (e, if significant then EDGE_SIGNIFICANT_CHANGE else EDGE_NO_CHANGE))"

fun worst_loop :: "u32 \<Rightarrow> edge_source \<Rightarrow> edge list \<Rightarrow> nat \<Rightarrow> nat option \<Rightarrow> f32 \<Rightarrow> nat option \<times> f32" where
  "worst_loop now_ms source [] i worst_idx worst_score = (worst_idx, worst_score)"
| "worst_loop now_ms source (e # es) i worst_idx worst_score =
     (if source_rank source < source_rank (eg_source e)
      then worst_loop now_ms source es (Suc i) worst_idx worst_score
      else
        let age_s = f32_div (f32_of_nat (unat (now_ms - eg_last_update_ms e))) (Fin 1000);
            score = f32_add (edge_etx e) (f32_div age_s (Fin 300))
        in if f32_less worst_score score
           then worst_loop now_ms source es (Suc i) (Some i) score
           else worst_loop now_ms source es (Suc i) worst_idx worst_score)"

definition put_edge ::
  "f32 \<Rightarrow> node_edges \<Rightarrow> u32 \<Rightarrow> f32 \<Rightarrow> u32 \<Rightarrow> edge_source \<Rightarrow> bool \<Rightarrow> u8 \<Rightarrow> node_edges \<times> int" where
  "put_edge threshold n to etx now_ms source update_timestamp heard_on =
     (let n = (if update_timestamp then n\<lparr>ne_last_full_update_ms := now_ms\<rparr> else n) in
      case position (\<lambda>e. eg_to e = to) (live_edges n) of
        Some i \<Rightarrow>
          (case refresh_edge threshold (ne_edges n ! i) etx now_ms source update_timestamp heard_on of
             (e, r) \<Rightarrow> (n\<lparr>ne_edges := (ne_edges n)[i := e]\<rparr>, r))
      | None \<Rightarrow>
          if ne_edge_count n < MAX_EDGES_PER_NODE then
            (n\<lparr>ne_edges := (ne_edges n)[ne_edge_count n := edge_fresh to etx now_ms source heard_on],
               ne_edge_count := ne_edge_count n + 1\<rparr>, EDGE_NEW)
          else
            (case worst_loop now_ms source (live_edges n) 0 None F32_MIN of
               (None, _) \<Rightarrow> (n, EDGE_NO_CHANGE)
             | (Some i, worst_score) \<Rightarrow>
                 if f32_le worst_score etx then (n, EDGE_NO_CHANGE)
                 else (n\<lparr>ne_edges := (ne_edges n)[i := edge_fresh to etx now_ms source heard_on]\<rparr>,
                       EDGE_NEW)))"

definition update_edge ::
  "edge_store \<Rightarrow> u32 \<Rightarrow> u32 \<Rightarrow> u32 \<Rightarrow> f32 \<Rightarrow> u32 \<Rightarrow> edge_source \<Rightarrow> bool \<Rightarrow> u8 \<Rightarrow> edge_store \<times> int" where
  "update_edge s my_node frm to etx now_ms source update_timestamp heard_on =
     (if to = 0 \<or> frm = 0 \<or> frm = to \<or> \<not> is_finite etx \<or> f32_le etx (Fin 0) then (s, EDGE_NO_CHANGE)
      else
        (case admit_origin s my_node frm now_ms of
           (s, False) \<Rightarrow> (s, EDGE_NO_CHANGE)
         | (s, True) \<Rightarrow>
             (case find_or_create_node s frm now_ms my_node of
                (s, False) \<Rightarrow> (s, EDGE_NO_CHANGE)
              | (s, True) \<Rightarrow>
                  let s = place_endpoints s my_node frm to now_ms source in
                  (case find_node_index s frm of
                     None \<Rightarrow> (s, EDGE_NO_CHANGE)
                   | Some i \<Rightarrow>
                       (case put_edge (es_etx_change_threshold s) (es_nodes s ! i) to etx now_ms source
                               update_timestamp heard_on of
                          (n, r) \<Rightarrow> (s\<lparr>es_nodes := (es_nodes s)[i := n]\<rparr>, r))))))"

definition update_edge_from_observation ::
  "edge_store \<Rightarrow> u32 \<Rightarrow> u32 \<Rightarrow> u32 \<Rightarrow> int \<Rightarrow> int \<Rightarrow> u32 \<Rightarrow> edge_source \<Rightarrow> u8 \<Rightarrow> u8 \<Rightarrow> edge_store \<times> int" where
  "update_edge_from_observation s my_node frm to rssi snr now_ms source heard_on preset =
     update_edge s my_node frm to (calculate_etx rssi (f32_of_int snr) preset) now_ms source True heard_on"

end
