(* ===== verification/GraphInv.thy ===== *)
theory GraphInv
  imports GraphEdges
begin

text \<open>
  The invariant of the graph and what the operations of \<open>GraphEdges\<close> do to it: no identifier
  occurs twice, neither as a node nor among the edges of a node, none is zero, no edge loops, and
  the counts stay within the arrays. The locale \<open>keyed_table\<close> of the prelude is interpreted for
  the edges of a node and for the nodes of the store.
\<close>

section \<open>Compaction\<close>

lemma compact_loop_spec:
  assumes "w \<le> r" "r \<le> n" "n \<le> length xs" "compact_loop keep [r..<n] xs w = (ys, m)"
  shows "length ys = length xs \<and> m \<le> n \<and> take m ys = take w xs @ filter keep (drop r (take n xs))"
  using assms
proof (induction "n - r" arbitrary: r w xs)
  case 0
  then show ?case by simp
next
  case (Suc d)
  then have r: "r < n" by simp
  then have up: "[r..<n] = r # [Suc r..<n]" by (simp add: upt_conv_Cons)
  have dr: "drop r (take n xs) = xs ! r # drop (Suc r) (take n xs)"
    using drop_take_peel [of r n xs] r Suc.prems(3) by simp
  show ?case
  proof (cases "keep (xs ! r)")
    case False
    have "compact_loop keep [Suc r..<n] xs w = (ys, m)" using Suc.prems(4) False by (simp add: up)
    from Suc.hyps(1) [OF _ _ _ Suc.prems(3) this] Suc.hyps(2) Suc.prems(1) r False dr
    show ?thesis by simp
  next
    case True
    define zs where "zs = (if w \<noteq> r then xs[w := xs ! r] else xs)"
    have rec: "compact_loop keep [Suc r..<n] zs (w + 1) = (ys, m)"
      using Suc.prems(4) True by (simp add: up zs_def)
    have len: "length zs = length xs" by (simp add: zs_def)
    have "take (w + 1) zs = take w xs @ [xs ! r]"
      using Suc.prems(1) r Suc.prems(3) by (auto simp: zs_def take_Suc_conv_app_nth)
    moreover have "drop (Suc r) (take n zs) = drop (Suc r) (take n xs)"
      using Suc.prems(1) by (simp add: zs_def take_update_swap)
    ultimately show ?thesis
      using Suc.hyps(1) [of "Suc r" "w + 1" zs] rec Suc.hyps(2) Suc.prems(1,3) r len True dr by simp
  qed
qed

section \<open>Invariant\<close>

definition ne_inv :: "node_edges \<Rightarrow> bool" where
  "ne_inv n \<longleftrightarrow> ne_node_id n \<noteq> 0 \<and> length (ne_edges n) = MAX_EDGES_PER_NODE \<and>
     ne_edge_count n \<le> MAX_EDGES_PER_NODE \<and> distinct (map eg_to (live_edges n)) \<and>
     0 \<notin> eg_to ` set (live_edges n) \<and> ne_node_id n \<notin> eg_to ` set (live_edges n)"

definition es_inv :: "edge_store \<Rightarrow> bool" where
  "es_inv s \<longleftrightarrow> length (es_nodes s) = MAX_GRAPH_NODES \<and> es_node_count s \<le> MAX_GRAPH_NODES \<and>
     distinct (node_ids s) \<and> (\<forall>n \<in> set (live_nodes s). ne_inv n)"

interpretation edge_table: keyed_table ne_inv live_edges eg_to
  by unfold_locales (simp add: ne_inv_def)

interpretation node_table: keyed_table es_inv live_nodes ne_node_id
  by unfold_locales (simp add: es_inv_def node_ids_def)

lemma es_new_inv: "es_inv es_new"
  by (simp add: es_inv_def es_new_def node_ids_def live_nodes_def)

lemma find_node_Some_iff: "es_inv s \<Longrightarrow> find_node s i = Some n \<longleftrightarrow> n \<in> set (live_nodes s) \<and> ne_node_id n = i"
  unfolding find_node_def by (rule node_table.lookup_Some_iff)

lemma find_node_None_iff: "find_node s i = None \<longleftrightarrow> i \<notin> set (node_ids s)"
  by (auto simp: find_node_def find_None_iff node_ids_def)

lemma find_node_D: "find_node s i = Some n \<Longrightarrow> n \<in> set (live_nodes s) \<and> ne_node_id n = i"
  by (auto simp: find_node_def find_Some_iff)

lemma find_node_index_iff: "find_node_index s i = None \<longleftrightarrow> find_node s i = None"
  by (simp add: find_node_index_def find_node_def find_position)

lemma find_node_index_Some:
  assumes "find_node_index s i = Some k" "es_inv s"
  shows "k < es_node_count s" "ne_node_id (es_nodes s ! k) = i" "find_node s i = Some (es_nodes s ! k)"
    "live_nodes s ! k = es_nodes s ! k" "k < length (live_nodes s)"
proof -
  have k: "k < length (live_nodes s)" "ne_node_id (live_nodes s ! k) = i"
    using position_SomeD [of "\<lambda>n. ne_node_id n = i" "live_nodes s" k] assms(1)
    by (simp_all add: find_node_index_def)
  then show "k < es_node_count s" "live_nodes s ! k = es_nodes s ! k" "k < length (live_nodes s)"
    by (simp_all add: live_nodes_def)
  then show "ne_node_id (es_nodes s ! k) = i" using k(2) by simp
  show "find_node s i = Some (es_nodes s ! k)"
    using assms(1) \<open>live_nodes s ! k = es_nodes s ! k\<close>
    by (simp add: find_node_index_def find_node_def find_position)
qed

lemma find_edge_Some_iff: "ne_inv n \<Longrightarrow> find_edge n i = Some e \<longleftrightarrow> e \<in> set (live_edges n) \<and> eg_to e = i"
  unfolding find_edge_def by (rule edge_table.lookup_Some_iff)

lemma find_edge_D: "find_edge n i = Some e \<Longrightarrow> e \<in> set (live_edges n) \<and> eg_to e = i"
  by (auto simp: find_edge_def find_Some_iff)

lemma edge_of_D:
  "edge_of s a b = Some e \<Longrightarrow> \<exists>n. n \<in> set (live_nodes s) \<and> ne_node_id n = a \<and> e \<in> set (live_edges n) \<and> eg_to e = b"
  by (auto simp: edge_of_def bind_eq_Some_conv dest: find_node_D find_edge_D)

lemma es_inv_node: "es_inv s \<Longrightarrow> n \<in> set (live_nodes s) \<Longrightarrow> ne_inv n"
  by (simp add: es_inv_def)

section \<open>Single node changes\<close>

text \<open>Overwriting the node found under an identifier, keeping the identifier.\<close>

lemma live_nodes_update: "live_nodes (s\<lparr>es_nodes := (es_nodes s)[k := n]\<rparr>) = (live_nodes s)[k := n]"
  by (simp add: live_nodes_def take_update_swap)

lemma node_update_inv:
  assumes "es_inv s" "find_node_index s i = Some k" "ne_inv n" "ne_node_id n = i"
  shows "es_inv (s\<lparr>es_nodes := (es_nodes s)[k := n]\<rparr>)"
    "node_ids (s\<lparr>es_nodes := (es_nodes s)[k := n]\<rparr>) = node_ids s"
proof -
  note k = find_node_index_Some [OF assms(2,1)]
  have "map ne_node_id ((live_nodes s)[k := n]) = (map ne_node_id (live_nodes s))[k := ne_node_id n]"
    by (simp add: map_update)
  also have "\<dots> = map ne_node_id (live_nodes s)"
    using k assms(4) by (metis list_update_id nth_map)
  finally show ids: "node_ids (s\<lparr>es_nodes := (es_nodes s)[k := n]\<rparr>) = node_ids s"
    by (simp add: node_ids_def live_nodes_update)
  have "set ((live_nodes s)[k := n]) \<subseteq> insert n (set (live_nodes s))" by (rule set_update_subset_insert)
  then show "es_inv (s\<lparr>es_nodes := (es_nodes s)[k := n]\<rparr>)"
    using assms(1,3) ids by (auto simp: es_inv_def live_nodes_update)
qed

lemma modify_node_inv:
  assumes "es_inv s" "\<And>n. ne_inv n \<Longrightarrow> ne_inv (f n) \<and> ne_node_id (f n) = ne_node_id n"
  shows "es_inv (modify_node s i f)" "node_ids (modify_node s i f) = node_ids s"
    "es_node_count (modify_node s i f) = es_node_count s"
proof -
  have "es_inv (modify_node s i f) \<and> node_ids (modify_node s i f) = node_ids s"
  proof (cases "find_node_index s i")
    case (Some k)
    note k = find_node_index_Some [OF Some assms(1)]
    have "ne_inv (es_nodes s ! k)" using es_inv_node [OF assms(1)] k(4,5) nth_mem by metis
    from assms(2) [OF this] node_update_inv [OF assms(1) Some, of "f (es_nodes s ! k)"] k(2) Some
    show ?thesis by (simp add: modify_node_def)
  qed (simp add: modify_node_def assms(1))
  then show "es_inv (modify_node s i f)" "node_ids (modify_node s i f) = node_ids s" by simp_all
  show "es_node_count (modify_node s i f) = es_node_count s"
    by (simp add: modify_node_def split: option.splits)
qed

lemma ne_inv_same_edges:
  "ne_inv n \<Longrightarrow> ne_node_id m = ne_node_id n \<Longrightarrow> ne_edges m = ne_edges n \<Longrightarrow> ne_edge_count m = ne_edge_count n
   \<Longrightarrow> ne_inv m"
  by (simp add: ne_inv_def live_edges_def)

lemma compact_edges_live:
  assumes "ne_inv n"
  shows "live_edges (compact_edges keep n) = filter keep (live_edges n)"
    "ne_node_id (compact_edges keep n) = ne_node_id n" "ne_inv (compact_edges keep n)"
    "ne_class (compact_edges keep n) = ne_class n"
proof -
  obtain es w where c: "compact_loop keep [0..<ne_edge_count n] (ne_edges n) 0 = (es, w)"
    by (cases "compact_loop keep [0..<ne_edge_count n] (ne_edges n) 0")
  have sp: "length es = length (ne_edges n)" "w \<le> ne_edge_count n" "take w es = filter keep (live_edges n)"
    using compact_loop_spec [OF _ _ _ c] assms by (simp_all add: ne_inv_def live_edges_def)
  show live: "live_edges (compact_edges keep n) = filter keep (live_edges n)"
    using sp(3) by (simp add: compact_edges_def c live_edges_def)
  show id: "ne_node_id (compact_edges keep n) = ne_node_id n" "ne_class (compact_edges keep n) = ne_class n"
    by (simp_all add: compact_edges_def c)
  have "length (ne_edges (compact_edges keep n)) = MAX_EDGES_PER_NODE"
    "ne_edge_count (compact_edges keep n) \<le> MAX_EDGES_PER_NODE"
    using sp(1,2) assms by (simp_all add: compact_edges_def c ne_inv_def)
  then show "ne_inv (compact_edges keep n)"
    using assms unfolding ne_inv_def live id by (auto simp: distinct_map_filter)
qed

lemma set_node_class_inv:
  assumes "es_inv s"
  shows "es_inv (set_node_class s i c h)" "node_ids (set_node_class s i c h) = node_ids s"
    "es_node_count (set_node_class s i c h) = es_node_count s"
  unfolding set_node_class_def
  by (rule modify_node_inv [OF assms], auto simp: Let_def elim: ne_inv_same_edges)+

lemma set_l1_inv:
  assumes "es_inv s"
  shows "es_inv (set_l1 s i)" "node_ids (set_l1 s i) = node_ids s"
    "es_node_count (set_l1 s i) = es_node_count s"
  unfolding set_l1_def
  by (rule modify_node_inv [OF assms], auto elim: ne_inv_same_edges)+

section \<open>Changes of all nodes\<close>

lemma live_map_nodes: "es_node_count s \<le> length (es_nodes s) \<Longrightarrow> live_nodes (map_live_nodes f s) = map f (live_nodes s)"
  by (simp add: map_live_nodes_def live_nodes_def)

lemma map_live_nodes_inv:
  assumes "es_inv s" "\<And>n. ne_inv n \<Longrightarrow> ne_inv (f n) \<and> ne_node_id (f n) = ne_node_id n"
  shows "es_inv (map_live_nodes f s)" "node_ids (map_live_nodes f s) = node_ids s"
    "live_nodes (map_live_nodes f s) = map f (live_nodes s)"
proof -
  show live: "live_nodes (map_live_nodes f s) = map f (live_nodes s)"
    using assms(1) by (intro live_map_nodes) (simp add: es_inv_def)
  have "\<forall>n \<in> set (live_nodes s). ne_node_id (f n) = ne_node_id n"
    using assms es_inv_node by blast
  then show ids: "node_ids (map_live_nodes f s) = node_ids s"
    by (simp add: node_ids_def live)
  have "\<forall>n \<in> set (live_nodes s). ne_inv (f n)" using assms es_inv_node by blast
  then show "es_inv (map_live_nodes f s)"
    using assms(1) ids live by (auto simp: es_inv_def map_live_nodes_def live_nodes_def)
qed

lemma remove_node_edges_to_inv:
  assumes "es_inv s"
  shows "es_inv (remove_node_edges_to s i)" "node_ids (remove_node_edges_to s i) = node_ids s"
    "live_nodes (remove_node_edges_to s i) = map (compact_edges (\<lambda>e. eg_to e \<noteq> i)) (live_nodes s)"
  unfolding remove_node_edges_to_def
  by (rule map_live_nodes_inv [OF assms], simp add: compact_edges_live)+

section \<open>Adding and removing nodes\<close>

lemma push_node_inv:
  assumes "es_inv s" "es_node_count s < MAX_GRAPH_NODES" "ne_inv n" "ne_node_id n \<notin> set (node_ids s)"
  shows "es_inv (push_node s n)" "live_nodes (push_node s n) = live_nodes s @ [n]"
    "node_ids (push_node s n) = node_ids s @ [ne_node_id n]"
proof -
  show live: "live_nodes (push_node s n) = live_nodes s @ [n]"
    using assms(1,2) by (simp add: push_node_def live_nodes_def es_inv_def take_snoc_update)
  then show ids: "node_ids (push_node s n) = node_ids s @ [ne_node_id n]" by (simp add: node_ids_def)
  have "length (es_nodes (push_node s n)) = MAX_GRAPH_NODES" "es_node_count (push_node s n) \<le> MAX_GRAPH_NODES"
    using assms(1,2) by (simp_all add: push_node_def es_inv_def)
  then show "es_inv (push_node s n)" using assms live ids by (auto simp: es_inv_def)
qed

lemma node_fresh_inv: "i \<noteq> 0 \<Longrightarrow> ne_inv (node_fresh i now c h)" "ne_node_id (node_fresh i now c h) = i"
  by (simp_all add: ne_inv_def node_fresh_def live_edges_def)

lemma remove_node_at_inv:
  assumes "es_inv s" "k < es_node_count s"
  shows "es_inv (remove_node_at s k)"
    "mset (live_nodes s) = add_mset (es_nodes s ! k) (mset (live_nodes (remove_node_at s k)))"
    "es_node_count (remove_node_at s k) = es_node_count s - 1"
proof -
  have len: "es_node_count s \<le> length (es_nodes s)" using assms(1) by (simp add: es_inv_def)
  have live: "live_nodes (remove_node_at s k) = take (es_node_count s - 1)
      (if k < es_node_count s - 1 then (es_nodes s)[k := es_nodes s ! (es_node_count s - 1)] else es_nodes s)"
    by (simp add: remove_node_at_def Let_def live_nodes_def)
  show ms: "mset (live_nodes s) = add_mset (es_nodes s ! k) (mset (live_nodes (remove_node_at s k)))"
    unfolding live using mset_take_swap_out [OF assms(2) len] by (simp add: live_nodes_def)
  then have sub: "set (live_nodes (remove_node_at s k)) \<subseteq> set (live_nodes s)"
    by (metis mset_subset_eqD mset_subset_eq_add_right set_mset_mset subsetI union_mset_add_mset_right
        add_mset_add_single union_commute)
  have "mset (node_ids s) = add_mset (ne_node_id (es_nodes s ! k)) (mset (node_ids (remove_node_at s k)))"
    using arg_cong [OF ms, of "image_mset ne_node_id"] by (simp add: node_ids_def)
  moreover have "distinct (node_ids s)" using assms(1) by (simp add: es_inv_def)
  ultimately have "distinct (node_ids (remove_node_at s k))"
    by (metis distinct.simps(2) mset.simps(2) mset_eq_imp_distinct_iff)
  then show "es_inv (remove_node_at s k)"
    using assms sub by (auto simp: es_inv_def remove_node_at_def Let_def)
  show "es_node_count (remove_node_at s k) = es_node_count s - 1" by (simp add: remove_node_at_def Let_def)
qed

lemma remove_node_inv:
  assumes "es_inv s"
  shows "es_inv (fst (remove_node s i))"
proof (cases "i = 0 \<or> find_node_index (remove_node_edges_to s i) i = None")
  case True
  then show ?thesis
    using assms remove_node_edges_to_inv [OF assms, of i] by (auto simp: remove_node_def Let_def)
next
  case False
  then obtain k where k: "find_node_index (remove_node_edges_to s i) i = Some k" by auto
  note r = remove_node_edges_to_inv [OF assms, of i]
  show ?thesis
    using remove_node_at_inv(1) [OF r(1) find_node_index_Some(1) [OF k r(1)]] k False
    by (simp add: remove_node_def Let_def)
qed

section \<open>Eviction\<close>

text \<open>A victim is a live node, not this one, and with protection not of the first class.\<close>

lemma victim_loop_spec:
  assumes "victim_loop my True now ns i best = Some (k, x)"
  shows "best = Some (k, x) \<or> (i \<le> k \<and> k - i < length ns \<and> ne_node_id (ns ! (k - i)) \<noteq> my \<and>
    ne_class (ns ! (k - i)) \<noteq> ClassL1)"
  using assms
proof (induction ns arbitrary: i best)
  case (Cons n ns)
  define best' where "best' = (if ne_node_id n = my \<or> ne_class n = ClassL1 \<or> eviction_rank (ne_class n) = 0
      then best else if (case best of None \<Rightarrow> True | Some (_, br, be, ba) \<Rightarrow>
        br < eviction_rank (ne_class n) \<or> (eviction_rank (ne_class n) = br \<and>
          (ne_edge_count n < be \<or> (ne_edge_count n = be \<and> ba < now - ne_last_full_update_ms n))))
      then Some (i, eviction_rank (ne_class n), ne_edge_count n, now - ne_last_full_update_ms n) else best)"
  have rec: "victim_loop my True now ns (Suc i) best' = Some (k, x)"
    using Cons.prems by (simp add: best'_def Let_def split: if_splits)
  have b: "best' = best \<or> (ne_node_id n \<noteq> my \<and> ne_class n \<noteq> ClassL1 \<and> (\<exists>y. best' = Some (i, y)))"
    by (auto simp: best'_def)
  from Cons.IH [OF rec] show ?case
  proof
    assume "best' = Some (k, x)"
    then show ?thesis using b by auto
  next
    assume h: "Suc i \<le> k \<and> k - Suc i < length ns \<and> ne_node_id (ns ! (k - Suc i)) \<noteq> my \<and>
      ne_class (ns ! (k - Suc i)) \<noteq> ClassL1"
    then obtain j where "k = Suc (i + j)" using Suc_le_D le_Suc_ex by (metis add_Suc)
    then show ?thesis using h by (simp add: Suc_diff_le)
  qed
qed simp

lemma select_eviction_victim_spec:
  assumes "select_eviction_victim s my True now = Some k" "es_inv s"
  shows "k < es_node_count s" "ne_node_id (es_nodes s ! k) \<noteq> my" "ne_class (es_nodes s ! k) \<noteq> ClassL1"
proof -
  obtain x where "victim_loop my True now (live_nodes s) 0 None = Some (k, x)"
    using assms(1) by (auto simp: select_eviction_victim_def)
  from victim_loop_spec [OF this]
  have "k < length (live_nodes s)" "ne_node_id (live_nodes s ! k) \<noteq> my" "ne_class (live_nodes s ! k) \<noteq> ClassL1"
    by simp_all
  then show "k < es_node_count s" "ne_node_id (es_nodes s ! k) \<noteq> my" "ne_class (es_nodes s ! k) \<noteq> ClassL1"
    by (simp_all add: live_nodes_def)
qed

lemma es_inv_pending [simp]: "es_inv (s\<lparr>es_pending_demotion := d\<rparr>) = es_inv s"
  by (simp add: es_inv_def live_nodes_def node_ids_def)

lemma live_nodes_pending [simp]: "live_nodes (s\<lparr>es_pending_demotion := d\<rparr>) = live_nodes s"
  by (simp add: live_nodes_def)

lemma apply_demotion_store: "fst (apply_demotion s my d now ds) = s\<lparr>es_pending_demotion := None\<rparr>"
  by (simp add: apply_demotion_def Let_def split: prod.splits)

text \<open>What an eviction does to the store: nothing, or one unprotected node goes.\<close>

lemma evict_for_capacity_spec:
  assumes "es_inv s" "evict_for_capacity s now my ds = (s', ds', ok)"
  shows "es_inv s'" "\<not> ok \<Longrightarrow> s' = s"
    "ok \<Longrightarrow> es_node_count s' = es_node_count s - 1 \<and> 0 < es_node_count s \<and>
      (\<exists>n. mset (live_nodes s) = add_mset n (mset (live_nodes s')) \<and> ne_node_id n \<noteq> my \<and> ne_class n \<noteq> ClassL1)"
proof -
  have "es_inv s' \<and> (\<not> ok \<longrightarrow> s' = s) \<and> (ok \<longrightarrow> es_node_count s' = es_node_count s - 1 \<and> 0 < es_node_count s \<and>
      (\<exists>n. mset (live_nodes s) = add_mset n (mset (live_nodes s')) \<and> ne_node_id n \<noteq> my \<and> ne_class n \<noteq> ClassL1))"
  proof (cases "select_eviction_victim s my True now")
    case None
    then show ?thesis using assms by (simp add: evict_for_capacity_def)
  next
    case (Some k)
    note v = select_eviction_victim_spec [OF Some assms(1)]
    have gone: "es_inv (remove_node_at t k) \<and> es_node_count (remove_node_at t k) = es_node_count s - 1 \<and>
        (\<exists>n. mset (live_nodes s) = add_mset n (mset (live_nodes (remove_node_at t k))) \<and>
          ne_node_id n \<noteq> my \<and> ne_class n \<noteq> ClassL1)" if "t = s\<lparr>es_pending_demotion := d\<rparr>" for t d
      using remove_node_at_inv [of t k] v assms(1) that by auto
    have same: "s = s\<lparr>es_pending_demotion := es_pending_demotion s\<rparr>" by simp
    show ?thesis
    proof (cases ok)
      case False
      then show ?thesis
        using assms by (auto simp: evict_for_capacity_def Some Let_def split: option.splits if_splits prod.splits)
    next
      case True
      then have "\<exists>t d. t = s\<lparr>es_pending_demotion := d\<rparr> \<and> s' = remove_node_at t k"
        using assms(2) apply_demotion_store [of s my _ now] same
        by (auto simp: evict_for_capacity_def Some Let_def split: option.splits if_splits prod.splits)
          (metis fst_conv same)+
      then show ?thesis using gone v(1) True by auto
    qed
  qed
  then show "es_inv s'" "\<not> ok \<Longrightarrow> s' = s"
    "ok \<Longrightarrow> es_node_count s' = es_node_count s - 1 \<and> 0 < es_node_count s \<and>
      (\<exists>n. mset (live_nodes s) = add_mset n (mset (live_nodes s')) \<and> ne_node_id n \<noteq> my \<and> ne_class n \<noteq> ClassL1)"
    by auto
qed

lemma mset_ids: "mset (live_nodes s) = add_mset n (mset (live_nodes s')) \<Longrightarrow>
  mset (node_ids s) = add_mset (ne_node_id n) (mset (node_ids s'))"
  using image_mset_add_mset by (simp add: node_ids_def)

lemma evict_ids:
  assumes "es_inv s" "evict_for_capacity s now my ds = (s', ds', ok)"
  shows "set (node_ids s') \<subseteq> set (node_ids s)" "my \<in> set (node_ids s) \<Longrightarrow> my \<in> set (node_ids s')"
proof -
  have "set (node_ids s') \<subseteq> set (node_ids s) \<and> (my \<in> set (node_ids s) \<longrightarrow> my \<in> set (node_ids s'))"
  proof (cases ok)
    case False
    then show ?thesis using evict_for_capacity_spec(2) [OF assms] by simp
  next
    case True
    then obtain n where n: "mset (live_nodes s) = add_mset n (mset (live_nodes s'))" "ne_node_id n \<noteq> my"
      using evict_for_capacity_spec(3) [OF assms] by blast
    have "set (node_ids s) = insert (ne_node_id n) (set (node_ids s'))"
      using arg_cong [OF mset_ids [OF n(1)], of set_mset] by simp
    then show ?thesis using n(2) by auto
  qed
  then show "set (node_ids s') \<subseteq> set (node_ids s)" "my \<in> set (node_ids s) \<Longrightarrow> my \<in> set (node_ids s')"
    by auto
qed

lemma find_or_create_node_inv:
  assumes "es_inv s" "i \<noteq> 0" "find_or_create_node s i now my = (s', ok)"
  shows "es_inv s'" "ok \<Longrightarrow> i \<in> set (node_ids s')" "set (node_ids s') \<subseteq> insert i (set (node_ids s))"
    "my \<in> set (node_ids s) \<Longrightarrow> my \<in> set (node_ids s')"
proof -
  have "es_inv s' \<and> (ok \<longrightarrow> i \<in> set (node_ids s')) \<and> set (node_ids s') \<subseteq> insert i (set (node_ids s)) \<and>
    (my \<in> set (node_ids s) \<longrightarrow> my \<in> set (node_ids s'))"
  proof (cases "find_node_index s i")
    case (Some k)
    then have "find_node s i \<noteq> None" using find_node_index_iff [of s i] by simp
    then have "i \<in> set (node_ids s)" using find_node_None_iff [of s i] by simp
    then show ?thesis using assms Some by (auto simp: find_or_create_node_def)
  next
    case None
    then have new: "i \<notin> set (node_ids s)" using find_node_index_iff find_node_None_iff by metis
    obtain s1 d1 ok1 where e: "(if MAX_GRAPH_NODES \<le> es_node_count s then evict_for_capacity s now my None
        else (s, None, True)) = (s1, d1, ok1)" by (metis prod_cases3)
    have s1: "es_inv s1" "set (node_ids s1) \<subseteq> set (node_ids s)" "my \<in> set (node_ids s) \<longrightarrow> my \<in> set (node_ids s1)"
      "ok1 \<Longrightarrow> es_node_count s1 < MAX_GRAPH_NODES" "\<not> ok1 \<Longrightarrow> s1 = s"
      using e assms(1) evict_for_capacity_spec [OF assms(1)] evict_ids [OF assms(1)]
      by (auto split: if_splits simp: es_inv_def)
    let ?n = "node_fresh i now (if i = my then ClassL1 else ClassUnknown) 0"
    have eq: "find_or_create_node s i now my = (if \<not> ok1 then (s1, False) else (push_node s1 ?n, True))"
      unfolding find_or_create_node_def e using None by simp
    show ?thesis
    proof (cases ok1)
      case False
      then show ?thesis using eq assms(3) s1 by auto
    next
      case True
      have "ne_node_id ?n \<notin> set (node_ids s1)" using new s1(2) by (auto simp: node_fresh_inv)
      from push_node_inv [OF s1(1) s1(4) [OF True] node_fresh_inv(1) [OF assms(2)] this]
      show ?thesis using True eq assms(3) s1 by (auto simp: node_fresh_inv)
    qed
  qed
  then show "es_inv s'" "ok \<Longrightarrow> i \<in> set (node_ids s')" "set (node_ids s') \<subseteq> insert i (set (node_ids s))"
    "my \<in> set (node_ids s) \<Longrightarrow> my \<in> set (node_ids s')" by auto
qed

lemma ensure_publisher_inv:
  assumes "es_inv s"
  shows "es_inv (fst (ensure_publisher s i c h now my ds))"
proof (cases "i = 0 \<or> i = my \<or> \<not> class_within_depth c \<or> find_node s i \<noteq> None")
  case True
  have "es_inv (modify_node (set_node_class s i c h) i (\<lambda>n. n\<lparr>ne_last_full_update_ms := now\<rparr>))"
    by (rule modify_node_inv(1) [OF set_node_class_inv(1) [OF assms]]) (auto elim: ne_inv_same_edges)
  then show ?thesis using True assms by (auto simp: ensure_publisher_def)
next
  case False
  obtain s1 d1 ok1 where e: "(if MAX_GRAPH_NODES \<le> es_node_count s then demote_for_capacity s now my ds
      else (s, ds, True)) = (s1, d1, ok1)" by (metis prod_cases3)
  have s1: "es_inv s1" "set (node_ids s1) \<subseteq> set (node_ids s)" "ok1 \<Longrightarrow> es_node_count s1 < MAX_GRAPH_NODES"
    using e assms evict_for_capacity_spec [OF assms, of now my "Some ds"]
      evict_ids [OF assms, of now my "Some ds"]
    by (auto simp: demote_for_capacity_def es_inv_def split: if_splits prod.splits)
  have new: "ne_node_id (node_fresh i now c h) \<notin> set (node_ids s1)"
    using False s1(2) find_node_None_iff by (auto simp: node_fresh_inv)
  have eq: "ensure_publisher s i c h now my ds =
      (if \<not> ok1 then (s1, d1, False) else (push_node s1 (node_fresh i now c h), d1, True))"
    unfolding ensure_publisher_def e using False by simp
  show ?thesis
    using eq push_node_inv(1) [OF s1(1) s1(3) node_fresh_inv(1) new] False s1(1) by (cases ok1) auto
qed

section \<open>Updating an edge\<close>

lemma live_edges_update:
  "live_edges (n\<lparr>ne_edges := (ne_edges n)[k := e]\<rparr>) = (live_edges n)[k := e]"
  by (simp add: live_edges_def take_update_swap)

lemma ne_inv_set_edge:
  assumes "ne_inv n" "k < length (live_edges n)" "eg_to e \<noteq> 0" "eg_to e \<noteq> ne_node_id n"
    "eg_to e = eg_to (live_edges n ! k) \<or> eg_to e \<notin> eg_to ` set (live_edges n)"
  shows "ne_inv (n\<lparr>ne_edges := (ne_edges n)[k := e]\<rparr>)"
proof -
  let ?m = "n\<lparr>ne_edges := (ne_edges n)[k := e]\<rparr>"
  have live: "live_edges ?m = (live_edges n)[k := e]" by (rule live_edges_update)
  have "map eg_to (live_edges ?m) = (map eg_to (live_edges n))[k := eg_to e]" by (simp add: live map_update)
  moreover have "distinct ((map eg_to (live_edges n))[k := eg_to e])"
    using assms(1,2,5)
    by (metis distinct_list_update edge_table.keys_distinct in_set_conv_nth length_map list.set_map
        list_update_id nth_map set_map DiffD1)
  moreover have "set (live_edges ?m) \<subseteq> insert e (set (live_edges n))"
    unfolding live by (rule set_update_subset_insert)
  ultimately show ?thesis using assms(1,3,4) by (auto simp: ne_inv_def)
qed

lemma worst_loop_index:
  assumes "worst_loop now src es i None sc = (Some k, sc')"
  shows "i \<le> k \<and> k - i < length es \<and> source_rank (eg_source (es ! (k - i))) \<le> source_rank src"
proof -
  have gen: "worst_loop now src es i w sc = (Some k, sc') \<Longrightarrow> w = Some k \<or>
      (i \<le> k \<and> k - i < length es \<and> source_rank (eg_source (es ! (k - i))) \<le> source_rank src)" for w
  proof (induction es arbitrary: i w sc)
    case (Cons e es)
    have step: "(\<exists>w' sc1. worst_loop now src es (Suc i) w' sc1 = (Some k, sc') \<and>
        (w' = w \<or> (w' = Some i \<and> source_rank (eg_source e) \<le> source_rank src)))"
      using Cons.prems by (auto simp: Let_def split: if_splits)
    then obtain w' sc1 where w': "worst_loop now src es (Suc i) w' sc1 = (Some k, sc')"
      "w' = w \<or> (w' = Some i \<and> source_rank (eg_source e) \<le> source_rank src)" by blast
    from Cons.IH [OF w'(1)] show ?case
    proof
      assume "w' = Some k"
      then show ?thesis using w'(2) by auto
    next
      assume h: "Suc i \<le> k \<and> k - Suc i < length es \<and>
          source_rank (eg_source (es ! (k - Suc i))) \<le> source_rank src"
      then obtain j where "k = Suc (i + j)" by (metis add_Suc le_Suc_ex)
      then show ?thesis using h by (simp add: Suc_diff_le)
    qed
  qed simp
  show ?thesis using gen [OF assms] by simp
qed

lemma put_edge_inv:
  assumes "ne_inv n" "to \<noteq> 0" "to \<noteq> ne_node_id n"
  shows "ne_inv (fst (put_edge th n to etx now src ts ho)) \<and>
    ne_node_id (fst (put_edge th n to etx now src ts ho)) = ne_node_id n"
proof -
  define n1 where "n1 = (if ts then n\<lparr>ne_last_full_update_ms := now\<rparr> else n)"
  have n1: "ne_inv n1" "ne_node_id n1 = ne_node_id n" "live_edges n1 = live_edges n"
    using assms(1) by (auto simp: n1_def live_edges_def elim: ne_inv_same_edges)
  let ?f = "edge_fresh to etx now src ho"
  have f: "eg_to ?f = to" by (simp add: edge_fresh_def)
  have len: "length (live_edges n1) = ne_edge_count n1" using n1(1) by (simp add: ne_inv_def live_edges_def)
  show ?thesis
  proof (cases "position (\<lambda>e. eg_to e = to) (live_edges n1)")
    case (Some k)
    then have k: "k < length (live_edges n1)" "eg_to (live_edges n1 ! k) = to"
      by (auto dest: position_SomeD)
    obtain e r where e: "refresh_edge th (ne_edges n1 ! k) etx now src ts ho = (e, r)"
      by (cases "refresh_edge th (ne_edges n1 ! k) etx now src ts ho")
    have "ne_edges n1 ! k = live_edges n1 ! k" using k(1) by (simp add: live_edges_def)
    then have "eg_to e = to"
      using e k(2) by (auto simp: refresh_edge_def Let_def set_etx_def update_etx_variance_def split: if_splits)
    then show ?thesis
      using ne_inv_set_edge [OF n1(1) k(1), of e] k(2) assms(2,3) n1(2) Some e
      by (simp add: put_edge_def n1_def [symmetric] Let_def)
  next
    case None
    then have new: "to \<notin> eg_to ` set (live_edges n1)" by (auto simp: position_None_iff)
    show ?thesis
    proof (cases "ne_edge_count n1 < MAX_EDGES_PER_NODE")
      case True
      let ?m = "n1\<lparr>ne_edges := (ne_edges n1)[ne_edge_count n1 := ?f], ne_edge_count := ne_edge_count n1 + 1\<rparr>"
      have "live_edges ?m = live_edges n1 @ [?f]"
        using True n1(1) by (simp add: live_edges_def ne_inv_def take_snoc_update)
      then have "ne_inv ?m" using n1 True new assms(2,3) f by (auto simp: ne_inv_def)
      then show ?thesis using None True n1(2) by (simp add: put_edge_def n1_def [symmetric] Let_def)
    next
      case False
      obtain w sc where w: "worst_loop now src (live_edges n1) 0 None F32_MIN = (w, sc)"
        by (cases "worst_loop now src (live_edges n1) 0 None F32_MIN")
      show ?thesis
      proof (cases w)
        case None
        then show ?thesis using \<open>position _ _ = None\<close> False w n1 by (simp add: put_edge_def n1_def [symmetric] Let_def)
      next
        case (Some k)
        then have "k < length (live_edges n1)" using worst_loop_index w by fastforce
        from ne_inv_set_edge [OF n1(1) this, of ?f]
        have "ne_inv (n1\<lparr>ne_edges := (ne_edges n1)[k := ?f]\<rparr>)" using new f assms(2,3) n1(2) by simp
        then show ?thesis using None False w Some n1 by (simp add: put_edge_def n1_def [symmetric] Let_def)
      qed
    qed
  qed
qed

lemma admit_origin_inv:
  assumes "es_inv s" "frm \<noteq> 0"
  shows "es_inv (fst (admit_origin s my frm now))"
  using assms find_or_create_node_inv(1) [OF assms, of now my]
  by (cases "find_or_create_node s frm now my") (auto simp: admit_origin_def Let_def)

lemma place_endpoints_inv:
  assumes "es_inv s" "to \<noteq> 0"
  shows "es_inv (place_endpoints s my frm to now src)"
proof -
  have "es_inv (fst (find_or_create_node s to now my))"
    using find_or_create_node_inv(1) [OF assms, of now my] by (cases "find_or_create_node s to now my") auto
  then show ?thesis
    using assms(1) by (auto simp: place_endpoints_def Let_def set_l1_inv set_node_class_inv)
qed

lemma update_edge_inv:
  assumes "es_inv s"
  shows "es_inv (fst (update_edge s my frm to etx now src ts ho))"
proof (cases "to = 0 \<or> frm = 0 \<or> frm = to \<or> \<not> is_finite etx \<or> f32_le etx (Fin 0)")
  case True
  then show ?thesis using assms by (simp add: update_edge_def)
next
  case False
  obtain s1 b1 where a: "admit_origin s my frm now = (s1, b1)" by (cases "admit_origin s my frm now")
  have i1: "es_inv s1" using admit_origin_inv [OF assms, of frm my now] a False by simp
  obtain s2 b2 where c: "find_or_create_node s1 frm now my = (s2, b2)" by (cases "find_or_create_node s1 frm now my")
  have i2: "es_inv s2" using find_or_create_node_inv(1) [OF i1 _ c] False by simp
  define s3 where "s3 = place_endpoints s2 my frm to now src"
  have i3: "es_inv s3" unfolding s3_def using place_endpoints_inv [OF i2] False by simp
  show ?thesis
  proof (cases "find_node_index s3 frm")
    case None
    then show ?thesis using False a c i1 i2 i3 by (auto simp: update_edge_def s3_def [symmetric] Let_def split: bool.splits)
  next
    case (Some k)
    note k = find_node_index_Some [OF Some i3]
    have nk: "ne_inv (es_nodes s3 ! k)" using es_inv_node [OF i3] k(4,5) nth_mem by metis
    obtain n r where p: "put_edge (es_etx_change_threshold s3) (es_nodes s3 ! k) to etx now src ts ho = (n, r)"
      by (cases "put_edge (es_etx_change_threshold s3) (es_nodes s3 ! k) to etx now src ts ho")
    have "ne_inv n" "ne_node_id n = frm"
      using put_edge_inv [OF nk, of to "es_etx_change_threshold s3" etx now src ts ho] p False k(2) by auto
    then have "es_inv (s3\<lparr>es_nodes := (es_nodes s3)[k := n]\<rparr>)" by (rule node_update_inv(1) [OF i3 Some])
    then show ?thesis
      using False a c i1 i2 Some p by (auto simp: update_edge_def s3_def [symmetric] Let_def split: bool.splits)
  qed
qed

section \<open>The other operations\<close>

lemma es_clear_inv: "es_inv s \<Longrightarrow> es_inv (es_clear s)"
  by (simp add: es_inv_def es_clear_def node_ids_def live_nodes_def)

lemma remove_edge_inv:
  assumes "es_inv s"
  shows "es_inv (fst (remove_edge s a b))"
proof -
  have "es_inv (modify_node s a (compact_edges (\<lambda>e. eg_to e \<noteq> b)))"
    by (rule modify_node_inv(1) [OF assms]) (simp add: compact_edges_live)
  then show ?thesis using assms by (simp add: remove_edge_def split: option.splits)
qed

lemma retain_listed_edges_inv:
  assumes "es_inv s"
  shows "es_inv (fst (retain_listed_edges s a ids))"
proof -
  have "es_inv (modify_node s a (compact_edges keep))" for keep
    by (rule modify_node_inv(1) [OF assms]) (simp add: compact_edges_live)
  then show ?thesis using assms by (simp add: retain_listed_edges_def Let_def split: option.splits)
qed

lemma map_live_edges_inv:
  assumes "ne_inv n" "\<And>e. eg_to (f e) = eg_to e"
  shows "ne_inv (map_live_edges f n) \<and> ne_node_id (map_live_edges f n) = ne_node_id n"
proof -
  have live: "live_edges (map_live_edges f n) = map f (live_edges n)"
    using assms(1) by (simp add: map_live_edges_def live_edges_def ne_inv_def)
  have "map eg_to (map f (live_edges n)) = map eg_to (live_edges n)" by (simp add: assms(2))
  moreover have "eg_to ` set (map f (live_edges n)) = eg_to ` set (live_edges n)"
    by (simp add: image_image assms(2))
  moreover have "length (ne_edges (map_live_edges f n)) = length (ne_edges n)"
    using assms(1) by (simp add: map_live_edges_def live_edges_def ne_inv_def)
  ultimately show ?thesis
    using assms(1) unfolding ne_inv_def live by (simp add: map_live_edges_def comp_def assms(2))
qed

lemma clear_hears_us_to_unlisted_inv:
  assumes "es_inv s"
  shows "es_inv (clear_hears_us_to_unlisted s a ids)"
  unfolding clear_hears_us_to_unlisted_def
  by (rule map_live_nodes_inv(1) [OF assms]) (simp add: map_live_edges_inv)

lemma set_edge_hears_us_inv:
  assumes "es_inv s"
  shows "es_inv (set_edge_hears_us s a b h)"
  unfolding set_edge_hears_us_def
proof (rule modify_node_inv(1) [OF assms])
  fix n assume n: "ne_inv n"
  show "ne_inv (modify_edge n b (\<lambda>e. e\<lparr>eg_hears_us := h\<rparr>)) \<and>
    ne_node_id (modify_edge n b (\<lambda>e. e\<lparr>eg_hears_us := h\<rparr>)) = ne_node_id n"
  proof (cases "position (\<lambda>e. eg_to e = b) (live_edges n)")
    case (Some k)
    then have k: "k < length (live_edges n)" by (auto dest: position_SomeD)
    then have e: "ne_edges n ! k = live_edges n ! k" by (simp add: live_edges_def)
    have "live_edges n ! k \<in> set (live_edges n)" using k by (rule nth_mem)
    then have "eg_to (ne_edges n ! k) \<noteq> 0" "eg_to (ne_edges n ! k) \<noteq> ne_node_id n"
      using n e image_eqI [of _ eg_to] by (metis ne_inv_def)+
    then show ?thesis using ne_inv_set_edge [OF n k] e Some by (simp add: modify_edge_def)
  qed (simp add: modify_edge_def n)
qed

lemma ensure_local_node_inv:
  assumes "es_inv s" "my \<noteq> 0"
  shows "es_inv (ensure_local_node s my now)"
  using assms find_or_create_node_inv(1) [OF assms, of now my]
  by (cases "find_or_create_node s my now my") (simp add: ensure_local_node_def)

lemma update_node_activity_inv:
  assumes "es_inv s"
  shows "es_inv (fst (update_node_activity s i now my))"
proof -
  have "es_inv (modify_node s i (\<lambda>n. n\<lparr>ne_last_full_update_ms := now\<rparr>))"
    by (rule modify_node_inv(1) [OF assms]) (auto elim: ne_inv_same_edges)
  then show ?thesis using assms by (simp add: update_node_activity_def)
qed

lemma flush_pending_demotion_inv: "es_inv s \<Longrightarrow> es_inv (fst (flush_pending_demotion s my now ds))"
  by (simp add: flush_pending_demotion_def apply_demotion_store split: option.splits)

text \<open>Removing a node takes its identifier out of the store, as a node and as a target.\<close>

lemma remove_node_live:
  assumes "es_inv s" "i \<noteq> 0"
  shows "mset (live_nodes (fst (remove_node s i))) =
    mset (filter (\<lambda>n. ne_node_id n \<noteq> i) (map (compact_edges (\<lambda>e. eg_to e \<noteq> i)) (live_nodes s)))"
proof -
  let ?t = "remove_node_edges_to s i"
  note t = remove_node_edges_to_inv [OF assms(1), of i]
  show ?thesis
  proof (cases "find_node_index ?t i")
    case None
    then have "i \<notin> ne_node_id ` set (live_nodes ?t)"
      using find_node_index_iff [of ?t i] find_node_None_iff [of ?t i] by (simp add: node_ids_def)
    then have "filter (\<lambda>n. ne_node_id n \<noteq> i) (live_nodes ?t) = live_nodes ?t" by (auto simp: filter_id_conv)
    then show ?thesis using None assms(2) t(3) by (simp add: remove_node_def Let_def)
  next
    case (Some k)
    note k = find_node_index_Some [OF Some t(1)]
    note r = remove_node_at_inv [OF t(1) k(1)]
    have "distinct (node_ids ?t)" using t(1) by (simp add: es_inv_def)
    then have "i \<notin> ne_node_id ` set (live_nodes (remove_node_at ?t k))"
      using mset_ids [OF r(2)] k(2)
      by (metis distinct.simps(2) list.set_map mset.simps(2) mset_eq_imp_distinct_iff node_ids_def)
    then have "filter (\<lambda>n. ne_node_id n \<noteq> i) (live_nodes (remove_node_at ?t k)) = live_nodes (remove_node_at ?t k)"
      by (auto simp: filter_id_conv)
    moreover have "mset (filter (\<lambda>n. ne_node_id n \<noteq> i) (live_nodes ?t)) =
        mset (filter (\<lambda>n. ne_node_id n \<noteq> i) (live_nodes (remove_node_at ?t k)))"
      using r(2) k(2) by (simp add: mset_filter)
    ultimately show ?thesis using Some assms(2) t(3) by (simp add: remove_node_def Let_def)
  qed
qed

lemma compact_edges_id [simp]: "ne_node_id (compact_edges keep n) = ne_node_id n"
  by (simp add: compact_edges_def split: prod.splits)

lemma remove_node_ids:
  assumes "es_inv s" "i \<noteq> 0"
  shows "set (node_ids (fst (remove_node s i))) = set (node_ids s) - {i}"
proof -
  let ?f = "compact_edges (\<lambda>e. eg_to e \<noteq> i)"
  have "set (live_nodes (fst (remove_node s i))) =
      set (filter (\<lambda>n. ne_node_id n \<noteq> i) (map ?f (live_nodes s)))"
    using arg_cong [OF remove_node_live [OF assms], of set_mset] by (simp only: set_mset_mset)
  also have "\<dots> = ?f ` {n \<in> set (live_nodes s). ne_node_id n \<noteq> i}"
    by (simp only: filter_map set_map set_filter comp_def compact_edges_id)
  finally have "set (live_nodes (fst (remove_node s i))) = ?f ` {n \<in> set (live_nodes s). ne_node_id n \<noteq> i}" .
  then have "set (node_ids (fst (remove_node s i))) = ne_node_id ` {n \<in> set (live_nodes s). ne_node_id n \<noteq> i}"
    by (simp add: node_ids_def image_image)
  then show ?thesis by (auto simp: node_ids_def)
qed

lemma demote_and_remove_store:
  "\<exists>d. fst (demote_and_remove my now v (s, ds, c)) = fst (remove_node (s\<lparr>es_pending_demotion := d\<rparr>) v)"
proof (cases "pick_l1_parent s v my")
  case None
  have "s = s\<lparr>es_pending_demotion := es_pending_demotion s\<rparr>" by simp
  then show ?thesis
    using None by (auto simp: demote_and_remove_def Let_def intro!: exI [of _ "es_pending_demotion s"])
next
  case (Some p)
  then show ?thesis
    by (cases p) (auto simp: demote_and_remove_def Let_def apply_demotion_store intro!: exI [of _ None])
qed

lemma node_ids_pending [simp]: "node_ids (s\<lparr>es_pending_demotion := d\<rparr>) = node_ids s"
  by (simp add: node_ids_def)

lemma demote_and_remove_inv:
  assumes "es_inv s"
  shows "es_inv (fst (demote_and_remove my now v (s, ds, c)))"
    "v \<noteq> 0 \<Longrightarrow> set (node_ids (fst (demote_and_remove my now v (s, ds, c)))) = set (node_ids s) - {v}"
proof -
  obtain d where d: "fst (demote_and_remove my now v (s, ds, c)) = fst (remove_node (s\<lparr>es_pending_demotion := d\<rparr>) v)"
    using demote_and_remove_store by blast
  show "es_inv (fst (demote_and_remove my now v (s, ds, c)))"
    unfolding d by (rule remove_node_inv) (simp add: assms)
  show "v \<noteq> 0 \<Longrightarrow> set (node_ids (fst (demote_and_remove my now v (s, ds, c)))) = set (node_ids s) - {v}"
    unfolding d using remove_node_ids [of "s\<lparr>es_pending_demotion := d\<rparr>" v] assms by simp
qed

lemma fold_demote_inv:
  assumes "es_inv (fst st)"
  shows "es_inv (fst (fold (demote_and_remove my now) vs st)) \<and> (0 \<notin> set vs \<longrightarrow>
    set (node_ids (fst (fold (demote_and_remove my now) vs st))) = set (node_ids (fst st)) - set vs)"
  using assms
proof (induction vs arbitrary: st)
  case (Cons v vs)
  obtain s ds c where st: "st = (s, ds, c)" by (cases st) auto
  have "es_inv s" using Cons.prems st by simp
  note d = demote_and_remove_inv(1) [OF this, of my now v ds c] demote_and_remove_inv(2) [OF this, of v my now ds c]
  from Cons.IH [of "demote_and_remove my now v st"] d show ?case using st by auto
qed simp

lemma prune_inv:
  assumes "es_inv s"
  shows "es_inv (fst (prune_unreachable_from_root s my now ds))"
proof (cases "position (\<lambda>i. i = my) (node_ids s)")
  case None
  then show ?thesis using assms by (simp add: prune_unreachable_from_root_def Let_def)
next
  case (Some k)
  then show ?thesis
    using fold_demote_inv [of "(s, ds, False)" my now] assms
    by (simp add: prune_unreachable_from_root_def Let_def)
qed

lemma remove_edge_and_prune_inv:
  assumes "es_inv s"
  shows "es_inv (fst (remove_edge_and_prune s a b my now ds))"
proof -
  obtain s1 c where r: "remove_edge s a b = (s1, c)" by (cases "remove_edge s a b")
  have "es_inv s1" using remove_edge_inv [OF assms, of a b] r by simp
  from prune_inv [OF this, of my now ds] this r show ?thesis
    by (cases c) (auto simp: remove_edge_and_prune_def split: prod.splits)
qed

lemma fold_remove_inv:
  "es_inv s \<Longrightarrow> es_inv (fst (fold (\<lambda>v (s, c). case remove_node s v of (s, b) \<Rightarrow> (s, c \<or> b)) vs (s, c)))"
proof (induction vs arbitrary: s c)
  case (Cons v vs)
  then show ?case using remove_node_inv [of s v] by (cases "remove_node s v") simp
qed simp

lemma age_edges_inv:
  assumes "es_inv s"
  shows "es_inv (fst (age_edges s my now ttl ds))"
proof -
  let ?fresh = "\<lambda>e. now - eg_last_update_ms e \<le> ttl"
  define s1 where "s1 = map_live_nodes (compact_edges ?fresh) s"
  have s1: "es_inv s1" unfolding s1_def
    by (rule map_live_nodes_inv(1) [OF assms]) (simp add: compact_edges_live)
  define ch where "ch = list_ex (\<lambda>n. list_ex (\<lambda>e. \<not> ?fresh e) (live_edges n)) (live_nodes s)"
  define vs where "vs = age_victims s1 my now ttl"
  show ?thesis
  proof (cases ds)
    case None
    obtain s2 c where f: "fold (\<lambda>v (s, c). case remove_node s v of (s, b) \<Rightarrow> (s, c \<or> b)) vs (s1, ch) = (s2, c)"
      by (cases "fold (\<lambda>v (s, c). case remove_node s v of (s, b) \<Rightarrow> (s, c \<or> b)) vs (s1, ch)")
    have "age_edges s my now ttl None = (s2, None, c)"
      using f unfolding age_edges_def Let_def vs_def s1_def ch_def by simp
    then show ?thesis using fold_remove_inv [OF s1, of vs ch] f None by simp
  next
    case (Some d)
    obtain s2 d2 c where f: "fold (demote_and_remove my now) vs (s1, d, ch) = (s2, d2, c)"
      by (metis prod_cases3)
    have s2: "es_inv s2" using fold_demote_inv [of "(s1, d, ch)" my now vs] s1 f by simp
    have "age_edges s my now ttl (Some d) = (if c then (case prune_unreachable_from_root s2 my now d2 of
        (s, ds, _) \<Rightarrow> (s, Some ds, True)) else (s2, Some d2, False))"
      using f unfolding age_edges_def Let_def vs_def s1_def ch_def by simp
    then show ?thesis using prune_inv [OF s2, of my now d2] s2 Some by (auto split: prod.splits)
  qed
qed

end
