(* ===== verification/Graph.thy ===== *)
theory Graph
  imports GraphInv
begin

text \<open>
  What the operations of the graph promise together: every sequence of them keeps the graph well
  formed, pruning leaves exactly what is connected with this node, an eviction spares this node
  and its direct neighbours, and an edge is never overwritten by a weaker source.
\<close>

section \<open>The nodes connected with this one\<close>

definition linked :: "edge_store \<Rightarrow> (u32 \<times> u32) set" where
  "linked s = {(a, b). a \<in> set (node_ids s) \<and> b \<in> set (node_ids s) \<and>
     (edge_of s a b \<noteq> None \<or> edge_of s b a \<noteq> None)}"

definition marked :: "u32 list \<Rightarrow> bool list \<Rightarrow> u32 set" where
  "marked ids reach = {ids ! i | i. i < length ids \<and> reach ! i}"

lemma marked_subset: "marked ids reach \<subseteq> set ids"
  by (auto simp: marked_def)

lemma marked_nth: "distinct ids \<Longrightarrow> i < length ids \<Longrightarrow> ids ! i \<in> marked ids reach \<longleftrightarrow> reach ! i"
  by (auto simp: marked_def nth_eq_iff_index_eq)

lemma marked_update:
  assumes "distinct ids" "i < length ids" "i < length reach"
  shows "marked ids (reach[i := True]) = insert (ids ! i) (marked ids reach)"
  using assms by (auto simp: marked_def nth_list_update)

lemma nodes_at:
  assumes "es_inv s" "i < length (node_ids s)"
  shows "find_node s (node_ids s ! i) = Some (es_nodes s ! i)"
proof -
  have i: "i < length (live_nodes s)" using assms(2) by (simp add: node_ids_def)
  then have "live_nodes s ! i = es_nodes s ! i" by (simp add: live_nodes_def)
  moreover have "live_nodes s ! i \<in> set (live_nodes s)" using i by (rule nth_mem)
  moreover have "ne_node_id (live_nodes s ! i) = node_ids s ! i" using i by (simp add: node_ids_def)
  ultimately show ?thesis using find_node_Some_iff [OF assms(1)] by simp
qed

lemma edge_of_at:
  "es_inv s \<Longrightarrow> i < length (node_ids s) \<Longrightarrow> edge_of s (node_ids s ! i) x = find_edge (es_nodes s ! i) x"
  by (simp add: edge_of_def nodes_at)

lemma node_ids_length: "es_inv s \<Longrightarrow> length (node_ids s) \<le> MAX_GRAPH_NODES"
  by (simp add: es_inv_def node_ids_def live_nodes_def)

text \<open>Both directions of the search: the positions looked at are those of the linked nodes.\<close>

lemma edge_targets_ids:
  assumes "es_inv s" "position (\<lambda>i. i = cur) (node_ids s) = Some ci"
  shows "(!) (node_ids s) ` set (edge_targets s (node_ids s) ci) = {x \<in> set (node_ids s). edge_of s cur x \<noteq> None}"
    "set (edge_targets s (node_ids s) ci) \<subseteq> {..<length (node_ids s)}"
proof -
  have ci: "ci < length (node_ids s)" "node_ids s ! ci = cur" using position_SomeD [OF assms(2)] by auto
  have t: "set (edge_targets s (node_ids s) ci) =
      {k. \<exists>e \<in> set (live_edges (es_nodes s ! ci)). position (\<lambda>i. i = eg_to e) (node_ids s) = Some k}"
    by (auto simp: edge_targets_def map_filter_def image_iff) (metis option.sel)
  show "set (edge_targets s (node_ids s) ci) \<subseteq> {..<length (node_ids s)}"
    unfolding t by (auto dest: position_SomeD)
  have some: "edge_of s cur x \<noteq> None \<longleftrightarrow> (\<exists>e \<in> set (live_edges (es_nodes s ! ci)). eg_to e = x)" for x
    using edge_of_at [OF assms(1) ci(1)] ci(2) by (auto simp: find_edge_def find_None_iff)
  have pos: "\<exists>k. position (\<lambda>i. i = x) (node_ids s) = Some k" if "x \<in> set (node_ids s)" for x
    using that position_None_iff [of "\<lambda>i. i = x" "node_ids s"] by (metis not_None_eq)
  show "(!) (node_ids s) ` set (edge_targets s (node_ids s) ci) = {x \<in> set (node_ids s). edge_of s cur x \<noteq> None}"
    (is "?L = ?R")
  proof (intro equalityI subsetI)
    fix x assume "x \<in> ?L"
    then obtain k e where "x = node_ids s ! k" "e \<in> set (live_edges (es_nodes s ! ci))"
      "position (\<lambda>i. i = eg_to e) (node_ids s) = Some k" unfolding t by auto
    moreover from position_SomeD [OF this(3)] have "k < length (node_ids s)" "node_ids s ! k = eg_to e" by auto
    ultimately show "x \<in> ?R" unfolding mem_Collect_eq some using nth_mem [of k "node_ids s"] by auto
  next
    fix x assume "x \<in> ?R"
    then obtain e k where e: "e \<in> set (live_edges (es_nodes s ! ci))" "eg_to e = x"
      "position (\<lambda>i. i = x) (node_ids s) = Some k" unfolding mem_Collect_eq some using pos by blast
    then have "node_ids s ! k = x" "k \<in> set (edge_targets s (node_ids s) ci)"
      using position_SomeD [OF e(3)] t by auto
    then show "x \<in> ?L" by blast
  qed
qed

lemma edge_origins_ids:
  assumes "es_inv s"
  shows "(!) (node_ids s) ` set (edge_origins s (node_ids s) cur) = {x \<in> set (node_ids s). edge_of s x cur \<noteq> None}"
    "set (edge_origins s (node_ids s) cur) \<subseteq> {..<length (node_ids s)}"
proof -
  have "set (edge_origins s (node_ids s) cur) =
      {i. i < length (node_ids s) \<and> edge_of s (node_ids s ! i) cur \<noteq> None}"
    using edge_of_at [OF assms] by (auto simp: edge_origins_def)
  then show "(!) (node_ids s) ` set (edge_origins s (node_ids s) cur) =
      {x \<in> set (node_ids s). edge_of s x cur \<noteq> None}"
    "set (edge_origins s (node_ids s) cur) \<subseteq> {..<length (node_ids s)}"
    by (auto simp: in_set_conv_nth image_iff)
qed

text \<open>
  The stack never overflows: what is on it is marked and there are no more marks than nodes. So
  marking adds exactly the new candidates.
\<close>

definition stack_ok :: "u32 list \<Rightarrow> bool list \<Rightarrow> u32 list \<Rightarrow> bool" where
  "stack_ok ids reach stack \<longleftrightarrow> distinct ids \<and> length ids \<le> MAX_GRAPH_NODES \<and>
     length reach = MAX_GRAPH_NODES \<and> distinct stack \<and> set stack \<subseteq> marked ids reach"

lemma mark_loop_spec:
  assumes "stack_ok ids reach stack" "set is \<subseteq> {..<length ids}"
  shows "stack_ok ids (fst (mark_loop ids is reach stack)) (snd (mark_loop ids is reach stack)) \<and>
    marked ids (fst (mark_loop ids is reach stack)) = marked ids reach \<union> (!) ids ` set is \<and>
    set (snd (mark_loop ids is reach stack)) = set stack \<union> ((!) ids ` set is - marked ids reach)"
  using assms
proof (induction ids "is" reach stack rule: mark_loop.induct)
  case (2 ids i is' reach stack)
  then have i: "i < length ids" "i < length reach" "distinct ids" by (auto simp: stack_ok_def)
  show ?case
  proof (cases "reach ! i")
    case True
    then have "ids ! i \<in> marked ids reach" using marked_nth i by blast
    then show ?thesis using 2 True by (auto simp: insert_absorb)
  next
    case False
    then have new: "ids ! i \<notin> marked ids reach" using marked_nth i by blast
    have "card (set stack) < length ids"
    proof -
      have "card (set stack) < card (set ids)"
        by (rule psubset_card_mono) (use new 2 i marked_subset [of ids reach] nth_mem in \<open>auto simp: stack_ok_def\<close>)
      then show ?thesis using card_length [of ids] by simp
    qed
    then have room: "length stack < MAX_GRAPH_NODES" using 2(3) by (auto simp: stack_ok_def distinct_card)
    let ?r = "reach[i := True]" and ?st = "ids ! i # stack"
    have m: "marked ids ?r = insert (ids ! i) (marked ids reach)" using i by (intro marked_update)
    have ok: "stack_ok ids ?r ?st" using 2(3) new m by (auto simp: stack_ok_def)
    have "mark_loop ids (i # is') reach stack = mark_loop ids is' ?r ?st" using False i room by simp
    moreover have "stack_ok ids (fst (mark_loop ids is' ?r ?st)) (snd (mark_loop ids is' ?r ?st)) \<and>
      marked ids (fst (mark_loop ids is' ?r ?st)) = marked ids ?r \<union> (!) ids ` set is' \<and>
      set (snd (mark_loop ids is' ?r ?st)) = set ?st \<union> ((!) ids ` set is' - marked ids ?r)"
      using 2(2) [OF _ ] ok False i room 2(4) by simp
    ultimately show ?thesis using m new by auto
  qed
qed simp

lemma search_loop_spec:
  assumes "es_inv s" "stack_ok (node_ids s) reach stack" "my \<in> marked (node_ids s) reach"
    "marked (node_ids s) reach \<subseteq> (linked s)\<^sup>* `` {my}"
    "linked s `` (marked (node_ids s) reach - set stack) \<subseteq> marked (node_ids s) reach"
  shows "marked (node_ids s) (search_loop s (node_ids s) reach stack) = (linked s)\<^sup>* `` {my}"
  using assms
proof (induction "length (filter Not reach) * 2 + length stack" arbitrary: reach stack rule: less_induct)
  case less
  show ?case
  proof (cases stack)
    case Nil
    have "(linked s)\<^sup>* `` {my} \<subseteq> marked (node_ids s) reach"
      using less.prems(3,5) Nil Image_closed_trancl [of "linked s" "marked (node_ids s) reach"] by fastforce
    then show ?thesis using less.prems(4) Nil by auto
  next
    case (Cons cur st)
    let ?ids = "node_ids s"
    have cur: "cur \<in> marked ?ids reach" "cur \<notin> set st" using less.prems(2) Cons by (auto simp: stack_ok_def)
    then have mem: "cur \<in> set ?ids" using marked_subset by blast
    then obtain ci where ci: "position (\<lambda>i. i = cur) ?ids = Some ci"
      using position_None_iff [of "\<lambda>i. i = cur" ?ids] by (metis not_None_eq)
    define m1 where "m1 = mark_loop ?ids (edge_targets s ?ids ci) reach st"
    define m2 where "m2 = mark_loop ?ids (edge_origins s ?ids cur) (fst m1) (snd m1)"
    have eq: "search_loop s ?ids reach stack = search_loop s ?ids (fst m2) (snd m2)"
      using Cons ci by (simp add: m1_def m2_def Let_def)
    have ok0: "stack_ok ?ids reach st" using less.prems(2) Cons by (auto simp: stack_ok_def)
    note t = edge_targets_ids [OF less.prems(1) ci] and o = edge_origins_ids [OF less.prems(1), of cur]
    note s1 = mark_loop_spec [OF ok0 t(2), folded m1_def]
    note s2 = mark_loop_spec [OF conjunct1 [OF s1] o(2), folded m2_def]
    have img: "linked s `` {cur} = (!) ?ids ` set (edge_targets s ?ids ci) \<union> (!) ?ids ` set (edge_origins s ?ids cur)"
      unfolding t(1) o(1) using mem by (auto simp: linked_def)
    have mk: "marked ?ids (fst m2) = marked ?ids reach \<union> linked s `` {cur}" using s1 s2 img by auto
    have st2: "set (snd m2) = set st \<union> (linked s `` {cur} - marked ?ids reach)" using s1 s2 img by auto
    have "length (filter Not (fst m2)) * 2 + length (snd m2) < length (filter Not reach) * 2 + length stack"
      using mark_loop_measure [of ?ids "edge_targets s ?ids ci" reach st]
        mark_loop_measure [of ?ids "edge_origins s ?ids cur" "fst m1" "snd m1"] Cons
      by (simp add: m1_def m2_def)
    moreover have "marked ?ids (fst m2) \<subseteq> (linked s)\<^sup>* `` {my}"
      unfolding mk using less.prems(4) cur(1) by (auto intro: rtrancl_into_rtrancl)
    moreover have "linked s `` (marked ?ids (fst m2) - set (snd m2)) \<subseteq> marked ?ids (fst m2)"
    proof -
      have "marked ?ids (fst m2) - set (snd m2) \<subseteq> insert cur (marked ?ids reach - set stack)"
        unfolding mk st2 using Cons by auto
      then show ?thesis using less.prems(5) mk by blast
    qed
    moreover have "my \<in> marked ?ids (fst m2)" unfolding mk using less.prems(3) by simp
    ultimately show ?thesis
      unfolding eq using less.hyps [of "fst m2" "snd m2"] less.prems(1) conjunct1 [OF s2] by blast
  qed
qed

text \<open>
  C9. Pruning keeps exactly what is connected with this node. When the node itself is in the
  graph, the nodes left after \<open>prune_unreachable_from_root\<close> are those joined to it by a chain of
  edges taken in either direction; the search's stack of fixed size is never too small.
\<close>

theorem prune_keeps_component:
  assumes "es_inv s" "my_node \<in> set (node_ids s)"
  shows "set (node_ids (fst (prune_unreachable_from_root s my_node now_ms ds))) =
    (linked s)\<^sup>* `` {my_node}"
proof -
  let ?ids = "node_ids s"
  have d: "distinct ?ids" "0 \<notin> set ?ids"
    using assms(1) by (auto simp: es_inv_def ne_inv_def node_ids_def)
  obtain k where k: "position (\<lambda>i. i = my_node) ?ids = Some k"
    using assms(2) position_None_iff [of "\<lambda>i. i = my_node" ?ids] by (metis not_None_eq)
  then have kl: "k < length ?ids" "?ids ! k = my_node" by (auto dest: position_SomeD)
  define start where "start = (replicate MAX_GRAPH_NODES False)[k := True]"
  have m: "marked ?ids start = {my_node}"
    using marked_update [of ?ids k "replicate MAX_GRAPH_NODES False"] d(1) kl node_ids_length [OF assms(1)]
    by (auto simp: start_def marked_def)
  define reach where "reach = search_loop s ?ids start [my_node]"
  have "stack_ok ?ids start [my_node]"
    using m d(1) node_ids_length [OF assms(1)] by (simp add: stack_ok_def start_def)
  from search_loop_spec [OF assms(1) this, of my_node]
  have comp: "marked ?ids reach = (linked s)\<^sup>* `` {my_node}" using m by (auto simp: reach_def)
  let ?doomed = "map (\<lambda>i. ?ids ! i) (filter (\<lambda>i. \<not> reach ! i \<and> ?ids ! i \<noteq> my_node) [0..<length ?ids])"
  have "set ?doomed = {x \<in> set ?ids. x \<notin> marked ?ids reach \<and> x \<noteq> my_node}"
    using marked_nth [OF d(1)] by (auto simp: in_set_conv_nth image_iff)
  moreover have "my_node \<in> marked ?ids reach" unfolding comp by auto
  ultimately have doomed: "set ?doomed = set ?ids - marked ?ids reach" by auto
  have eq: "prune_unreachable_from_root s my_node now_ms ds =
      fold (demote_and_remove my_node now_ms) ?doomed (s, ds, False)"
    using k by (simp add: prune_unreachable_from_root_def Let_def reach_def start_def)
  have "0 \<notin> set ?doomed" using doomed d(2) by blast
  then have "set (node_ids (fst (prune_unreachable_from_root s my_node now_ms ds))) = set ?ids - set ?doomed"
    unfolding eq using fold_demote_inv [of "(s, ds, False)" my_node now_ms ?doomed] assms(1) by simp
  then show ?thesis using doomed marked_subset [of ?ids reach] comp by auto
qed

text \<open>A graph with an island: node 1 reports node 2, and node 3 stands alone.\<close>

definition sample_node :: "u32 \<Rightarrow> edge list \<Rightarrow> node_edges" where
  "sample_node i es = \<lparr>ne_node_id = i, ne_edge_count = length es, ne_last_full_update_ms = 5,
     ne_class = ClassL1, ne_parent_hint = 0,
     ne_edges = es @ replicate (MAX_EDGES_PER_NODE - length es) edge_default\<rparr>"

definition sample_graph :: "node_edges list \<Rightarrow> edge_store" where
  "sample_graph ns = es_new\<lparr>es_nodes := ns @ drop (length ns) (es_nodes es_new), es_node_count := length ns\<rparr>"

lemma live_edges_sample [simp]: "live_edges (sample_node i es) = es"
  by (simp add: live_edges_def sample_node_def)

lemma live_nodes_sample [simp]: "live_nodes (sample_graph ns) = ns"
  by (simp add: live_nodes_def sample_graph_def)

lemma sample_node_id [simp]: "ne_node_id (sample_node i es) = i"
  by (simp add: sample_node_def)

lemma sample_node_inv:
  "i \<noteq> 0 \<Longrightarrow> length es \<le> MAX_EDGES_PER_NODE \<Longrightarrow> distinct (map eg_to es) \<Longrightarrow> 0 \<notin> eg_to ` set es \<Longrightarrow>
   i \<notin> eg_to ` set es \<Longrightarrow> ne_inv (sample_node i es)"
  by (auto simp: ne_inv_def) (auto simp: sample_node_def)

lemma sample_graph_inv:
  "length ns \<le> MAX_GRAPH_NODES \<Longrightarrow> distinct (map ne_node_id ns) \<Longrightarrow> list_all ne_inv ns \<Longrightarrow>
   es_inv (sample_graph ns)"
  by (simp add: es_inv_def node_ids_def list_all_iff) (simp add: sample_graph_def es_new_def)

lemma node_ids_sample [simp]: "node_ids (sample_graph ns) = map ne_node_id ns"
  by (simp add: node_ids_def)

lemma find_node_sample [simp]: "find_node (sample_graph ns) i = find (\<lambda>n. ne_node_id n = i) ns"
  by (simp add: find_node_def)

definition island_graph :: edge_store where
  "island_graph = sample_graph [sample_node 1 [edge_fresh 2 (Fin 2) 5 Reported 0], sample_node 2 [], sample_node 3 []]"

lemma island_graph_inv: "es_inv island_graph"
  by (simp add: island_graph_def sample_graph_inv sample_node_inv edge_fresh_def MAX_GRAPH_NODES_def
      MAX_EDGES_PER_NODE_def)

theorem prune_keeps_component_witness:
  "set (node_ids (fst (prune_unreachable_from_root island_graph 1 7 ds_new))) = (linked island_graph)\<^sup>* `` {1} \<and>
   node_ids island_graph = [1, 2, 3] \<and>
   3 \<notin> set (node_ids (fst (prune_unreachable_from_root island_graph 1 7 ds_new)))"
proof -
  have ids: "node_ids island_graph = [1, 2, 3]" by (simp add: island_graph_def)
  have "linked island_graph `` {1, 2} \<subseteq> {1, 2}"
    by (auto simp: linked_def edge_of_def island_graph_def find_edge_def edge_fresh_def split: if_splits)
  then have "(linked island_graph)\<^sup>* `` {1} \<subseteq> {1, 2}"
    using Image_closed_trancl [of "linked island_graph" "{1, 2}"] by auto
  then show ?thesis using prune_keeps_component [OF island_graph_inv, of 1 7 ds_new] ids by auto
qed

section \<open>Every operation keeps the graph well formed\<close>

text \<open>
  The operations of the graph that change it, with their arguments. The identifier of this node
  is one of the session, and not zero.
\<close>

datatype graph_op =
    OpClear
  | OpFlush u32
  | OpSetClass u32 node_class u32
  | OpSetL1 u32
  | OpPublisher u32 node_class u32 u32
  | OpLocal u32
  | OpActivity u32 u32
  | OpUpdate u32 u32 f32 u32 edge_source bool u8
  | OpObserve u32 u32 int int u32 edge_source u8 u8
  | OpHearsUs u32 u32 bool
  | OpRetain u32 "u32 list"
  | OpUnlisted u32 "u32 list"
  | OpRemoveEdge u32 u32
  | OpRemoveEdgePrune u32 u32 u32
  | OpRemoveEdgesTo u32
  | OpRemoveNode u32
  | OpPrune u32
  | OpAge u32 u32 bool

fun run_op :: "u32 \<Rightarrow> graph_op \<Rightarrow> edge_store \<times> downstream_table \<Rightarrow> edge_store \<times> downstream_table" where
  "run_op my OpClear (s, ds) = (es_clear s, ds)"
| "run_op my (OpFlush now) (s, ds) = flush_pending_demotion s my now ds"
| "run_op my (OpSetClass i c h) (s, ds) = (set_node_class s i c h, ds)"
| "run_op my (OpSetL1 i) (s, ds) = (set_l1 s i, ds)"
| "run_op my (OpPublisher i c h now) (s, ds) =
     (case ensure_publisher s i c h now my ds of (s, ds, _) \<Rightarrow> (s, ds))"
| "run_op my (OpLocal now) (s, ds) = (ensure_local_node s my now, ds)"
| "run_op my (OpActivity i now) (s, ds) = (fst (update_node_activity s i now my), ds)"
| "run_op my (OpUpdate a b etx now src ts ho) (s, ds) = (fst (update_edge s my a b etx now src ts ho), ds)"
| "run_op my (OpObserve a b rssi snr now src ho p) (s, ds) =
     (fst (update_edge_from_observation s my a b rssi snr now src ho p), ds)"
| "run_op my (OpHearsUs a b h) (s, ds) = (set_edge_hears_us s a b h, ds)"
| "run_op my (OpRetain a ids) (s, ds) = (fst (retain_listed_edges s a ids), ds)"
| "run_op my (OpUnlisted a ids) (s, ds) = (clear_hears_us_to_unlisted s a ids, ds)"
| "run_op my (OpRemoveEdge a b) (s, ds) = (fst (remove_edge s a b), ds)"
| "run_op my (OpRemoveEdgePrune a b now) (s, ds) =
     (case remove_edge_and_prune s a b my now ds of (s, ds, _) \<Rightarrow> (s, ds))"
| "run_op my (OpRemoveEdgesTo i) (s, ds) = (remove_edges_to s i, ds)"
| "run_op my (OpRemoveNode i) (s, ds) = (fst (remove_node s i), ds)"
| "run_op my (OpPrune now) (s, ds) =
     (case prune_unreachable_from_root s my now ds of (s, ds, _) \<Rightarrow> (s, ds))"
| "run_op my (OpAge now ttl track) (s, ds) =
     (case age_edges s my now ttl (if track then Some ds else None) of (s, d, _) \<Rightarrow>
        (s, case d of None \<Rightarrow> ds | Some d \<Rightarrow> d))"

lemmas graph_op_invs = es_clear_inv set_node_class_inv(1) set_l1_inv(1) ensure_local_node_inv
  update_node_activity_inv update_edge_inv set_edge_hears_us_inv retain_listed_edges_inv
  clear_hears_us_to_unlisted_inv remove_edge_inv remove_node_edges_to_inv(1) remove_node_inv

lemma run_op_inv:
  assumes "es_inv (fst st)" "my \<noteq> 0"
  shows "es_inv (fst (run_op my op st))"
proof -
  obtain s ds where st: "st = (s, ds)" by (cases st)
  then have s: "es_inv s" using assms(1) by simp
  show ?thesis
  proof (cases op)
    case (OpFlush now)
    then show ?thesis using flush_pending_demotion_inv [OF s] st by simp
  next
    case (OpPublisher i c h now)
    then show ?thesis using ensure_publisher_inv [OF s, of i c h now my ds] st by (auto split: prod.splits)
  next
    case (OpRemoveEdgePrune a b now)
    then show ?thesis using remove_edge_and_prune_inv [OF s, of a b my now ds] st by (auto split: prod.splits)
  next
    case (OpPrune now)
    then show ?thesis using prune_inv [OF s, of my now ds] st by (auto split: prod.splits)
  next
    case (OpAge now ttl track)
    then show ?thesis
      using age_edges_inv [OF s, of my now ttl "if track then Some ds else None"] st by (auto split: prod.splits)
  qed (use s assms(2) st in \<open>simp_all add: graph_op_invs remove_edges_to_def update_edge_from_observation_def\<close>)
qed

text \<open>
  C11. Whatever sequence of operations is applied to a new graph, it stays well formed: at most
  32 nodes with at most 40 edges each, no identifier twice among the nodes or among the edges of
  a node, none of them zero, and no edge from a node to itself.
\<close>

theorem graph_stays_well_formed:
  assumes "my_node \<noteq> 0"
  shows "es_inv (fst (fold (run_op my_node) ops (es_new, ds)))"
proof -
  have "es_inv (fst st) \<Longrightarrow> es_inv (fst (fold (run_op my_node) ops st))" for st
    by (induction ops arbitrary: st) (simp_all add: run_op_inv assms)
  then show ?thesis by (simp add: es_new_inv)
qed

theorem graph_stays_well_formed_witness:
  "es_inv (fst (fold (run_op 1) [OpLocal 1, OpUpdate 1 2 (Fin 2) 5 Reported True 0,
     OpUpdate 2 3 (Fin 1) 6 Mirrored True 0, OpHearsUs 2 3 True, OpRemoveNode 2, OpPrune 9] (es_new, ds_new)))"
  using graph_stays_well_formed [of 1 "[OpLocal 1, OpUpdate 1 2 (Fin 2) 5 Reported True 0,
     OpUpdate 2 3 (Fin 1) 6 Mirrored True 0, OpHearsUs 2 3 True, OpRemoveNode 2, OpPrune 9]" ds_new]
  by (simp del: run_op.simps fold.simps)

section \<open>What an update leaves alone\<close>

lemma evict_keeps:
  assumes "es_inv s" "evict_for_capacity s now my ds = (s', ds', ok)" "n \<in> set (live_nodes s)"
    "ne_class n = ClassL1 \<or> ne_node_id n = my"
  shows "n \<in> set (live_nodes s')"
proof (cases ok)
  case False
  then show ?thesis using evict_for_capacity_spec(2) [OF assms(1,2)] assms(3) by simp
next
  case True
  obtain v where v: "mset (live_nodes s) = add_mset v (mset (live_nodes s'))" "ne_node_id v \<noteq> my"
    "ne_class v \<noteq> ClassL1" using evict_for_capacity_spec(3) [OF assms(1,2) True] by blast
  have "set (live_nodes s) = insert v (set (live_nodes s'))"
    using arg_cong [OF v(1), of set_mset] by (simp only: set_mset_mset set_mset_add_mset_insert)
  then show ?thesis using assms(3,4) v(2,3) by (metis insertE)
qed

lemma find_or_create_keeps:
  assumes "es_inv s" "n \<in> set (live_nodes s)" "ne_class n = ClassL1 \<or> ne_node_id n = my_node"
  shows "n \<in> set (live_nodes (fst (find_or_create_node s node_id now_ms my_node)))"
proof (cases "find_node_index s node_id")
  case None
  let ?new = "node_fresh node_id now_ms (if node_id = my_node then ClassL1 else ClassUnknown) 0"
  have push: "n \<in> set (live_nodes (push_node t ?new))"
    if "n \<in> set (live_nodes t)" "es_node_count t < length (es_nodes t)" for t
    using that by (simp add: push_node_def live_nodes_def take_snoc_update)
  show ?thesis
  proof (cases "MAX_GRAPH_NODES \<le> es_node_count s")
    case True
    obtain s1 d1 ok1 where ev: "evict_for_capacity s now_ms my_node None = (s1, d1, ok1)" by (metis prod_cases3)
    note keep = evict_keeps [OF assms(1) ev assms(2,3)]
    have "es_node_count s1 < length (es_nodes s1)" if ok1
      using evict_for_capacity_spec(1) [OF assms(1) ev] evict_for_capacity_spec(3) [OF assms(1) ev that] assms(1)
      by (auto simp: es_inv_def)
    then show ?thesis using None True ev keep push [of s1] by (cases ok1) (simp_all add: find_or_create_node_def)
  next
    case False
    then show ?thesis
      using None assms(1,2) push [of s] by (simp add: find_or_create_node_def es_inv_def)
  qed
qed (use assms in \<open>simp add: find_or_create_node_def\<close>)

text \<open>
  C16. Making room never costs this node or a direct neighbour: whoever is added to a full graph,
  the node itself and every node of the first class stay with all their edges.
\<close>

theorem eviction_spares_neighbors:
  assumes "es_inv s" "n \<in> set (live_nodes s)" "ne_class n = ClassL1 \<or> ne_node_id n = my_node"
  shows "n \<in> set (live_nodes (fst (find_or_create_node s node_id now_ms my_node)))"
  using assms by (rule find_or_create_keeps)

text \<open>A full graph whose last node is of no class.\<close>

definition full_graph :: edge_store where
  "full_graph = sample_graph (map (\<lambda>i. sample_node (of_nat i) []) [1..<32] @ [(sample_node 32 [])\<lparr>ne_class := ClassUnknown\<rparr>])"

lemma full_graph_inv: "es_inv full_graph"
proof -
  have "ne_inv (sample_node i [])" if "i \<noteq> 0" for i using that by (intro sample_node_inv) simp_all
  moreover have "ne_inv ((sample_node 32 [])\<lparr>ne_class := ClassUnknown\<rparr>)"
    by (rule ne_inv_same_edges [of "sample_node 32 []"]) (simp_all add: sample_node_inv)
  moreover have "list_all (\<lambda>i. of_nat i \<noteq> (0 :: u32)) [1..<32]" by code_simp
  moreover have "distinct (map of_nat [1..<32] @ [32 :: u32])" by code_simp
  ultimately show ?thesis
    unfolding full_graph_def
    by (intro sample_graph_inv) (auto simp: MAX_GRAPH_NODES_def list_all_iff comp_def)
qed

theorem eviction_spares_neighbors_witness:
  "sample_node 7 [] \<in> set (live_nodes (fst (find_or_create_node full_graph 40 9 1))) \<and>
   es_node_count full_graph = MAX_GRAPH_NODES"
proof -
  have "7 \<in> set [1..<32 :: nat]" by simp
  then have "sample_node (of_nat 7) [] \<in> set (live_nodes full_graph)"
    unfolding full_graph_def live_nodes_sample set_append set_map by blast
  then have "sample_node 7 [] \<in> set (live_nodes full_graph)" by simp
  moreover have "ne_class (sample_node 7 []) = ClassL1" by (simp add: sample_node_def)
  moreover have "es_node_count full_graph = MAX_GRAPH_NODES"
    by (simp add: full_graph_def sample_graph_def MAX_GRAPH_NODES_def)
  ultimately show ?thesis using eviction_spares_neighbors [OF full_graph_inv] by blast
qed

lemma put_edge_keeps_stronger:
  assumes "ne_inv n" "to \<noteq> 0" "to \<noteq> ne_node_id n" "find_edge n other = Some e"
    "source_rank source < source_rank (eg_source e)"
  shows "find_edge (fst (put_edge threshold n to etx now_ms source ts heard_on)) other = Some e"
proof -
  define n1 where "n1 = (if ts then n\<lparr>ne_last_full_update_ms := now_ms\<rparr> else n)"
  have n1: "ne_inv n1" "live_edges n1 = live_edges n"
    using assms(1) by (auto simp: n1_def live_edges_def elim: ne_inv_same_edges)
  obtain j where j: "j < length (live_edges n1)" "live_edges n1 ! j = e" "eg_to e = other"
    using find_edge_D [OF assms(4)] n1(2) by (auto simp: in_set_conv_nth)
  let ?f = "edge_fresh to etx now_ms source heard_on" and ?r = "fst (put_edge threshold n to etx now_ms source ts heard_on)"
  have upd: "e \<in> set ((live_edges n1)[k := x])" if "k = j \<longrightarrow> x = e" for k x
  proof -
    have "(live_edges n1)[k := x] ! j = e" using j that by (cases "k = j") simp_all
    then show ?thesis using nth_mem [of j "(live_edges n1)[k := x]"] j(1) by simp
  qed
  have "e \<in> set (live_edges ?r)"
  proof (cases "position (\<lambda>x. eg_to x = to) (live_edges n1)")
    case (Some k)
    then have k: "k < length (live_edges n1)" "ne_edges n1 ! k = live_edges n1 ! k"
      by (auto dest: position_SomeD simp: live_edges_def)
    obtain x r where x: "refresh_edge threshold (ne_edges n1 ! k) etx now_ms source ts heard_on = (x, r)"
      by (cases "refresh_edge threshold (ne_edges n1 ! k) etx now_ms source ts heard_on")
    have "k = j \<longrightarrow> x = e" using x k(2) j(2) assms(5) by (auto simp: refresh_edge_def)
    then show ?thesis using upd [of k x] Some x by (simp add: put_edge_def n1_def [symmetric] live_edges_update)
  next
    case None
    show ?thesis
    proof (cases "ne_edge_count n1 < MAX_EDGES_PER_NODE")
      case True
      then show ?thesis
        using None j n1(1) nth_mem [OF j(1)]
        by (simp add: put_edge_def n1_def [symmetric] live_edges_def ne_inv_def take_snoc_update)
    next
      case False
      obtain w sc where w: "worst_loop now_ms source (live_edges n1) 0 None F32_MIN = (w, sc)"
        by (cases "worst_loop now_ms source (live_edges n1) 0 None F32_MIN")
      have "\<forall>k. w = Some k \<longrightarrow> k \<noteq> j" using worst_loop_index [of now_ms source "live_edges n1" 0] w j(2) assms(5) by fastforce
      then show ?thesis
        using None False w j upd [of _ ?f] nth_mem [OF j(1)]
        by (cases w) (auto simp: put_edge_def n1_def [symmetric] live_edges_update)
    qed
  qed
  then show ?thesis
    using put_edge_inv [OF assms(1-3)] j(3) by (simp add: find_edge_Some_iff)
qed

lemma find_node_modify:
  assumes "es_inv s" "\<And>n. ne_inv n \<Longrightarrow> ne_inv (f n) \<and> ne_node_id (f n) = ne_node_id n"
  shows "find_node (modify_node s i f) a = map_option (\<lambda>n. if a = i then f n else n) (find_node s a)"
proof (cases "find_node_index s i")
  case None
  then have "find_node s i = None" by (simp add: find_node_index_iff)
  then show ?thesis using None by (cases "find_node s a") (auto simp: modify_node_def)
next
  case (Some k)
  note k = find_node_index_Some [OF Some assms(1)]
  have m: "live_nodes (modify_node s i f) = (live_nodes s)[k := f (live_nodes s ! k)]"
    using Some k(4) by (simp add: modify_node_def live_nodes_update)
  have nk: "ne_inv (live_nodes s ! k)" "ne_node_id (live_nodes s ! k) = i"
    using es_inv_node [OF assms(1)] k nth_mem by metis+
  have inv: "es_inv (modify_node s i f)" by (rule modify_node_inv(1) [OF assms(1)]) (rule assms(2))
  show ?thesis
  proof (cases "a = i")
    case True
    have "f (live_nodes s ! k) \<in> set (live_nodes (modify_node s i f))"
      unfolding m using k(5) by (simp add: set_update_memI)
    then have "find_node (modify_node s i f) i = Some (f (live_nodes s ! k))"
      using find_node_Some_iff [OF inv] assms(2) [OF nk(1)] nk(2) by simp
    then show ?thesis using True k(3,4) by simp
  next
    case False
    have "find_node (modify_node s i f) a = Some n \<longleftrightarrow> find_node s a = Some n" for n
      unfolding find_node_Some_iff [OF inv] find_node_Some_iff [OF assms(1)] m
      using nk False assms(2) [OF nk(1)] k(5) by (auto simp: in_set_conv_nth nth_list_update split: if_splits)
    then have "find_node (modify_node s i f) a = find_node s a"
      by (cases "find_node s a"; cases "find_node (modify_node s i f) a") auto
    then show ?thesis using False by (simp add: option.map_ident)
  qed
qed

text \<open>Changing the class of a node leaves every edge as it was.\<close>

lemma edge_of_modify:
  assumes "es_inv s" "\<And>n. live_edges (f n) = live_edges n \<and> ne_node_id (f n) = ne_node_id n \<and>
    ne_edges (f n) = ne_edges n \<and> ne_edge_count (f n) = ne_edge_count n"
  shows "edge_of (modify_node s i f) a b = edge_of s a b"
proof -
  have "find_node (modify_node s i f) a = map_option (\<lambda>n. if a = i then f n else n) (find_node s a)"
    using assms(2) by (intro find_node_modify [OF assms(1)]) (auto elim: ne_inv_same_edges)
  then show ?thesis by (cases "find_node s a") (auto simp: edge_of_def find_edge_def assms(2))
qed

lemma place_endpoints_keeps:
  assumes "es_inv s" "to \<noteq> 0" "edge_of s frm b = Some e"
  shows "edge_of (place_endpoints s my frm to now src) frm b = Some e"
proof -
  obtain n where n: "n \<in> set (live_nodes s)" "ne_node_id n = frm" "find_edge n b = Some e"
    using assms(3) by (auto simp: edge_of_def bind_eq_Some_conv dest: find_node_D)
  obtain s1 ok where f: "find_or_create_node s to now my = (s1, ok)" by (cases "find_or_create_node s to now my")
  have s1: "es_inv s1" using find_or_create_node_inv(1) [OF assms(1,2) f] .
  have "edge_of s1 frm b = Some e" if "frm = my"
  proof -
    have "n \<in> set (live_nodes s1)" using find_or_create_keeps [OF assms(1) n(1), of my to now] n(2) that f by simp
    then have "find_node s1 frm = Some n" using find_node_Some_iff [OF s1] n(2) by blast
    then show ?thesis using n(3) by (simp add: edge_of_def)
  qed
  moreover have "edge_of (set_l1 s1 to) frm b = edge_of s1 frm b"
    unfolding set_l1_def by (rule edge_of_modify [OF s1]) (simp add: live_edges_def)
  moreover have "edge_of (set_node_class s frm c h) frm b = edge_of s frm b" for c h
    unfolding set_node_class_def by (rule edge_of_modify [OF assms(1)]) (simp add: live_edges_def Let_def)
  ultimately show ?thesis using assms(3) f by (cases "frm = my") (simp_all add: place_endpoints_def Let_def)
qed

text \<open>
  C22. An edge is never overwritten by a weaker source: when an update of a node comes from a
  source that ranks below the one that stored one of its edges, that edge stays as it is, also
  when the array is full and the update takes the place of the worst edge, and when it makes
  room for its target.
\<close>

theorem weaker_source_keeps_edge:
  assumes "es_inv s" "edge_of s frm other = Some e" "source_rank source < source_rank (eg_source e)"
  shows "edge_of (fst (update_edge s my_node frm to etx now_ms source ts heard_on)) frm other = Some e"
proof (cases "to = 0 \<or> frm = 0 \<or> frm = to \<or> \<not> is_finite etx \<or> f32_le etx (Fin 0)")
  case True
  then show ?thesis using assms by (simp add: update_edge_def)
next
  case False
  have known: "find_node s frm \<noteq> None" using assms(2) by (cases "find_node s frm") (simp_all add: edge_of_def)
  then have known': "find_node_index s frm \<noteq> None" by (simp add: find_node_index_iff)
  define s3 where "s3 = place_endpoints s my_node frm to now_ms source"
  have i3: "es_inv s3" unfolding s3_def using place_endpoints_inv [OF assms(1)] False by simp
  have e3: "edge_of s3 frm other = Some e"
    unfolding s3_def using place_endpoints_keeps [OF assms(1) _ assms(2)] False by simp
  then have "find_node_index s3 frm \<noteq> None" by (cases "find_node s3 frm") (auto simp: edge_of_def find_node_index_iff)
  then obtain k where k: "find_node_index s3 frm = Some k" by blast
  note ks = find_node_index_Some [OF k i3]
  let ?p = "put_edge (es_etx_change_threshold s3) (es_nodes s3 ! k) to etx now_ms source ts heard_on"
  have eq: "fst (update_edge s my_node frm to etx now_ms source ts heard_on) =
      s3\<lparr>es_nodes := (es_nodes s3)[k := fst ?p]\<rparr>"
    using False known known' k
    by (auto simp: update_edge_def admit_origin_def find_or_create_node_def s3_def Let_def split: prod.splits)
  have nk: "ne_inv (es_nodes s3 ! k)" using es_inv_node [OF i3] ks(4,5) nth_mem by metis
  have fe: "find_edge (es_nodes s3 ! k) other = Some e" using e3 ks(3) by (simp add: edge_of_def)
  have ne: "to \<noteq> 0" "to \<noteq> ne_node_id (es_nodes s3 ! k)" using False ks(2) by auto
  note p = put_edge_inv [OF nk ne] put_edge_keeps_stronger [OF nk ne fe assms(3)]
  let ?s4 = "s3\<lparr>es_nodes := (es_nodes s3)[k := fst ?p]\<rparr>"
  have i4: "es_inv ?s4" using node_update_inv(1) [OF i3 k] p(1) ks(2) by simp
  have "fst ?p \<in> set (live_nodes ?s4)" unfolding live_nodes_update using ks(5) by (simp add: set_update_memI)
  then have "find_node ?s4 frm = Some (fst ?p)" using find_node_Some_iff [OF i4] p(1) ks(2) by simp
  then show ?thesis unfolding eq using p(2) by (simp add: edge_of_def)
qed

theorem weaker_source_keeps_edge_witness:
  "edge_of (fst (update_edge island_graph 1 1 2 (Fin 1) 9 Mirrored True 0)) 1 2 =
     Some (edge_fresh 2 (Fin 2) 5 Reported 0)"
proof -
  have "edge_of island_graph 1 2 = Some (edge_fresh 2 (Fin 2) 5 Reported 0)"
    by (simp add: island_graph_def edge_of_def find_edge_def edge_fresh_def)
  moreover have "source_rank Mirrored < source_rank (eg_source (edge_fresh 2 (Fin 2) 5 Reported 0))"
    by (simp add: edge_fresh_def)
  ultimately show ?thesis by (rule weaker_source_keeps_edge [OF island_graph_inv])
qed

end
