(* ===== verification/Route.thy ===== *)
theory Route
  imports GraphEdges Capability
begin

text \<open>
  Routes (\<open>graph/route.rs\<close>): the price of a hop in the direction of delivery, the search for a
  cheapest route backwards from the destination in a table of 32 nodes, the fallbacks of
  \<open>calculate_route\<close> and the cache of routes. The table of the search is the list of its used
  entries; the relaxations one node offers do not depend on the table, so they are a list
  (\<open>offers\<close>) that the search folds over. The lemmas show that what the search returns is a walk
  of the graph with its cost and length, and that it is a cheapest one when the nodes it can meet
  fit in the table.
\<close>

section \<open>Which nodes may relay\<close>

definition MAX_CACHED_ROUTES :: nat where "MAX_CACHED_ROUTES = 32"
definition ROUTE_CACHE_TIMEOUT_MS :: u32 where "ROUTE_CACHE_TIMEOUT_MS = 300000"
definition ROUTE_COST_UNKNOWN :: u16 where "ROUTE_COST_UNKNOWN = 0xFFFF"
definition UNVERIFIED_HOP_COST_FACTOR :: u16 where "UNVERIFIED_HOP_COST_FACTOR = 4"
definition OWNER_COST_BUCKET_FIXED :: u16 where "OWNER_COST_BUCKET_FIXED = 50"
definition COVERAGE_ETX_CEILING_FIXED :: u16 where "COVERAGE_ETX_CEILING_FIXED = 700"
definition PUBLISHER_SILENCE_MS :: u32 where
  "PUBLISHER_SILENCE_MS = 2 * TOPOLOGY_BROADCAST_MS + 20000"

record routable_filter =
  rf_capability :: capability_cache
  rf_my_node :: u32
  rf_device_role :: u32
  rf_excluded :: "u32 list"

definition is_node_routable :: "routable_filter \<Rightarrow> u32 \<Rightarrow> bool" where
  "is_node_routable flt node_id \<longleftrightarrow>
     (if node_id = 0 then False
      else if List.member (rf_excluded flt) node_id then False
      else if rf_device_role flt = DEVICE_ROLE_CLIENT_MUTE \<and> node_id = rf_my_node flt then False
      else
        (case cap_status (rf_capability flt) node_id of
           CapLegacy \<Rightarrow> is_legacy_router (rf_capability flt) node_id
         | CapPassive \<Rightarrow> False
         | _ \<Rightarrow> True))"

section \<open>Routes and their cache\<close>

datatype route_mode = Ball | ListDownstream | OrphanGateway

record route =
  rt_destination :: u32
  rt_next_hop :: u32
  rt_egress_radio :: u8
  rt_cost_fixed :: u16
  rt_timestamp_ms :: u32
  rt_hops :: nat
  rt_verified :: bool
  rt_mode :: route_mode

definition route_cost :: "route \<Rightarrow> f32" where
  "route_cost r = f32_div (f32_of_nat (unat (rt_cost_fixed r))) (Fin 100)"

record route_cache =
  rc_entries :: "route list"
  rc_count :: nat

definition route_cache_new :: route_cache where
  "route_cache_new = \<lparr>rc_entries = replicate MAX_CACHED_ROUTES
     \<lparr>rt_destination = 0, rt_next_hop = 0, rt_egress_radio = 0, rt_cost_fixed = 0,
      rt_timestamp_ms = 0, rt_hops = 0, rt_verified = True, rt_mode = Ball\<rparr>, rc_count = 0\<rparr>"

definition route_cache_clear :: "route_cache \<Rightarrow> route_cache" where
  "route_cache_clear c = c\<lparr>rc_count := 0\<rparr>"

definition route_cache_get :: "route_cache \<Rightarrow> u32 \<Rightarrow> u32 \<Rightarrow> route option" where
  "route_cache_get c destination now_ms =
     find (\<lambda>r. rt_destination r = destination \<and> now_ms - rt_timestamp_ms r < ROUTE_CACHE_TIMEOUT_MS
            \<and> rt_next_hop r \<noteq> 0) (take (rc_count c) (rc_entries c))"

definition route_cache_insert :: "route_cache \<Rightarrow> route \<Rightarrow> route_cache" where
  "route_cache_insert c r =
     (if rt_next_hop r = 0 then c
      else
        (case position (\<lambda>x. rt_destination x = rt_destination r) (take (rc_count c) (rc_entries c)) of
           Some i \<Rightarrow> c\<lparr>rc_entries := (rc_entries c)[i := r]\<rparr>
         | None \<Rightarrow>
             if rc_count c < MAX_CACHED_ROUTES then
               c\<lparr>rc_entries := (rc_entries c)[rc_count c := r], rc_count := rc_count c + 1\<rparr>
             else
               let oldest = (case max_by_key (\<lambda>(i, x). rt_timestamp_ms r - rt_timestamp_ms x)
                               (enumerate 0 (rc_entries c)) of None \<Rightarrow> 0 | Some (i, _) \<Rightarrow> i)
               in c\<lparr>rc_entries := (rc_entries c)[oldest := r]\<rparr>))"

section \<open>Evidence about links\<close>

definition known_to_hear :: "edge_store \<Rightarrow> u32 \<Rightarrow> u32 \<Rightarrow> bool" where
  "known_to_hear s frm to \<longleftrightarrow>
     (case edge_of s frm to of None \<Rightarrow> False | Some e \<Rightarrow> eg_hears_us e) \<or> edge_of s to frm \<noteq> None"

definition peer_publishes_topology :: "capability_cache option \<Rightarrow> u32 \<Rightarrow> bool" where
  "peer_publishes_topology capability node \<longleftrightarrow>
     (case capability of None \<Rightarrow> False | Some c \<Rightarrow> cap_status c node \<in> {CapSrActive, CapPassive})"

definition can_deliver :: "edge_store \<Rightarrow> capability_cache option \<Rightarrow> u32 \<Rightarrow> u32 \<Rightarrow> bool" where
  "can_deliver s capability frm to \<longleftrightarrow>
     (if known_to_hear s frm to then True else \<not> peer_publishes_topology capability to)"

definition measured_edge :: "edge_store \<Rightarrow> u32 \<Rightarrow> u32 \<Rightarrow> edge option" where
  "measured_edge s node peer =
     (case edge_of s node peer of
        None \<Rightarrow> None | Some e \<Rightarrow> if is_measured (eg_source e) then Some e else None)"

definition measured_etx :: "edge_store \<Rightarrow> u32 \<Rightarrow> u32 \<Rightarrow> u16 option" where
  "measured_etx s node peer = map_option eg_etx_fixed (measured_edge s node peer)"

definition hop_cost_fixed :: "edge_store \<Rightarrow> u32 \<Rightarrow> u32 \<Rightarrow> u16 option" where
  "hop_cost_fixed s frm to =
     (case measured_etx s to frm of Some cost \<Rightarrow> Some cost | None \<Rightarrow> measured_etx s frm to)"

definition priced_hop_cost_fixed :: "edge \<Rightarrow> u32 \<Rightarrow> u32 \<Rightarrow> u32 \<Rightarrow> bool \<Rightarrow> u16" where
  "priced_hop_cost_fixed e list_owner my_node now_ms unverified =
     (let etx = (if unverified then sat_mul (eg_etx_fixed e) UNVERIFIED_HOP_COST_FACTOR else eg_etx_fixed e);
          our_rx = (list_owner = my_node \<and> eg_source e = Reported);
          var_byte = effective_variance_byte e now_ms TOPOLOGY_BROADCAST_MS our_rx;
          weight = (if our_rx then 10 else 5)
      in min (sat_add etx (ucast var_byte * weight)) 0xFFFE)"

definition delivery_direction_cost_fixed ::
  "edge_store \<Rightarrow> capability_cache option \<Rightarrow> u32 \<Rightarrow> u32 \<Rightarrow> u32 \<Rightarrow> u32 \<Rightarrow> u16 option" where
  "delivery_direction_cost_fixed s capability frm to now_ms my_node =
     (case measured_edge s to frm of
        Some e \<Rightarrow> Some (priced_hop_cost_fixed e to my_node now_ms False)
      | None \<Rightarrow>
          (case measured_edge s frm to of
             None \<Rightarrow> None
           | Some e \<Rightarrow> Some (priced_hop_cost_fixed e frm my_node now_ms
                         (peer_publishes_topology capability to))))"

definition delivery_hop_cost_fixed ::
  "edge_store \<Rightarrow> capability_cache option \<Rightarrow> u32 \<Rightarrow> u32 \<Rightarrow> u32 \<Rightarrow> u32 \<Rightarrow> u16 option" where
  "delivery_hop_cost_fixed s capability frm to now_ms my_node =
     (if \<not> can_deliver s capability frm to then None
      else delivery_direction_cost_fixed s capability frm to now_ms my_node)"

definition has_strong_hop_to ::
  "edge_store \<Rightarrow> capability_cache option \<Rightarrow> u32 \<Rightarrow> u32 \<Rightarrow> u32 \<Rightarrow> u32 \<Rightarrow> bool" where
  "has_strong_hop_to s capability frm peer now_ms my_node \<longleftrightarrow>
     (if peer = 0 then False
      else (case delivery_direction_cost_fixed s capability frm peer now_ms my_node of
              None \<Rightarrow> False | Some cost \<Rightarrow> cost \<le> COVERAGE_ETX_CEILING_FIXED))"

definition has_strong_delivery_hop ::
  "edge_store \<Rightarrow> capability_cache option \<Rightarrow> u32 \<Rightarrow> u32 \<Rightarrow> u32 \<Rightarrow> u32 \<Rightarrow> bool" where
  "has_strong_delivery_hop s capability frm dest now_ms my_node \<longleftrightarrow>
     (case delivery_hop_cost_fixed s capability frm dest now_ms my_node of
        None \<Rightarrow> False | Some cost \<Rightarrow> cost \<le> COVERAGE_ETX_CEILING_FIXED)"

definition acknowledgement_price_fixed :: "edge_store \<Rightarrow> u32 \<Rightarrow> u32 \<Rightarrow> u16 option" where
  "acknowledgement_price_fixed s candidate source =
     (if source = 0 \<or> candidate = 0 \<or> candidate = source then None
      else if is_placeholder_node source \<or> is_placeholder_node candidate then None
      else
        (case measured_edge s candidate source of
           None \<Rightarrow> None
         | Some e \<Rightarrow>
             if \<not> eg_hears_us e then None
             else
               let cost = (case hop_cost_fixed s candidate source of None \<Rightarrow> eg_etx_fixed e | Some c \<Rightarrow> c)
               in if COVERAGE_ETX_CEILING_FIXED < cost then None else Some cost))"

text \<open>
  The owner of a target: the candidate of the smallest tier, then the smallest cost bucket, then
  the smallest identifier.
\<close>

definition owner_key ::
  "edge_store \<Rightarrow> capability_cache \<Rightarrow> u32 \<Rightarrow> bool \<Rightarrow> u32 \<Rightarrow> u32 \<Rightarrow> (nat \<times> u16) option" where
  "owner_key s capability me me_relays target candidate =
     (if candidate = target \<or> is_placeholder_node candidate
         \<or> (case cap_role capability candidate of None \<Rightarrow> False | Some r \<Rightarrow> role_is_mute r) then None
      else if candidate \<noteq> me \<and> \<not> has_direct_reported_edge_to s me candidate then None
      else
        (case measured_edge s candidate target of
           None \<Rightarrow> None
         | Some e \<Rightarrow>
             if COVERAGE_ETX_CEILING_FIXED < eg_etx_fixed e then None
             else
               map_option (\<lambda>tier. (tier, eg_etx_fixed e div OWNER_COST_BUCKET_FIXED))
                 (if candidate = me then (if \<not> me_relays then None else Some 1)
                  else if is_immediate_relay_router capability candidate then Some 0
                  else if cap_status capability candidate = CapSrActive then Some 1
                  else None)))"

definition key_less :: "nat \<times> u16 \<Rightarrow> nat \<times> u16 \<Rightarrow> bool" where
  "key_less a b \<longleftrightarrow> fst a < fst b \<or> (fst a = fst b \<and> snd a < snd b)"

fun owner_loop ::
  "(u32 \<Rightarrow> (nat \<times> u16) option) \<Rightarrow> u32 list \<Rightarrow> nat \<times> u16 \<Rightarrow> u32 \<Rightarrow> u32" where
  "owner_loop key [] best owner = owner"
| "owner_loop key (c # cs) best owner =
     (case key c of
        None \<Rightarrow> owner_loop key cs best owner
      | Some k \<Rightarrow>
          if key_less k best \<or> (k = best \<and> c < owner) then owner_loop key cs k c
          else owner_loop key cs best owner)"

definition coverage_owner :: "edge_store \<Rightarrow> capability_cache \<Rightarrow> u32 \<Rightarrow> bool \<Rightarrow> u32 \<Rightarrow> u32" where
  "coverage_owner s capability me me_relays target =
     (if target = 0 \<or> is_placeholder_node target then 0
      else if peer_publishes_topology (Some capability) target then 0
      else owner_loop (owner_key s capability me me_relays target) (node_ids s) (255, - 1) 0)"

definition is_silent_publisher :: "edge_store \<Rightarrow> capability_cache option \<Rightarrow> u32 \<Rightarrow> u32 \<Rightarrow> bool" where
  "is_silent_publisher s capability node now_ms \<longleftrightarrow>
     (if \<not> peer_publishes_topology capability node then False
      else
        (case find_node s node of
           None \<Rightarrow> False
         | Some entry \<Rightarrow>
             let silent = now_ms - ne_last_full_update_ms entry
             in PUBLISHER_SILENCE_MS < silent \<and> silent < 0x80000000))"

definition covers :: "edge_store \<Rightarrow> capability_cache option \<Rightarrow> u32 \<Rightarrow> u32 \<Rightarrow> bool" where
  "covers s capability frm to \<longleftrightarrow>
     (if peer_publishes_topology capability to then known_to_hear s frm to
      else known_to_hear s frm to \<or> edge_of s frm to \<noteq> None) \<and>
     (case hop_cost_fixed s frm to of None \<Rightarrow> False | Some c \<Rightarrow> c \<le> COVERAGE_ETX_CEILING_FIXED)"

section \<open>The search\<close>

record dnode =
  dn_id :: u32
  dn_cost :: u16
  dn_prev :: u32
  dn_visited :: bool

definition dnode_fresh :: "u32 \<Rightarrow> dnode" where
  "dnode_fresh i = \<lparr>dn_id = i, dn_cost = ROUTE_COST_UNKNOWN, dn_prev = 0, dn_visited = False\<rparr>"

definition find_or_add_node :: "u32 \<Rightarrow> dnode list \<Rightarrow> dnode list \<times> nat option" where
  "find_or_add_node i nodes =
     (case position (\<lambda>n. dn_id n = i) nodes of
        Some k \<Rightarrow> (nodes, Some k)
      | None \<Rightarrow>
          if MAX_GRAPH_NODES \<le> length nodes then (nodes, None)
          else (nodes @ [dnode_fresh i], Some (length nodes)))"

definition prev_of :: "dnode list \<Rightarrow> u32 \<Rightarrow> u32" where
  "prev_of nodes i = (case find (\<lambda>n. dn_id n = i) nodes of None \<Rightarrow> 0 | Some n \<Rightarrow> dn_prev n)"

definition route_add :: "u16 \<Rightarrow> u16 \<Rightarrow> u16" where
  "route_add cost edge_cost = min (sat_add cost edge_cost) 0xFFFE"

definition relax :: "u32 \<Rightarrow> u32 \<Rightarrow> u16 \<Rightarrow> u16 \<Rightarrow> dnode list \<Rightarrow> dnode list" where
  "relax m via cost edge_cost nodes =
     (case find_or_add_node m nodes of
        (nodes, None) \<Rightarrow> nodes
      | (nodes, Some k) \<Rightarrow>
          if dn_visited (nodes ! k) then nodes
          else
            let new_cost = route_add cost edge_cost in
            if new_cost < dn_cost (nodes ! k)
            then nodes[k := (nodes ! k)\<lparr>dn_cost := new_cost, dn_prev := via\<rparr>]
            else nodes)"

text \<open>The edge cost \<open>relax_priced\<close> computes before it relaxes.\<close>

definition relax_price :: "edge_store \<Rightarrow> u32 \<Rightarrow> u32 \<Rightarrow> u32 \<Rightarrow> u32 \<Rightarrow> u32 \<Rightarrow> edge \<Rightarrow> bool \<Rightarrow> u16" where
  "relax_price s my_node now_ms m via list_owner e unverified =
     (let edge_cost = priced_hop_cost_fixed e list_owner my_node now_ms unverified in
      if m = my_node then
        (case edge_of s my_node via of
           Some rx \<Rightarrow>
             if eg_source rx = Reported \<and> eg_last_heard_ms rx \<noteq> 0
             then max edge_cost (priced_hop_cost_fixed rx my_node my_node now_ms False)
             else edge_cost
         | None \<Rightarrow> edge_cost)
      else edge_cost)"

definition own_offers :: "edge_store \<Rightarrow> u32 \<Rightarrow> u32 \<Rightarrow> u32 \<Rightarrow> (u32 \<times> u16) list" where
  "own_offers s my_node now_ms n =
     (case find_node s n of
        None \<Rightarrow> []
      | Some ne \<Rightarrow> map (\<lambda>e. (eg_to e, relax_price s my_node now_ms (eg_to e) n n e False)) (live_edges ne))"

definition peer_offers ::
  "edge_store \<Rightarrow> capability_cache option \<Rightarrow> u32 \<Rightarrow> u32 \<Rightarrow> bool \<Rightarrow> u32 \<Rightarrow> (u32 \<times> u16) list" where
  "peer_offers s capability my_node now_ms allow_unverified n =
     List.map_filter (\<lambda>m.
       if m = n then None
       else if edge_of s n m \<noteq> None then None
       else
         (case edge_of s m n of
            None \<Rightarrow> None
          | Some e \<Rightarrow>
              if \<not> peer_publishes_topology capability n
              then Some (m, relax_price s my_node now_ms m n m e False)
              else if allow_unverified then Some (m, relax_price s my_node now_ms m n m e True)
              else None)) (node_ids s)"

definition offers ::
  "edge_store \<Rightarrow> capability_cache option \<Rightarrow> u32 \<Rightarrow> u32 \<Rightarrow> bool \<Rightarrow> u32 \<Rightarrow> (u32 \<times> u16) list" where
  "offers s capability my_node now_ms allow_unverified n =
     own_offers s my_node now_ms n @ peer_offers s capability my_node now_ms allow_unverified n"

definition relax_all :: "u32 \<Rightarrow> u16 \<Rightarrow> (u32 \<times> u16) list \<Rightarrow> dnode list \<Rightarrow> dnode list" where
  "relax_all n u_cost ws nodes = fold (\<lambda>(m, w). relax m n u_cost w) ws nodes"

text \<open>The next node to settle: the first unvisited one of smallest cost below \<open>0xFFFF\<close>.\<close>

fun pick_loop :: "dnode list \<Rightarrow> nat \<Rightarrow> nat option \<Rightarrow> u16 \<Rightarrow> nat option \<times> u16" where
  "pick_loop [] i u_idx u_cost = (u_idx, u_cost)"
| "pick_loop (n # ns) i u_idx u_cost =
     (if \<not> dn_visited n \<and> dn_cost n < u_cost then pick_loop ns (Suc i) (Some i) (dn_cost n)
      else pick_loop ns (Suc i) u_idx u_cost)"

definition pick :: "dnode list \<Rightarrow> nat option \<times> u16" where
  "pick nodes = pick_loop nodes 0 None ROUTE_COST_UNKNOWN"

definition visit :: "nat \<Rightarrow> dnode list \<Rightarrow> dnode list" where
  "visit k nodes = nodes[k := (nodes ! k)\<lparr>dn_visited := True\<rparr>]"

definition search_measure :: "dnode list \<Rightarrow> nat" where
  "search_measure nodes =
     length (filter (\<lambda>n. \<not> dn_visited n) nodes) + (MAX_GRAPH_NODES - length nodes)"

lemma filter_length_update:
  "k < length xs \<Longrightarrow>
   length (filter P (xs[k := v])) + (if P (xs ! k) then 1 else 0) =
   length (filter P xs) + (if P v then 1 else 0)"
proof (induction xs arbitrary: k)
  case (Cons x xs)
  then show ?case by (cases k) auto
qed simp

lemma find_or_add_measure:
  "find_or_add_node i nodes = (nodes', k) \<Longrightarrow> search_measure nodes' \<le> search_measure nodes"
  by (auto simp: find_or_add_node_def search_measure_def dnode_fresh_def split: option.splits if_splits)

lemma find_or_add_index: "find_or_add_node i nodes = (nodes', Some k) \<Longrightarrow> k < length nodes'"
  by (auto simp: find_or_add_node_def dest: position_less split: option.splits if_splits)

lemma relax_measure: "search_measure (relax m via c w nodes) \<le> search_measure nodes"
proof -
  obtain nodes' k where f: "find_or_add_node m nodes = (nodes', k)" by (cases "find_or_add_node m nodes")
  have le: "search_measure nodes' \<le> search_measure nodes" by (rule find_or_add_measure [OF f])
  show ?thesis
  proof (cases k)
    case None
    then show ?thesis using le by (simp add: relax_def f)
  next
    case (Some i)
    have "search_measure (nodes'[i := (nodes' ! i)\<lparr>dn_cost := a, dn_prev := b\<rparr>]) = search_measure nodes'" for a b
      using filter_length_update [of i nodes' "\<lambda>n. \<not> dn_visited n" "(nodes' ! i)\<lparr>dn_cost := a, dn_prev := b\<rparr>"]
        find_or_add_index [OF f [unfolded Some]]
      by (auto simp: search_measure_def split: if_splits)
    then show ?thesis using le by (auto simp: relax_def f Some Let_def)
  qed
qed

lemma relax_all_measure: "search_measure (relax_all n c ws nodes) \<le> search_measure nodes"
proof (induction ws arbitrary: nodes)
  case (Cons w ws)
  from Cons.IH [of "relax (fst w) n c (snd w) nodes"] relax_measure [of "fst w" n c "snd w" nodes]
  show ?case by (simp add: relax_all_def case_prod_unfold)
qed (simp add: relax_all_def)

lemma pick_loop_spec:
  assumes "pick_loop ns i u_idx u_cost = (u', c)"
  shows "c \<le> u_cost \<and> (\<forall>n \<in> set ns. \<not> dn_visited n \<longrightarrow> c \<le> dn_cost n) \<and>
    ((u' = u_idx \<and> c = u_cost) \<or>
     (\<exists>k < length ns. u' = Some (i + k) \<and> \<not> dn_visited (ns ! k) \<and> dn_cost (ns ! k) = c \<and> c < u_cost))"
  using assms
proof (induction ns arbitrary: i u_idx u_cost)
  case (Cons n ns)
  show ?case
  proof (cases "\<not> dn_visited n \<and> dn_cost n < u_cost")
    case True
    have "pick_loop ns (Suc i) (Some i) (dn_cost n) = (u', c)" using Cons.prems True by simp
    from Cons.IH [OF this] have le: "c \<le> dn_cost n" "\<forall>n \<in> set ns. \<not> dn_visited n \<longrightarrow> c \<le> dn_cost n"
      and alt: "(u' = Some i \<and> c = dn_cost n) \<or> (\<exists>k < length ns. u' = Some (Suc i + k) \<and>
        \<not> dn_visited (ns ! k) \<and> dn_cost (ns ! k) = c \<and> c < dn_cost n)" by auto
    from alt have "\<exists>k < length (n # ns). u' = Some (i + k) \<and> \<not> dn_visited ((n # ns) ! k) \<and>
        dn_cost ((n # ns) ! k) = c \<and> c < u_cost"
    proof
      assume "u' = Some i \<and> c = dn_cost n"
      then show ?thesis using True by (intro exI [of _ 0]) simp
    next
      assume "\<exists>k < length ns. u' = Some (Suc i + k) \<and> \<not> dn_visited (ns ! k) \<and>
        dn_cost (ns ! k) = c \<and> c < dn_cost n"
      then obtain k where "k < length ns" "u' = Some (Suc i + k)" "\<not> dn_visited (ns ! k)"
        "dn_cost (ns ! k) = c" "c < dn_cost n" by blast
      then show ?thesis using True by (intro exI [of _ "Suc k"]) auto
    qed
    with le True show ?thesis by auto
  next
    case False
    have "pick_loop ns (Suc i) u_idx u_cost = (u', c)" using Cons.prems False by simp
    from Cons.IH [OF this] False show ?thesis by (fastforce simp: not_less)
  qed
qed simp

lemma pick_Some:
  assumes "pick nodes = (Some k, c)"
  shows "k < length nodes" "\<not> dn_visited (nodes ! k)" "dn_cost (nodes ! k) = c"
    "c < ROUTE_COST_UNKNOWN" "\<forall>n \<in> set nodes. \<not> dn_visited n \<longrightarrow> c \<le> dn_cost n"
  using pick_loop_spec [OF assms [unfolded pick_def]] by auto

lemma ROUTE_COST_UNKNOWN_max: "ROUTE_COST_UNKNOWN = - 1"
  by (simp add: ROUTE_COST_UNKNOWN_def)

lemma pick_None:
  assumes "pick nodes = (None, c)"
  shows "\<forall>n \<in> set nodes. \<not> dn_visited n \<longrightarrow> dn_cost n = ROUTE_COST_UNKNOWN"
proof -
  have "\<forall>n \<in> set nodes. \<not> dn_visited n \<longrightarrow> ROUTE_COST_UNKNOWN \<le> dn_cost n"
    using pick_loop_spec [OF assms [unfolded pick_def]] by auto
  moreover have "x \<le> ROUTE_COST_UNKNOWN" for x :: u16
    by (simp only: ROUTE_COST_UNKNOWN_max word_le_max)
  ultimately show ?thesis by (metis order_antisym)
qed

lemma visit_measure:
  assumes "pick nodes = (Some u, c)"
  shows "search_measure (visit u nodes) < search_measure nodes"
  using filter_length_update [of u nodes "\<lambda>n. \<not> dn_visited n" "(nodes ! u)\<lparr>dn_visited := True\<rparr>"]
    pick_Some(1,2) [OF assms]
  by (simp add: visit_def search_measure_def)

text \<open>
  The main loop. Each round settles one node and adds new ones only while the table has room, so
  it ends after at most as many rounds as the table has places.
\<close>

function settle_loop ::
  "(u32 \<Rightarrow> (u32 \<times> u16) list) \<Rightarrow> (u32 \<Rightarrow> bool) \<Rightarrow> u32 \<Rightarrow> u32 \<Rightarrow> dnode list \<Rightarrow> dnode list" where
  "settle_loop offer relays my_node destination nodes =
     (case pick nodes of
        (None, _) \<Rightarrow> nodes
      | (Some u, u_cost) \<Rightarrow>
          let n = dn_id (nodes ! u); nodes' = visit u nodes in
          if n = my_node then nodes'
          else if n \<noteq> destination \<and> \<not> relays n then settle_loop offer relays my_node destination nodes'
          else settle_loop offer relays my_node destination (relax_all n u_cost (offer n) nodes'))"
  by pat_completeness auto
termination
  by (relation "measure (\<lambda>(offer, relays, my_node, destination, nodes). search_measure nodes)")
    (auto dest: visit_measure [OF sym] intro: le_less_trans [OF relax_all_measure])

declare settle_loop.simps [simp del]

text \<open>The hops of the route found: following \<open>prev\<close>, at most as far as the table is long.\<close>

function hop_loop :: "dnode list \<Rightarrow> u32 \<Rightarrow> u32 \<Rightarrow> nat \<Rightarrow> nat" where
  "hop_loop nodes destination cur hops =
     (if cur \<noteq> destination \<and> cur \<noteq> 0 \<and> hops < MAX_GRAPH_NODES
      then hop_loop nodes destination (prev_of nodes cur) (hops + 1) else hops)"
  by pat_completeness auto
termination
  by (relation "measure (\<lambda>(nodes, destination, cur, hops). MAX_GRAPH_NODES - hops)") auto

declare hop_loop.simps [simp del]

definition search_start :: "u32 \<Rightarrow> dnode list" where
  "search_start destination = [(dnode_fresh destination)\<lparr>dn_cost := 0\<rparr>]"

definition filter_relays :: "routable_filter option \<Rightarrow> u32 \<Rightarrow> bool" where
  "filter_relays routable n \<longleftrightarrow> (case routable of None \<Rightarrow> True | Some flt \<Rightarrow> is_node_routable flt n)"

definition backward_search ::
  "edge_store \<Rightarrow> u32 \<Rightarrow> u32 \<Rightarrow> u32 \<Rightarrow> routable_filter option \<Rightarrow> bool \<Rightarrow> (u16 \<times> u32 \<times> nat) option" where
  "backward_search s my_node destination now_ms routable allow_unverified =
     (let nodes = settle_loop (offers s (map_option rf_capability routable) my_node now_ms allow_unverified)
            (filter_relays routable) my_node destination (search_start destination) in
      case find (\<lambda>x. dn_id x = my_node) nodes of
        None \<Rightarrow> None
      | Some me \<Rightarrow>
          if dn_cost me = ROUTE_COST_UNKNOWN \<or> dn_prev me = 0 then None
          else Some (dn_cost me, dn_prev me, hop_loop nodes destination (dn_prev me) 1))"

section \<open>Composing routes\<close>

definition egress_of :: "edge_store \<Rightarrow> u32 \<Rightarrow> u32 \<Rightarrow> u8" where
  "egress_of s my_node next_hop = (case edge_of s my_node next_hop of None \<Rightarrow> 0 | Some e \<Rightarrow> eg_heard_on e)"

definition try_compose_via_parent ::
  "edge_store \<Rightarrow> u32 \<Rightarrow> u32 \<Rightarrow> u16 \<Rightarrow> u32 \<Rightarrow> routable_filter option \<Rightarrow> bool \<Rightarrow> route \<Rightarrow> route option" where
  "try_compose_via_parent s my_node parent hop_cost now_ms routable verified result =
     (if find_node s parent = None then None
      else
        (case backward_search s my_node parent now_ms routable False of
           None \<Rightarrow> None
         | Some (cost_to_m, next_hop, hops) \<Rightarrow>
             if next_hop = 0 \<or> 0xFFF0 \<le> cost_to_m then None
             else Some (result\<lparr>rt_next_hop := next_hop, rt_cost_fixed := sat_add cost_to_m hop_cost,
               rt_hops := min (hops + 1) 255, rt_verified := verified, rt_mode := ListDownstream,
               rt_egress_radio := egress_of s my_node next_hop\<rparr>)))"

text \<open>
  The stages of \<open>calculate_route\<close> in the order the function tries them; each returns a finished
  route or nothing.
\<close>

definition route_unknown :: "u32 \<Rightarrow> u32 \<Rightarrow> route" where
  "route_unknown destination now_ms = \<lparr>rt_destination = destination, rt_next_hop = 0,
     rt_egress_radio = 0, rt_cost_fixed = ROUTE_COST_UNKNOWN, rt_timestamp_ms = now_ms, rt_hops = 0,
     rt_verified = False, rt_mode = Ball\<rparr>"

definition ball_route ::
  "edge_store \<Rightarrow> u32 \<Rightarrow> u32 \<Rightarrow> u32 \<Rightarrow> routable_filter option \<Rightarrow> bool \<Rightarrow> route option" where
  "ball_route s my_node destination now_ms routable allow_unverified =
     map_option (\<lambda>(cost, next_hop, hops).
       (route_unknown destination now_ms)\<lparr>rt_cost_fixed := cost, rt_next_hop := next_hop,
         rt_hops := hops, rt_verified := \<not> allow_unverified,
         rt_egress_radio := egress_of s my_node next_hop\<rparr>)
       (backward_search s my_node destination now_ms routable allow_unverified)"

definition listed_route ::
  "edge_store \<Rightarrow> u32 \<Rightarrow> u32 \<Rightarrow> u32 \<Rightarrow> routable_filter option \<Rightarrow> (u32 \<times> u16) option \<Rightarrow> route option" where
  "listed_route s my_node destination now_ms routable list_ds =
     (case list_ds of
        None \<Rightarrow> None
      | Some (m, hop_cost) \<Rightarrow>
          try_compose_via_parent s my_node m hop_cost now_ms routable True (route_unknown destination now_ms))"

definition hinted_route ::
  "edge_store \<Rightarrow> u32 \<Rightarrow> u32 \<Rightarrow> u32 \<Rightarrow> routable_filter option \<Rightarrow> route option" where
  "hinted_route s my_node destination now_ms routable =
     (let parent_hint = (case find_node s destination of None \<Rightarrow> 0 | Some n \<Rightarrow> ne_parent_hint n) in
      if parent_hint \<noteq> 0 \<and> parent_hint \<noteq> destination \<and> parent_hint \<noteq> my_node then
        (case measured_edge s parent_hint destination of
           None \<Rightarrow> None
         | Some e \<Rightarrow>
             try_compose_via_parent s my_node parent_hint (eg_etx_fixed e) now_ms routable
               (eg_hears_us e) (route_unknown destination now_ms))
      else None)"

definition chain_route ::
  "edge_store \<Rightarrow> downstream_table \<Rightarrow> u32 \<Rightarrow> u32 \<Rightarrow> u32 \<Rightarrow> routable_filter option \<Rightarrow> route option" where
  "chain_route s ds my_node destination now_ms routable =
     (let is_egress = (\<lambda>n. n \<noteq> 0 \<and> n \<noteq> my_node \<and> edge_of s my_node n \<noteq> None
            \<and> \<not> (case routable of None \<Rightarrow> False | Some f \<Rightarrow> List.member (rf_excluded f) n)) in
      case chain_egress_of ds destination now_ms (- 1) is_egress of
        None \<Rightarrow> None
      | Some chain \<Rightarrow>
          let cost_to_egress = (case edge_of s my_node (ce_node chain) of
                                  None \<Rightarrow> ROUTE_COST_UNKNOWN | Some e \<Rightarrow> eg_etx_fixed e)
          in if cost_to_egress < 0xFFF0 \<and> ce_cost_fixed chain < 0xFFF0
             then Some ((route_unknown destination now_ms)\<lparr>rt_next_hop := ce_node chain,
               rt_cost_fixed := sat_add cost_to_egress (ce_cost_fixed chain), rt_verified := False,
               rt_mode := OrphanGateway, rt_hops := ce_hops chain,
               rt_egress_radio := egress_of s my_node (ce_node chain)\<rparr>)
             else None)"

fun first_route :: "route option list \<Rightarrow> route \<Rightarrow> route" where
  "first_route [] r = r"
| "first_route (None # rs) r = first_route rs r"
| "first_route (Some x # rs) r = x"

definition calculate_route ::
  "edge_store \<Rightarrow> downstream_table \<Rightarrow> u32 \<Rightarrow> u32 \<Rightarrow> u32 \<Rightarrow> routable_filter option \<Rightarrow> route" where
  "calculate_route s ds my_node destination now_ms routable =
     (if my_node = 0 \<or> destination = 0 \<or> destination = my_node then route_unknown destination now_ms
      else
        let dest_in_ball = find_node s destination \<noteq> None;
            list_ds = list_downstream ds destination now_ms (- 1);
            ds_relay = get_relay ds destination now_ms (- 1);
            skip_dijkstra_to_dest =
              (case (case list_ds of Some (m, _) \<Rightarrow> Some m | None \<Rightarrow> ds_relay) of
                 None \<Rightarrow> False | Some m \<Rightarrow> find_node s m \<noteq> None)
        in first_route
             [if dest_in_ball \<or> \<not> skip_dijkstra_to_dest
              then ball_route s my_node destination now_ms routable False else None,
              listed_route s my_node destination now_ms routable list_ds,
              hinted_route s my_node destination now_ms routable,
              chain_route s ds my_node destination now_ms routable,
              ball_route s my_node destination now_ms routable True]
             (route_unknown destination now_ms))"

section \<open>Better placed neighbours\<close>

definition is_stock_for_connectivity :: "capability_cache \<Rightarrow> u32 \<Rightarrow> bool" where
  "is_stock_for_connectivity capability node \<longleftrightarrow>
     is_placeholder_node node \<or> cap_status capability node \<in> {CapLegacy, CapUnknown}"

definition verified_connectivity :: "edge_store \<Rightarrow> capability_cache \<Rightarrow> u32 \<Rightarrow> u32 \<Rightarrow> bool \<times> bool" where
  "verified_connectivity s capability transmitter receiver =
     (let tx_stock = is_stock_for_connectivity capability transmitter;
          rx_stock = is_stock_for_connectivity capability receiver in
      if tx_stock \<and> rx_stock then (False, True)
      else if \<not> tx_stock \<and> has_direct_reported_edge_to s transmitter receiver then (True, False)
      else if \<not> rx_stock \<and> has_direct_reported_edge_to s receiver transmitter then (True, False)
      else if tx_stock \<or> rx_stock then (False, True)
      else (False, False))"

fun better_loop ::
  "edge_store \<Rightarrow> capability_cache \<Rightarrow> routable_filter \<Rightarrow> u32 \<Rightarrow> u32 \<Rightarrow> u32 \<Rightarrow> u32 list \<Rightarrow> u32 \<Rightarrow> f32 \<Rightarrow> u32" where
  "better_loop s capability flt destination source_node heard_from [] best_neighbor best_cost = best_neighbor"
| "better_loop s capability flt destination source_node heard_from (nb # nbs) best_neighbor best_cost =
     (let skip = (nb = 0 \<or> nb = source_node \<or> nb = heard_from \<or> \<not> is_node_routable flt nb
            \<or> (heard_from \<noteq> 0 \<and>
               (case verified_connectivity s capability heard_from nb of
                  (verified, unknown) \<Rightarrow> \<not> verified \<or> unknown))
            \<or> \<not> can_deliver s (Some capability) nb destination)
      in case (if skip then None else edge_of s nb destination) of
           None \<Rightarrow> better_loop s capability flt destination source_node heard_from nbs best_neighbor best_cost
         | Some e \<Rightarrow>
             if f32_less (f32_add (edge_etx e) (Fin 1)) best_cost
             then better_loop s capability flt destination source_node heard_from nbs nb (edge_etx e)
             else better_loop s capability flt destination source_node heard_from nbs best_neighbor best_cost)"

definition find_better_positioned_neighbor ::
  "edge_store \<Rightarrow> capability_cache \<Rightarrow> u32 \<Rightarrow> u32 \<Rightarrow> u32 \<Rightarrow> u32 \<Rightarrow> u32 \<Rightarrow> f32 \<Rightarrow> u32" where
  "find_better_positioned_neighbor s capability my_node device_role destination source_node heard_from
       our_route_cost =
     (case find_node s my_node of
        None \<Rightarrow> 0
      | Some me \<Rightarrow>
          better_loop s capability
            \<lparr>rf_capability = capability, rf_my_node = my_node, rf_device_role = device_role, rf_excluded = []\<rparr>
            destination source_node heard_from (map eg_to (live_edges me)) 0 our_route_cost)"

end
