(* ===== verification/RouteSearch.thy ===== *)
theory RouteSearch
  imports Route
begin

text \<open>
  What the search of \<open>Route\<close> computes. A walk from this node to the destination is a sequence
  of offers; its cost is the capped sum the search itself forms. The table of the search is read
  as a map from identifiers to entries; the invariant says that every known entry hangs on a
  branch of settled entries down to the destination, that settled entries are the cheapest, and,
  while the table has room, that no offer of a settled entry is better than what the table holds.
\<close>

section \<open>Walks\<close>

inductive walk ::
  "(u32 \<Rightarrow> (u32 \<times> u16) list) \<Rightarrow> (u32 \<Rightarrow> bool) \<Rightarrow> u32 \<Rightarrow> u32 \<Rightarrow> u32 list \<Rightarrow> u16 \<Rightarrow> bool"
  for offer relays my_node destination where
  walk_dest: "walk offer relays my_node destination [destination] 0"
| walk_hop: "walk offer relays my_node destination (n # p) c \<Longrightarrow> n \<noteq> my_node \<Longrightarrow>
    n = destination \<or> relays n \<Longrightarrow> (m, w) \<in> set (offer n) \<Longrightarrow>
    walk offer relays my_node destination (m # n # p) (route_add c w)"

inductive_cases walk_NilE: "walk offer relays my_node destination [] c"

lemma unat_route_add: "unat (route_add c w) = min (unat c + unat w) 65534"
  by (auto simp: route_add_def min_def word_le_nat_alt rust_arith)

lemma route_add_mono: "c \<le> d \<Longrightarrow> route_add c w \<le> route_add d w"
  by (simp add: word_le_nat_alt unat_route_add)

lemma unknown_iff: "c = ROUTE_COST_UNKNOWN \<longleftrightarrow> unat c = 65535"
  by (simp add: ROUTE_COST_UNKNOWN_def word_unat_eq_iff)

lemma unat_unknown: "unat ROUTE_COST_UNKNOWN = 65535"
  by (simp add: ROUTE_COST_UNKNOWN_def)

lemma route_add_ge:
  assumes "c \<noteq> ROUTE_COST_UNKNOWN"
  shows "c \<le> route_add c w"
proof -
  have "c \<le> ROUTE_COST_UNKNOWN" by (simp only: ROUTE_COST_UNKNOWN_max word_le_max)
  then have "unat c \<le> 65534"
    using assms by (simp add: unknown_iff word_le_nat_alt unat_unknown)
  then show ?thesis by (simp add: word_le_nat_alt unat_route_add)
qed

lemma route_add_known: "route_add c w \<noteq> ROUTE_COST_UNKNOWN" "route_add c w < ROUTE_COST_UNKNOWN"
  by (simp_all add: unknown_iff unat_route_add word_less_nat_alt unat_unknown)

lemma walk_known: "walk offer relays my_node destination p c \<Longrightarrow> c \<noteq> ROUTE_COST_UNKNOWN"
  by (induction rule: walk.induct) (simp_all add: unat_route_add unknown_iff)

section \<open>The table as a map\<close>

definition tab :: "dnode list \<Rightarrow> u32 \<Rightarrow> dnode option" where
  "tab T i = find (\<lambda>n. dn_id n = i) T"

definition table_ok :: "dnode list \<Rightarrow> bool" where
  "table_ok T \<longleftrightarrow> distinct (map dn_id T) \<and> length T \<le> MAX_GRAPH_NODES"

interpretation search_table: keyed_table table_ok id dn_id
  by unfold_locales (simp add: table_ok_def)

lemma tab_Some_iff: "table_ok T \<Longrightarrow> tab T i = Some e \<longleftrightarrow> e \<in> set T \<and> dn_id e = i"
  using search_table.lookup_Some_iff [of T i e] by (simp add: tab_def)

lemma tab_None_iff: "tab T i = None \<longleftrightarrow> i \<notin> dn_id ` set T"
  using search_table.lookup_None_iff [of i T] by (simp add: tab_def)

lemma tab_id: "tab T i = Some e \<Longrightarrow> dn_id e = i"
  by (auto simp: tab_def find_Some_iff)

lemma tab_nth: "table_ok T \<Longrightarrow> k < length T \<Longrightarrow> tab T (dn_id (T ! k)) = Some (T ! k)"
  by (simp add: tab_Some_iff)

lemma table_ok_update: "table_ok T \<Longrightarrow> k < length T \<Longrightarrow> dn_id e = dn_id (T ! k) \<Longrightarrow> table_ok (T[k := e])"
  by (simp add: table_ok_def map_update) (metis length_map list_update_id nth_map)

lemma tab_update:
  assumes "table_ok T" "k < length T" "dn_id e = dn_id (T ! k)"
  shows "tab (T[k := e]) = (tab T)(dn_id (T ! k) \<mapsto> e)"
  using search_table.lookup_update [OF assms(1) table_ok_update [OF assms], of k e] assms(2,3)
  by (auto simp: tab_def fun_eq_iff)

lemma table_ok_snoc:
  "table_ok T \<Longrightarrow> tab T (dn_id e) = None \<Longrightarrow> length T < MAX_GRAPH_NODES \<Longrightarrow> table_ok (T @ [e])"
  by (auto simp: table_ok_def tab_None_iff)

lemma tab_snoc: "tab T (dn_id e) = None \<Longrightarrow> tab (T @ [e]) = (tab T)(dn_id e \<mapsto> e)"
  using search_table.lookup_snoc [of "T @ [e]" T e]
  by (auto simp: tab_None_iff fun_eq_iff) (simp_all add: tab_def)

lemma position_tab: "position (\<lambda>n. dn_id n = i) T = Some k \<Longrightarrow> tab T i = Some (T ! k)"
  by (simp add: tab_def find_position)

lemma tab_visit:
  assumes "table_ok T" "k < length T"
  shows "table_ok (visit k T)"
    "tab (visit k T) = (tab T)(dn_id (T ! k) \<mapsto> (T ! k)\<lparr>dn_visited := True\<rparr>)"
  using table_ok_update [OF assms] tab_update [OF assms] by (simp_all add: visit_def)

text \<open>The entry a relaxation works on.\<close>

definition entry_or_fresh :: "(u32 \<Rightarrow> dnode option) \<Rightarrow> u32 \<Rightarrow> dnode" where
  "entry_or_fresh M m = (case M m of None \<Rightarrow> dnode_fresh m | Some e \<Rightarrow> e)"

definition relaxed :: "u32 \<Rightarrow> u32 \<Rightarrow> u16 \<Rightarrow> (u32 \<Rightarrow> dnode option) \<Rightarrow> u32 \<Rightarrow> dnode option" where
  "relaxed m via new_cost M =
     (let e = entry_or_fresh M m in
      if \<not> dn_visited e \<and> new_cost < dn_cost e
      then M(m \<mapsto> e\<lparr>dn_cost := new_cost, dn_prev := via\<rparr>) else M)"

lemma tab_relax:
  assumes ok: "table_ok T"
  shows "table_ok (relax m via c w T)"
    and "tab (relax m via c w T) = (if tab T m = None \<and> length T = MAX_GRAPH_NODES then tab T
      else relaxed m via (route_add c w) (tab T))"
proof -
  let ?R = "relax m via c w T"
  have "table_ok ?R \<and> tab ?R = (if tab T m = None \<and> length T = MAX_GRAPH_NODES then tab T
      else relaxed m via (route_add c w) (tab T))"
  proof (cases "position (\<lambda>n. dn_id n = m) T")
    case (Some k)
    then have k: "k < length T" "dn_id (T ! k) = m" "tab T m = Some (T ! k)"
      by (auto dest: position_SomeD position_tab)
    let ?e = "(T ! k)\<lparr>dn_cost := route_add c w, dn_prev := via\<rparr>"
    have f: "find_or_add_node m T = (T, Some k)" by (simp add: find_or_add_node_def Some)
    show ?thesis
      using table_ok_update [OF ok k(1), of ?e] tab_update [OF ok k(1), of ?e] k ok
      by (simp add: relax_def f Let_def relaxed_def entry_or_fresh_def)
  next
    case None
    then have t: "tab T m = None" by (simp add: tab_def find_position)
    show ?thesis
    proof (cases "length T = MAX_GRAPH_NODES")
      case True
      then show ?thesis using None t ok by (simp add: relax_def find_or_add_node_def)
    next
      case False
      then have room: "length T < MAX_GRAPH_NODES" using ok by (simp add: table_ok_def)
      let ?f = "dnode_fresh m"
      have f: "find_or_add_node m T = (T @ [?f], Some (length T))"
        using None room by (simp add: find_or_add_node_def)
      have d: "dn_id ?f = m" "\<not> dn_visited ?f" "dn_cost ?f = ROUTE_COST_UNKNOWN"
        by (simp_all add: dnode_fresh_def)
      have ok': "table_ok (T @ [?f])" "tab (T @ [?f]) = (tab T)(m \<mapsto> ?f)"
        using table_ok_snoc [OF ok _ room, of ?f] tab_snoc [of T ?f] t d by simp_all
      let ?e = "?f\<lparr>dn_cost := route_add c w, dn_prev := via\<rparr>"
      have R: "?R = (T @ [?f])[length T := ?e]"
        using d route_add_known(2) by (simp add: relax_def f Let_def)
      have k: "length T < length (T @ [?f])" "dn_id ?e = dn_id ((T @ [?f]) ! length T)" by simp_all
      show ?thesis
        using table_ok_update [OF ok'(1) k] tab_update [OF ok'(1) k] t d False route_add_known(2)
        unfolding R by (simp add: ok'(2) relaxed_def entry_or_fresh_def)
    qed
  qed
  then show "table_ok ?R" and "tab ?R = (if tab T m = None \<and> length T = MAX_GRAPH_NODES then tab T
      else relaxed m via (route_add c w) (tab T))" by simp_all
qed

section \<open>Branches of the search tree\<close>

text \<open>
  A branch: identifiers linked by \<open>prev\<close> from an entry through settled, expanded entries down to
  the destination, each cost the capped sum over the offer taken.
\<close>

inductive branch ::
  "(u32 \<Rightarrow> (u32 \<times> u16) list) \<Rightarrow> (u32 \<Rightarrow> bool) \<Rightarrow> u32 \<Rightarrow> u32 \<Rightarrow> (u32 \<Rightarrow> dnode option) \<Rightarrow> u32 list \<Rightarrow> bool"
  for offer relays my_node destination M where
  branch_dest: "branch offer relays my_node destination M [destination]"
| branch_hop: "branch offer relays my_node destination M (n # p) \<Longrightarrow> M n = Some v \<Longrightarrow> dn_visited v \<Longrightarrow>
    n \<noteq> my_node \<Longrightarrow> n = destination \<or> relays n \<Longrightarrow> M m = Some e \<Longrightarrow> m \<noteq> destination \<Longrightarrow>
    dn_prev e = n \<Longrightarrow> (m, w) \<in> set (offer n) \<Longrightarrow> dn_cost e = route_add (dn_cost v) w \<Longrightarrow>
    branch offer relays my_node destination M (m # n # p)"

inductive_cases branch_ConsE: "branch offer relays my_node destination M (m # p)"

definition search_inv ::
  "(u32 \<Rightarrow> (u32 \<times> u16) list) \<Rightarrow> (u32 \<Rightarrow> bool) \<Rightarrow> u32 \<Rightarrow> u32 \<Rightarrow> (u32 \<Rightarrow> dnode option) \<Rightarrow> bool" where
  "search_inv offer relays my_node destination M \<longleftrightarrow>
     (\<exists>e. M destination = Some e \<and> dn_cost e = 0) \<and>
     (\<forall>i e. M i = Some e \<longrightarrow> dn_cost e \<noteq> ROUTE_COST_UNKNOWN \<longrightarrow>
        (\<exists>p. branch offer relays my_node destination M (i # p))) \<and>
     (\<forall>i e. M i = Some e \<longrightarrow> dn_visited e \<longrightarrow> dn_cost e \<noteq> ROUTE_COST_UNKNOWN) \<and>
     (\<forall>i v j u. M i = Some v \<longrightarrow> dn_visited v \<longrightarrow> M j = Some u \<longrightarrow> \<not> dn_visited u \<longrightarrow> dn_cost v \<le> dn_cost u)"

text \<open>No offer of an expanded entry beats the table.\<close>

definition search_closed ::
  "(u32 \<Rightarrow> (u32 \<times> u16) list) \<Rightarrow> (u32 \<Rightarrow> bool) \<Rightarrow> u32 \<Rightarrow> u32 \<Rightarrow> (u32 \<Rightarrow> dnode option) \<Rightarrow> u32 \<Rightarrow> bool" where
  "search_closed offer relays my_node destination M i \<longleftrightarrow>
     (\<forall>v m w. M i = Some v \<longrightarrow> dn_visited v \<longrightarrow> i \<noteq> my_node \<longrightarrow> (i = destination \<or> relays i) \<longrightarrow>
        (m, w) \<in> set (offer i) \<longrightarrow> (\<exists>e. M m = Some e \<and> dn_cost e \<le> route_add (dn_cost v) w))"

definition settled_below :: "(u32 \<Rightarrow> dnode option) \<Rightarrow> u16 \<Rightarrow> bool" where
  "settled_below M c \<longleftrightarrow> (\<forall>j x. M j = Some x \<longrightarrow> dn_visited x \<longrightarrow> dn_cost x \<le> c)"

locale search_problem =
  fixes offer :: "u32 \<Rightarrow> (u32 \<times> u16) list" and relays :: "u32 \<Rightarrow> bool"
    and my_node :: u32 and destination :: u32
begin

abbreviation "br \<equiv> branch offer relays my_node destination"
abbreviation "wk \<equiv> walk offer relays my_node destination"
abbreviation "sinv \<equiv> search_inv offer relays my_node destination"
abbreviation "closed_at \<equiv> search_closed offer relays my_node destination"

lemma branch_walk:
  assumes "br M (m # p)" "M m = Some e" "M destination = Some d" "dn_cost d = 0"
  shows "wk (m # p) (dn_cost e)"
  using assms
proof (induction "m # p" arbitrary: m p e rule: branch.induct)
  case branch_dest
  then show ?case by (simp add: walk_dest)
next
  case (branch_hop n p v m e' w)
  from branch_hop.hyps(2) [OF branch_hop.hyps(3) branch_hop.prems(2,3)]
  have "wk (n # p) (dn_cost v)" .
  from walk_hop [OF this branch_hop.hyps(5,6) branch_hop.hyps(10)] branch_hop
  show ?case by simp
qed

lemma branch_functional: "br M (m # p) \<Longrightarrow> br M (m # q) \<Longrightarrow> p = q"
proof (induction "m # p" arbitrary: m p q rule: branch.induct)
  case branch_dest
  from branch_dest show ?case by (rule branch_ConsE) auto
next
  case (branch_hop n p v m e w)
  from branch_hop.prems obtain q' where "q = n # q'" "br M (n # q')"
    using branch_hop.hyps by (cases rule: branch.cases) auto
  with branch_hop.hyps(2) [of q'] show ?case by simp
qed

lemma branch_suffix: "br M (xs @ m # ys) \<Longrightarrow> br M (m # ys)"
proof (induction xs)
  case (Cons x xs)
  have "br M (xs @ m # ys)"
    using Cons.prems by (cases rule: branch.cases) (auto simp: Cons_eq_append_conv)
  then show ?case by (rule Cons.IH)
qed simp

lemma branch_distinct: "br M p \<Longrightarrow> distinct p"
proof (induction p)
  case (Cons m p)
  have "m \<notin> set p"
  proof
    assume "m \<in> set p"
    then obtain xs ys where p: "p = xs @ m # ys" by (auto dest: split_list)
    have "br M (m # ys)" using branch_suffix [of M "m # xs" m ys] Cons.prems p by simp
    from branch_functional [OF Cons.prems this] p show False by simp
  qed
  moreover have "distinct p"
  proof (cases p)
    case (Cons n q)
    then have "br M p" using branch_suffix [of M "[m]" n q] \<open>br M (m # p)\<close> by simp
    then show ?thesis by (rule Cons.IH)
  qed simp
  ultimately show ?case by simp
qed simp

lemma branch_dom: "br M p \<Longrightarrow> M destination \<noteq> None \<Longrightarrow> set p \<subseteq> dom M"
  by (induction rule: branch.induct) auto

text \<open>Changes of the table that keep a branch: settled entries stay as they are.\<close>

lemma branch_keep:
  assumes "br M (m # p)" "M' m = M m"
    "\<And>n v. M n = Some v \<Longrightarrow> dn_visited v \<Longrightarrow> M' n = Some v"
  shows "br M' (m # p)"
  using assms
proof (induction "m # p" arbitrary: m p rule: branch.induct)
  case branch_dest
  show ?case by (rule branch.branch_dest)
next
  case (branch_hop n p v m e w)
  have n: "M' n = Some v" using branch_hop.prems(2) branch_hop.hyps(3,4) by blast
  then have "br M' (n # p)" using branch_hop.hyps(2,3) branch_hop.prems(2) by simp
  from branch.branch_hop [OF this n branch_hop.hyps(4-6) _ branch_hop.hyps(8-11)]
  show ?case using branch_hop.hyps(7) branch_hop.prems(1) by simp
qed

lemma branch_visit:
  assumes "br M p" "M k = Some u" "M' = M(k \<mapsto> u\<lparr>dn_visited := True\<rparr>)"
  shows "br M' p"
  using assms(1)
proof (induction rule: branch.induct)
  case branch_dest
  show ?case by (rule branch.branch_dest)
next
  case (branch_hop n p v m e w)
  have "\<exists>v'. M' n = Some v' \<and> dn_visited v' \<and> dn_cost v' = dn_cost v"
    "\<exists>e'. M' m = Some e' \<and> dn_prev e' = dn_prev e \<and> dn_cost e' = dn_cost e"
    using branch_hop.hyps assms(2,3) by auto
  then obtain v' e' where "M' n = Some v'" "dn_visited v'" "dn_cost v' = dn_cost v"
    "M' m = Some e'" "dn_prev e' = dn_prev e" "dn_cost e' = dn_cost e" by blast
  then show ?case
    using branch.branch_hop [OF branch_hop.IH, of v' m e' w] branch_hop.hyps by simp
qed

lemma visit_inv:
  assumes inv: "sinv M" and u: "M k = Some u" "\<not> dn_visited u" "dn_cost u \<noteq> ROUTE_COST_UNKNOWN"
    and least: "\<And>j x. M j = Some x \<Longrightarrow> \<not> dn_visited x \<Longrightarrow> dn_cost u \<le> dn_cost x"
    and M': "M' = M(k \<mapsto> u\<lparr>dn_visited := True\<rparr>)"
  shows "sinv M'" "settled_below M' (dn_cost u)"
proof -
  have top: "dn_cost x \<le> dn_cost u" if "M j = Some x" "dn_visited x" for j x
    using inv that u by (auto simp: search_inv_def)
  then show "settled_below M' (dn_cost u)"
    using u(1) by (auto simp: settled_below_def M' split: if_splits)
  have "\<exists>p. br M' (i # p)" if "M' i = Some e" "dn_cost e \<noteq> ROUTE_COST_UNKNOWN" for i e
  proof -
    have "\<exists>e0. M i = Some e0 \<and> dn_cost e0 \<noteq> ROUTE_COST_UNKNOWN"
      using that u by (auto simp: M' split: if_splits)
    then obtain p where "br M (i # p)" using inv unfolding search_inv_def by blast
    from branch_visit [OF this u(1) M'] show ?thesis by blast
  qed
  moreover have "\<exists>e. M' destination = Some e \<and> dn_cost e = 0"
    using inv u(1) by (auto simp: search_inv_def M')
  moreover have "dn_cost e \<noteq> ROUTE_COST_UNKNOWN" if "M' i = Some e" "dn_visited e" for i e
    using that inv u by (auto simp: search_inv_def M' split: if_splits)
  moreover have "dn_cost v \<le> dn_cost x" if "M' i = Some v" "dn_visited v" "M' j = Some x" "\<not> dn_visited x"
    for i v j x
    using that inv u least [of j x] by (auto simp: search_inv_def M' split: if_splits)
  ultimately show "sinv M'" unfolding search_inv_def by blast
qed

text \<open>The entries a relaxation from a settled entry leaves alone, and what it improves.\<close>

definition improves :: "(u32 \<Rightarrow> dnode option) \<Rightarrow> (u32 \<Rightarrow> dnode option) \<Rightarrow> bool" where
  "improves M M' \<longleftrightarrow>
     (\<forall>i x. dn_visited x \<longrightarrow> (M i = Some x \<longleftrightarrow> M' i = Some x)) \<and>
     (\<forall>i x. M i = Some x \<longrightarrow> (\<exists>y. M' i = Some y \<and> dn_cost y \<le> dn_cost x))"

lemma improves_refl: "improves M M"
  by (auto simp: improves_def)

lemma improves_trans:
  assumes "improves M M'" "improves M' M''"
  shows "improves M M''"
proof -
  have "\<exists>y. M'' i = Some y \<and> dn_cost y \<le> dn_cost x" if "M i = Some x" for i x
    using assms that unfolding improves_def by (meson order_trans)
  then show ?thesis using assms by (simp add: improves_def)
qed

lemma relaxed_improves: "improves M (relaxed m via new_cost M)"
  by (auto simp: improves_def relaxed_def entry_or_fresh_def Let_def dnode_fresh_def split: option.splits)

lemma relaxed_bound:
  assumes "new_cost < ROUTE_COST_UNKNOWN" "\<And>e. M m = Some e \<Longrightarrow> dn_visited e \<Longrightarrow> dn_cost e \<le> new_cost"
  shows "\<exists>e. relaxed m via new_cost M m = Some e \<and> dn_cost e \<le> new_cost"
  using assms
  by (cases "M m") (auto simp: relaxed_def entry_or_fresh_def dnode_fresh_def Let_def not_less)

lemma improves_closed: "improves M M' \<Longrightarrow> closed_at M i \<Longrightarrow> closed_at M' i"
  unfolding improves_def search_closed_def by (meson order_trans)

lemma relaxed_inv:
  assumes inv: "sinv M" and n: "M n = Some v" "dn_visited v" "n \<noteq> my_node" "n = destination \<or> relays n"
    and top: "settled_below M (dn_cost v)"
    and off: "(m, w) \<in> set (offer n)"
  defines "M' \<equiv> relaxed m n (route_add (dn_cost v) w) M"
  shows "sinv M'"
proof (cases "\<not> dn_visited (entry_or_fresh M m) \<and> route_add (dn_cost v) w < dn_cost (entry_or_fresh M m)")
  case False
  then have "M' = M" by (simp only: M'_def relaxed_def Let_def if_False)
  then show ?thesis using inv by simp
next
  case True
  define e where "e = (entry_or_fresh M m)\<lparr>dn_cost := route_add (dn_cost v) w, dn_prev := n\<rparr>"
  have M': "M' = M(m \<mapsto> e)" using True by (simp add: M'_def relaxed_def Let_def e_def)
  have e: "\<not> dn_visited e" "dn_cost e = route_add (dn_cost v) w" "dn_prev e = n"
    using True by (simp_all add: e_def)
  have old: "\<not> dn_visited x" if "M m = Some x" for x using True that by (simp add: entry_or_fresh_def)
  then have nm: "n \<noteq> m" using n by auto
  have dm: "m \<noteq> destination"
  proof
    assume "m = destination"
    then have "dn_cost (entry_or_fresh M m) = 0" using inv by (auto simp: search_inv_def entry_or_fresh_def)
    then show False using True by simp
  qed
  have keep: "br M (i # p) \<Longrightarrow> i \<noteq> m \<Longrightarrow> br M' (i # p)" for i p
    using old by (auto elim!: branch_keep simp: M')
  have "\<exists>p. br M (n # p)" using inv n(1,2) unfolding search_inv_def by blast
  then obtain p where "br M' (n # p)" using keep nm by blast
  then have bm: "br M' (m # n # p)"
    by (rule branch_hop [where v = v and e = e and w = w]) (use n nm dm off e in \<open>auto simp: M'\<close>)
  have "\<exists>p. br M' (i # p)" if "M' i = Some x" "dn_cost x \<noteq> ROUTE_COST_UNKNOWN" for i x
  proof (cases "i = m")
    case True
    then show ?thesis using bm by blast
  next
    case False
    then have "M i = Some x" using that(1) by (simp add: M')
    then show ?thesis using inv that(2) keep False unfolding search_inv_def by blast
  qed
  moreover have "\<exists>e. M' destination = Some e \<and> dn_cost e = 0"
    using inv dm by (simp add: search_inv_def M')
  moreover have "dn_cost x \<noteq> ROUTE_COST_UNKNOWN" if "M' i = Some x" "dn_visited x" for i x
    using that inv e by (auto simp: search_inv_def M' split: if_splits)
  moreover have "dn_cost y \<le> dn_cost x" if "M' i = Some y" "dn_visited y" "M' j = Some x" "\<not> dn_visited x"
    for i y j x
  proof -
    have y: "M i = Some y" using that(1,2) e(1) by (auto simp: M' split: if_splits)
    have "dn_cost v \<noteq> ROUTE_COST_UNKNOWN" using inv n(1,2) unfolding search_inv_def by blast
    then have "dn_cost y \<le> route_add (dn_cost v) w"
      using top y that(2) route_add_ge order_trans unfolding settled_below_def by blast
    then show ?thesis using that(3,4) y that(2) inv e(2) by (auto simp: search_inv_def M' split: if_splits)
  qed
  ultimately show ?thesis unfolding search_inv_def by blast
qed

text \<open>All offers of one settled entry.\<close>

lemma relax_all_inv:
  assumes "table_ok T" "sinv (tab T)" and n: "tab T n = Some v" "dn_visited v" "n \<noteq> my_node"
      "n = destination \<or> relays n"
    and top: "settled_below (tab T) (dn_cost v)"
    and "set ws \<subseteq> set (offer n)"
  shows "table_ok (relax_all n (dn_cost v) ws T) \<and> sinv (tab (relax_all n (dn_cost v) ws T)) \<and>
    improves (tab T) (tab (relax_all n (dn_cost v) ws T)) \<and>
    dom (tab (relax_all n (dn_cost v) ws T)) \<subseteq> dom (tab T) \<union> fst ` set ws"
  using assms
proof (induction ws arbitrary: T)
  case Nil
  then show ?case by (simp add: relax_all_def improves_refl)
next
  case (Cons mw ws)
  obtain m w where mw: "mw = (m, w)" by (cases mw)
  let ?T = "relax m n (dn_cost v) w T"
  note step = tab_relax [OF Cons.prems(1), of m n "dn_cost v" w]
  have cases: "tab ?T = tab T \<or> tab ?T = relaxed m n (route_add (dn_cost v) w) (tab T)"
    using step(2) by (simp split: if_splits)
  have imp: "improves (tab T) (tab ?T)"
    using cases relaxed_improves improves_refl by metis
  have inv: "sinv (tab ?T)"
    using cases relaxed_inv [OF Cons.prems(2-7), where m = m and w = w] Cons.prems(2,8) mw by auto
  have dom: "dom (tab ?T) \<subseteq> insert m (dom (tab T))"
    using cases by (auto simp: relaxed_def Let_def split: if_splits)
  have n': "tab ?T n = Some v" using imp Cons.prems(3,4) by (auto simp: improves_def)
  have top': "settled_below (tab ?T) (dn_cost v)"
    using imp Cons.prems(7) by (auto simp: improves_def settled_below_def)
  have ws: "set ws \<subseteq> set (offer n)" using Cons.prems(8) by simp
  have eq: "relax_all n (dn_cost v) (mw # ws) T = relax_all n (dn_cost v) ws ?T"
    by (simp add: relax_all_def mw)
  have fst: "fst ` set (mw # ws) = insert m (fst ` set ws)" by (simp add: mw)
  note ih = Cons.IH [OF step(1) inv n' Cons.prems(4-6) top' ws]
  have "dom (tab (relax_all n (dn_cost v) ws ?T)) \<subseteq> dom (tab T) \<union> fst ` set (mw # ws)"
    unfolding fst using ih dom by blast
  then show ?case unfolding eq using ih imp improves_trans by blast
qed

lemma table_room:
  assumes "table_ok T" "dom (tab T) \<subseteq> V" "finite V" "card V \<le> MAX_GRAPH_NODES" "m \<in> V" "tab T m = None"
  shows "length T \<noteq> MAX_GRAPH_NODES"
proof -
  have "i \<in> dn_id ` set T \<longleftrightarrow> i \<in> dom (tab T)" for i using tab_None_iff [of T i] by (simp add: domIff)
  then have "dn_id ` set T \<subseteq> V - {m}" using assms(2,6) by blast
  then have "card (dn_id ` set T) < card V"
    using card_mono [of "V - {m}" "dn_id ` set T"] card_Diff1_less [OF assms(3,5)] assms(3) by simp
  moreover have "length T = card (dn_id ` set T)"
    using assms(1) distinct_card [of "map dn_id T"] by (simp add: table_ok_def)
  ultimately show ?thesis using assms(4) by simp
qed

lemma relax_all_closed:
  assumes "table_ok T" "sinv (tab T)" and n: "tab T n = Some v" "dn_visited v" "n \<noteq> my_node"
      "n = destination \<or> relays n"
    and top: "settled_below (tab T) (dn_cost v)"
    and "set ws \<subseteq> set (offer n)"
    and V: "finite V" "card V \<le> MAX_GRAPH_NODES" "dom (tab T) \<subseteq> V" "fst ` set ws \<subseteq> V"
  shows "\<forall>(m, w) \<in> set ws. \<exists>e. tab (relax_all n (dn_cost v) ws T) m = Some e \<and>
    dn_cost e \<le> route_add (dn_cost v) w"
  using assms
proof (induction ws arbitrary: T)
  case (Cons mw ws)
  obtain m w where mw: "mw = (m, w)" by (cases mw)
  let ?T = "relax m n (dn_cost v) w T" and ?c = "route_add (dn_cost v) w"
  note step = tab_relax [OF Cons.prems(1), of m n "dn_cost v" w]
  have "\<not> (tab T m = None \<and> length T = MAX_GRAPH_NODES)"
    using table_room [OF Cons.prems(1,11,9,10)] Cons.prems(12) mw by auto
  then have eqT: "tab ?T = relaxed m n ?c (tab T)" using step(2) by (simp only: if_False)
  have imp: "improves (tab T) (tab ?T)" unfolding eqT by (rule relaxed_improves)
  have inv: "sinv (tab ?T)"
    unfolding eqT using relaxed_inv [OF Cons.prems(2-7), where m = m and w = w] Cons.prems(8) mw by auto
  have dom: "dom (tab ?T) \<subseteq> V"
    unfolding eqT using Cons.prems(11,12) mw by (auto simp: relaxed_def Let_def split: if_splits)
  have n': "tab ?T n = Some v" using imp Cons.prems(3,4) by (auto simp: improves_def)
  have top': "settled_below (tab ?T) (dn_cost v)"
    using imp Cons.prems(7) by (auto simp: improves_def settled_below_def)
  have ws: "set ws \<subseteq> set (offer n)" "fst ` set ws \<subseteq> V" using Cons.prems(8,12) by auto
  have eq: "relax_all n (dn_cost v) (mw # ws) T = relax_all n (dn_cost v) ws ?T"
    by (simp add: relax_all_def mw)
  have vk: "dn_cost v \<noteq> ROUTE_COST_UNKNOWN" using Cons.prems(2-4) unfolding search_inv_def by blast
  have "\<exists>e. tab ?T m = Some e \<and> dn_cost e \<le> ?c"
    unfolding eqT
    by (rule relaxed_bound [OF route_add_known(2)])
      (use Cons.prems(7) route_add_ge [OF vk, of w] in \<open>auto simp: settled_below_def intro: order_trans\<close>)
  then obtain e where e: "tab ?T m = Some e" "dn_cost e \<le> ?c" by blast
  have "improves (tab ?T) (tab (relax_all n (dn_cost v) ws ?T))"
    using relax_all_inv [OF step(1) inv n' Cons.prems(4-6) top' ws(1)] by blast
  then have "\<exists>e. tab (relax_all n (dn_cost v) ws ?T) m = Some e \<and> dn_cost e \<le> ?c"
    using e unfolding improves_def by (meson order_trans)
  with Cons.IH [OF step(1) inv n' Cons.prems(4-6) top' ws(1) V(1,2) dom ws(2)]
  show ?case unfolding eq by (simp add: mw)
qed simp

section \<open>The main loop\<close>

definition finished :: "(u32 \<Rightarrow> dnode option) \<Rightarrow> bool" where
  "finished M \<longleftrightarrow> (\<exists>e. M my_node = Some e \<and> dn_visited e) \<or>
     (\<forall>i e. M i = Some e \<longrightarrow> \<not> dn_visited e \<longrightarrow> dn_cost e = ROUTE_COST_UNKNOWN)"

definition in_room :: "u32 set \<Rightarrow> bool" where
  "in_room V \<longleftrightarrow> finite V \<and> card V \<le> MAX_GRAPH_NODES \<and> (\<forall>n \<in> V. fst ` set (offer n) \<subseteq> V)"

lemma closed_visit:
  assumes "closed_at M i" "M k = Some u" "i \<noteq> k"
  shows "closed_at (M(k \<mapsto> u\<lparr>dn_visited := True\<rparr>)) i"
  unfolding search_closed_def
proof (intro allI impI)
  fix v m w
  assume v: "(M(k \<mapsto> u\<lparr>dn_visited := True\<rparr>)) i = Some v" "dn_visited v" "i \<noteq> my_node"
    "i = destination \<or> relays i" "(m, w) \<in> set (offer i)"
  then obtain e where "M m = Some e" "dn_cost e \<le> route_add (dn_cost v) w"
    using assms(1,3) unfolding search_closed_def by auto
  then show "\<exists>e. (M(k \<mapsto> u\<lparr>dn_visited := True\<rparr>)) m = Some e \<and> dn_cost e \<le> route_add (dn_cost v) w"
    using assms(2) by (cases "m = k") auto
qed

text \<open>One round: the entry picked is settled, and what the search goes on with.\<close>

lemma round_inv:
  assumes "table_ok T" "sinv (tab T)" "pick T = (Some k, c)"
  defines "n \<equiv> dn_id (T ! k)"
  shows "table_ok (visit k T)" "sinv (tab (visit k T))" "settled_below (tab (visit k T)) c"
    "\<exists>v. tab (visit k T) n = Some v \<and> dn_visited v \<and> dn_cost v = c"
    "tab (visit k T) = (tab T)(n \<mapsto> (T ! k)\<lparr>dn_visited := True\<rparr>)" "tab T n = Some (T ! k)"
proof -
  note pk = pick_Some [OF assms(3)]
  show ok: "table_ok (visit k T)"
    and M: "tab (visit k T) = (tab T)(n \<mapsto> (T ! k)\<lparr>dn_visited := True\<rparr>)"
    using tab_visit [OF assms(1) pk(1)] by (simp_all add: n_def)
  show tk: "tab T n = Some (T ! k)" unfolding n_def by (rule tab_nth [OF assms(1) pk(1)])
  have known: "dn_cost (T ! k) \<noteq> ROUTE_COST_UNKNOWN" using pk(3,4) by simp
  have least: "dn_cost (T ! k) \<le> dn_cost x" if "tab T j = Some x" "\<not> dn_visited x" for j x
    using that pk(3,5) tab_Some_iff [OF assms(1)] by auto
  from visit_inv [OF assms(2) tk pk(2) known least M]
  show "sinv (tab (visit k T))" "settled_below (tab (visit k T)) c" by (simp_all add: pk(3))
  show "\<exists>v. tab (visit k T) n = Some v \<and> dn_visited v \<and> dn_cost v = c" by (simp add: M pk(3))
qed

lemma settle_loop_inv:
  assumes "table_ok T" "sinv (tab T)"
  defines "R \<equiv> settle_loop offer relays my_node destination T"
  shows "table_ok R \<and> sinv (tab R) \<and> finished (tab R) \<and>
    (in_room V \<longrightarrow> dom (tab T) \<subseteq> V \<longrightarrow> (\<forall>i. closed_at (tab T) i) \<longrightarrow> (\<forall>i. closed_at (tab R) i))"
  using assms(1,2) unfolding R_def
proof (induction "search_measure T" arbitrary: T rule: less_induct)
  case less
  let ?loop = "settle_loop offer relays my_node destination"
  obtain u c where p: "pick T = (u, c)" by (cases "pick T")
  show ?case
  proof (cases u)
    case None
    have "?loop T = T" using p None by (subst settle_loop.simps) simp
    moreover have "finished (tab T)"
      using pick_None [OF p [unfolded None]] tab_Some_iff [OF less.prems(1)] by (auto simp: finished_def)
    ultimately show ?thesis using less.prems by simp
  next
    case (Some k)
    define n where "n = dn_id (T ! k)"
    note rd = round_inv [OF less.prems p [unfolded Some], folded n_def]
    note meas = visit_measure [OF p [unfolded Some]]
    obtain v where v: "tab (visit k T) n = Some v" "dn_visited v" "dn_cost v = c" using rd(4) by blast
    have others: "closed_at (tab (visit k T)) i" if "closed_at (tab T) i" "i \<noteq> n" for i
      unfolding rd(5) by (rule closed_visit [OF that(1) rd(6) that(2)])
    have domV: "dom (tab (visit k T)) \<subseteq> V" if "dom (tab T) \<subseteq> V"
      using that rd(6) by (auto simp: rd(5))
    show ?thesis
    proof (cases "n = my_node \<or> (n \<noteq> destination \<and> \<not> relays n)")
      case True
      then have cn: "closed_at (tab (visit k T)) n" by (auto simp: search_closed_def)
      have "closed_at (tab (visit k T)) i" if "\<forall>i. closed_at (tab T) i" for i
        using cn others [of i] that by (cases "i = n") simp_all
      then have cl: "\<forall>i. closed_at (tab (visit k T)) i" if "\<forall>i. closed_at (tab T) i" using that by simp
      show ?thesis
      proof (cases "n = my_node")
        case True
        then have eq: "?loop T = visit k T" using p Some by (subst settle_loop.simps) (simp add: n_def Let_def)
        have "finished (tab (visit k T))" using v True by (auto simp: finished_def)
        then show ?thesis unfolding eq using rd(1,2) cl by blast
      next
        case False
        then have eq: "?loop T = ?loop (visit k T)"
          using p Some True by (subst settle_loop.simps) (simp add: n_def Let_def)
        show ?thesis unfolding eq using less.hyps [OF meas rd(1,2)] cl domV by blast
      qed
    next
      case False
      let ?X = "relax_all n c (offer n) (visit k T)"
      have eq: "?loop T = ?loop ?X" using p Some False by (subst settle_loop.simps) (auto simp: n_def Let_def)
      have m: "search_measure ?X < search_measure T"
        using meas relax_all_measure le_less_trans by blast
      have ex: "n \<noteq> my_node" "n = destination \<or> relays n" using False by auto
      have top: "settled_below (tab (visit k T)) (dn_cost v)" using rd(3) v(3) by simp
      from relax_all_inv [OF rd(1,2) v(1,2) ex top order_refl, unfolded v(3)]
      have X: "table_ok ?X" "sinv (tab ?X)" "improves (tab (visit k T)) (tab ?X)"
        "dom (tab ?X) \<subseteq> dom (tab (visit k T)) \<union> fst ` set (offer n)" by blast+
      have "dom (tab ?X) \<subseteq> V \<and> (\<forall>i. closed_at (tab ?X) i)"
        if V: "in_room V" "dom (tab T) \<subseteq> V" "\<forall>i. closed_at (tab T) i"
      proof -
        have nV: "n \<in> V" using V(2) rd(6) by auto
        then have oV: "fst ` set (offer n) \<subseteq> V" using V(1) unfolding in_room_def by blast
        have fV: "finite V" "card V \<le> MAX_GRAPH_NODES" using V(1) by (simp_all add: in_room_def)
        have "tab ?X n = Some v" using X(3) v(1,2) unfolding improves_def by blast
        then have cn: "closed_at (tab ?X) n"
          using relax_all_closed [OF rd(1,2) v(1,2) ex top order_refl fV domV [OF V(2)] oV, unfolded v(3)] v(3)
          by (auto simp: search_closed_def)
        have "closed_at (tab ?X) i" for i
          using cn improves_closed [OF X(3), of i] others [of i] V(3) by (cases "i = n") simp_all
        moreover have "dom (tab ?X) \<subseteq> V" using X(4) oV domV [OF V(2)] by (meson Un_least order_trans)
        ultimately show ?thesis by simp
      qed
      then show ?thesis unfolding eq using less.hyps [OF m X(1,2)] by blast
    qed
  qed
qed

section \<open>What the search finds\<close>

lemma start_inv: "table_ok (search_start destination)" "sinv (tab (search_start destination))"
  "closed_at (tab (search_start destination)) i" "dom (tab (search_start destination)) = {destination}"
proof -
  let ?e = "(dnode_fresh destination)\<lparr>dn_cost := 0\<rparr>"
  have M: "tab (search_start destination) = [destination \<mapsto> ?e]"
    by (auto simp: tab_def search_start_def dnode_fresh_def fun_eq_iff)
  show "table_ok (search_start destination)"
    by (simp add: table_ok_def search_start_def MAX_GRAPH_NODES_def)
  show "sinv (tab (search_start destination))"
    unfolding M search_inv_def by (auto simp: dnode_fresh_def intro: branch_dest split: if_splits)
  show "closed_at (tab (search_start destination)) i"
    unfolding M search_closed_def by (auto simp: dnode_fresh_def split: if_splits)
  show "dom (tab (search_start destination)) = {destination}" unfolding M by simp
qed

definition result :: "dnode list" where
  "result = settle_loop offer relays my_node destination (search_start destination)"

lemmas result_inv = settle_loop_inv [OF start_inv(1,2), folded result_def]

lemma result_walk:
  assumes "tab result i = Some e" "dn_cost e \<noteq> ROUTE_COST_UNKNOWN"
  shows "\<exists>p. br (tab result) (i # p) \<and> wk (i # p) (dn_cost e)"
proof -
  have inv: "sinv (tab result)" using result_inv by blast
  obtain d where d: "tab result destination = Some d" "dn_cost d = 0" using inv unfolding search_inv_def by blast
  obtain p where p: "br (tab result) (i # p)" using inv assms unfolding search_inv_def by blast
  from branch_walk [OF p assms(1) d] p show ?thesis by blast
qed

lemma result_least:
  assumes "in_room V" "destination \<in> V" "wk (i # p) c"
    and bound: "\<And>j x. tab result j = Some x \<Longrightarrow> \<not> dn_visited x \<Longrightarrow> B \<le> dn_cost x"
  shows "(\<exists>v. tab result i = Some v \<and> dn_visited v \<and> dn_cost v \<le> c) \<or> B \<le> c"
  using assms(3)
proof (induction "i # p" c arbitrary: i p rule: walk.induct)
  case walk_dest
  have "sinv (tab result)" using result_inv by blast
  then obtain d where "tab result destination = Some d" "dn_cost d = 0" unfolding search_inv_def by blast
  then show ?case using bound [of destination d] by (cases "dn_visited d") auto
next
  case (walk_hop n p c m w)
  have known: "c \<noteq> ROUTE_COST_UNKNOWN" using walk_known [OF walk_hop.hyps(1)] .
  have cl: "closed_at (tab result) n"
    using result_inv [of V] assms(1,2) start_inv(3,4) by simp
  from walk_hop.hyps(2) show ?case
  proof
    assume "\<exists>v. tab result n = Some v \<and> dn_visited v \<and> dn_cost v \<le> c"
    then obtain v where v: "tab result n = Some v" "dn_visited v" "dn_cost v \<le> c" by blast
    then obtain e where e: "tab result m = Some e" "dn_cost e \<le> route_add (dn_cost v) w"
      using cl walk_hop.hyps(3-5) unfolding search_closed_def by blast
    have "dn_cost e \<le> route_add c w" using e(2) route_add_mono [OF v(3)] order_trans by blast
    then show ?case using e(1) bound [OF e(1)] by (cases "dn_visited e") (auto intro: order_trans)
  next
    assume "B \<le> c"
    then show ?case using route_add_ge [OF known, of w] order_trans by blast
  qed
qed

text \<open>Counting the hops: the loop follows the branch of the entry it starts from.\<close>

lemma hop_loop_branch:
  assumes "br (tab T) (i # p)" "0 \<notin> set (i # p)" "hops + length p \<le> MAX_GRAPH_NODES"
  shows "hop_loop T destination i hops = hops + length p"
  using assms
proof (induction p arbitrary: i hops)
  case Nil
  then have "i = destination" by (cases rule: branch.cases) auto
  then show ?case by (subst hop_loop.simps) simp
next
  case (Cons n p)
  from Cons.prems(1) obtain e where e: "tab T i = Some e" "i \<noteq> destination" "dn_prev e = n" "br (tab T) (n # p)"
    by (cases rule: branch.cases) auto
  have "prev_of T i = n" using e(1,3) by (simp add: prev_of_def tab_def)
  moreover have "hop_loop T destination n (hops + 1) = hops + 1 + length p"
    using Cons.IH [OF e(4)] Cons.prems(2,3) by simp
  ultimately show ?case using e(2) Cons.prems(2,3) by (subst hop_loop.simps) simp
qed

lemma branch_length:
  assumes "br (tab result) p"
  shows "length p \<le> MAX_GRAPH_NODES"
proof -
  have ok: "table_ok result" "sinv (tab result)" using result_inv by blast+
  have "tab result destination \<noteq> None" using ok(2) unfolding search_inv_def by auto
  from branch_dom [OF assms this] have "tab result i \<noteq> None" if "i \<in> set p" for i using that by auto
  then have "set p \<subseteq> set (map dn_id result)" by (auto simp: tab_None_iff)
  from card_mono [OF finite_set this] have "card (set p) \<le> length result"
    using card_length [of "map dn_id result"] by simp
  then show ?thesis using branch_distinct [OF assms] ok(1) by (simp add: distinct_card table_ok_def)
qed

end

end
