(* ===== verification/RouteCost.thy ===== *)
theory RouteCost
  imports RouteSearch Graph
begin

text \<open>
  The search on the graph itself: the locale of \<open>RouteSearch\<close> interpreted with the offers of a
  well-formed graph, and what follows for the route \<open>backward_search\<close> returns.
\<close>

section \<open>The offers of a graph\<close>

definition graph_ids :: "edge_store \<Rightarrow> u32 list" where
  "graph_ids s = node_ids s @ concat (map (\<lambda>n. map eg_to (live_edges n)) (live_nodes s))"

lemma graph_ids_nonzero: "es_inv s \<Longrightarrow> 0 \<notin> set (graph_ids s)"
  by (force simp: graph_ids_def node_ids_def es_inv_def ne_inv_def)

lemma offers_ids: "(m, w) \<in> set (offers s cap my now allow n) \<Longrightarrow> m \<in> set (graph_ids s)"
  by (auto simp: offers_def own_offers_def peer_offers_def graph_ids_def map_filter_def
      split: option.splits if_splits dest: find_node_D [OF sym])

lemma walk_ids:
  assumes "walk offer relays my destination p c" "\<And>n m w. (m, w) \<in> set (offer n) \<Longrightarrow> m \<in> V"
  shows "set p \<subseteq> insert destination V"
  using assms(1) by (induction rule: walk.induct) (auto dest: assms(2))

interpretation backward: search_problem
  "offers s (map_option rf_capability routable) my_node now_ms allow_unverified" "filter_relays routable"
  my_node destination for s routable my_node now_ms allow_unverified destination .

abbreviation graph_walk ::
  "edge_store \<Rightarrow> u32 \<Rightarrow> u32 \<Rightarrow> u32 \<Rightarrow> routable_filter option \<Rightarrow> bool \<Rightarrow> u32 list \<Rightarrow> u16 \<Rightarrow> bool" where
  "graph_walk s my_node destination now_ms routable allow_unverified \<equiv>
     walk (offers s (map_option rf_capability routable) my_node now_ms allow_unverified)
       (filter_relays routable) my_node destination"

lemma graph_walk_nonzero:
  "graph_walk s my destination now routable allow p c \<Longrightarrow> es_inv s \<Longrightarrow> destination \<noteq> 0 \<Longrightarrow> 0 \<notin> set p"
  using walk_ids [of _ _ _ _ p c "set (graph_ids s)"] offers_ids graph_ids_nonzero by blast

lemma backward_search_result:
  "backward_search s my destination now routable allow =
     (case tab (backward.result s routable my now allow destination) my of
        None \<Rightarrow> None
      | Some me \<Rightarrow>
          if dn_cost me = ROUTE_COST_UNKNOWN \<or> dn_prev me = 0 then None
          else Some (dn_cost me, dn_prev me,
            hop_loop (backward.result s routable my now allow destination) destination (dn_prev me) 1))"
  unfolding backward_search_def backward.result_def tab_def Let_def ..

text \<open>What the table says of this node once its entry is known.\<close>

lemma known_entry:
  assumes "es_inv s" "destination \<noteq> 0" "destination \<noteq> my"
    "tab (backward.result s routable my now allow destination) my = Some me" "dn_cost me \<noteq> ROUTE_COST_UNKNOWN"
  shows "\<exists>p. graph_walk s my destination now routable allow (my # dn_prev me # p) (dn_cost me) \<and>
    dn_prev me \<noteq> 0 \<and>
    hop_loop (backward.result s routable my now allow destination) destination (dn_prev me) 1 = length (dn_prev me # p)"
proof -
  let ?R = "backward.result s routable my now allow destination"
  obtain q where q: "backward.br s routable my now allow destination (tab ?R) (my # q)"
    "graph_walk s my destination now routable allow (my # q) (dn_cost me)"
    using backward.result_walk [OF assms(4,5)] by blast
  from q(1) obtain n p where b: "q = n # p" "dn_prev me = n"
    "backward.br s routable my now allow destination (tab ?R) (n # p)"
    using assms(3,4) by (cases rule: branch.cases) auto
  have nz: "0 \<notin> set (my # q)" using graph_walk_nonzero [OF q(2) assms(1,2)] .
  have "length (my # q) \<le> MAX_GRAPH_NODES" by (rule backward.branch_length [OF q(1)])
  then have "hop_loop ?R destination n 1 = 1 + length p"
    using backward.hop_loop_branch [OF b(3), of 1] nz b(1) by simp
  then show ?thesis using q(2) b nz by auto
qed

text \<open>
  C17. A route found is a real one: there is a walk from this node over the next hop returned to
  the destination, every intermediate node willing to relay, whose capped cost is the cost
  returned and whose length is the number of hops returned.
\<close>

theorem backward_search_sound:
  assumes "es_inv s" "destination \<noteq> 0" "destination \<noteq> my_node"
    "backward_search s my_node destination now_ms routable allow = Some (cost, next_hop, hops)"
  shows "\<exists>p. graph_walk s my_node destination now_ms routable allow (my_node # next_hop # p) cost \<and>
    hops = length (next_hop # p)"
proof -
  let ?R = "backward.result s routable my_node now_ms allow destination"
  from assms(4) obtain me where t: "tab ?R my_node = Some me"
    unfolding backward_search_result by (cases "tab ?R my_node") simp_all
  with assms(4) have me: "dn_cost me \<noteq> ROUTE_COST_UNKNOWN" "cost = dn_cost me" "next_hop = dn_prev me"
    "hops = hop_loop ?R destination (dn_prev me) 1"
    unfolding backward_search_result by (auto split: if_splits)
  from known_entry [OF assms(1-3) t me(1)] show ?thesis unfolding me(2-4) by blast
qed

text \<open>In the graph of the sample, node 1 reaches node 2 over its own edge at the cost 200.\<close>

lemma island_offers: "offers island_graph None 1 9 False 2 = [(1, 200)]"
proof -
  note etx_to_fixed_two
  moreover have "min (sat_add (200 :: u16) 0) 65534 = 200"
    using unat_route_add [of 200 0] by (simp add: route_add_def word_unat_eq_iff)
  ultimately show ?thesis
    by (simp add: offers_def own_offers_def peer_offers_def island_graph_def edge_of_def find_edge_def
        map_filter_def edge_fresh_def peer_publishes_topology_def relax_price_def priced_hop_cost_fixed_def
        effective_variance_byte_def Let_def)
qed

lemma island_add: "route_add 0 200 = 200"
  by (simp add: word_unat_eq_iff unat_route_add)

lemma island_walk: "graph_walk island_graph 1 2 9 None False [1, 2] 200"
  using walk_hop [OF walk_dest, of 2 1 "filter_relays None" 1 200 "offers island_graph None 1 9 False"]
  by (simp add: island_offers island_add)

lemma island_search: "backward_search island_graph 1 2 9 None False = Some (200, 2, 1)"
proof -
  let ?done = "[\<lparr>dn_id = 2, dn_cost = 0, dn_prev = 0, dn_visited = True\<rparr>,
    \<lparr>dn_id = 1, dn_cost = 200, dn_prev = 2, dn_visited = True\<rparr>]"
  have "settle_loop (offers island_graph None 1 9 False) (filter_relays None) 1 2 (search_start 2) = ?done"
    by (simp add: settle_loop.simps search_start_def dnode_fresh_def pick_def visit_def relax_all_def relax_def
        find_or_add_node_def island_offers island_add Let_def MAX_GRAPH_NODES_def ROUTE_COST_UNKNOWN_def)
  moreover have "hop_loop ?done 2 2 1 = 1" by (simp add: hop_loop.simps)
  ultimately show ?thesis by (simp add: backward_search_def Let_def ROUTE_COST_UNKNOWN_def)
qed

theorem backward_search_sound_witness:
  "\<exists>p. graph_walk island_graph 1 2 9 None False (1 # 2 # p) 200 \<and> 1 = length ((2 :: u32) # p)"
  using backward_search_sound [OF island_graph_inv _ _ island_search] by simp

text \<open>
  C8. No route is cheaper: when the identifiers the graph mentions fit in the search's table,
  every walk from this node to the destination is matched by a route found, at no more than its
  cost.
\<close>

theorem backward_search_cheapest:
  assumes "es_inv s" "destination \<noteq> 0" "destination \<noteq> my_node"
    "card (insert destination (set (graph_ids s))) \<le> MAX_GRAPH_NODES"
    "graph_walk s my_node destination now_ms routable allow (my_node # p) c"
  shows "\<exists>cost next_hop hops.
    backward_search s my_node destination now_ms routable allow = Some (cost, next_hop, hops) \<and> cost \<le> c"
proof -
  let ?R = "backward.result s routable my_node now_ms allow destination"
  let ?V = "insert destination (set (graph_ids s))"
  have room: "backward.in_room s routable my_node now_ms allow ?V"
    unfolding backward.in_room_def using assms(4) offers_ids by fastforce
  have inv: "search_inv (offers s (map_option rf_capability routable) my_node now_ms allow) (filter_relays routable)
      my_node destination (tab ?R)" "backward.finished my_node (tab ?R)"
    using backward.result_inv by blast+
  have least: "(\<exists>v. tab ?R my_node = Some v \<and> dn_visited v \<and> dn_cost v \<le> c) \<or> B \<le> c"
    if "\<forall>j x. tab ?R j = Some x \<longrightarrow> \<not> dn_visited x \<longrightarrow> B \<le> dn_cost x" for B
    by (rule backward.result_least [OF room _ assms(5)]) (use that in auto)
  have "\<exists>me. tab ?R my_node = Some me \<and> dn_cost me \<noteq> ROUTE_COST_UNKNOWN \<and> dn_cost me \<le> c"
  proof (cases "\<exists>me. tab ?R my_node = Some me \<and> dn_visited me")
    case True
    then obtain me where me: "tab ?R my_node = Some me" "dn_visited me" by blast
    have "\<forall>j x. tab ?R j = Some x \<longrightarrow> \<not> dn_visited x \<longrightarrow> dn_cost me \<le> dn_cost x"
      using inv(1) me unfolding search_inv_def by blast
    from least [OF this] have "dn_cost me \<le> c" using me by auto
    moreover have "dn_cost me \<noteq> ROUTE_COST_UNKNOWN" using inv(1) me unfolding search_inv_def by blast
    ultimately show ?thesis using me(1) by blast
  next
    case False
    then have "\<forall>j x. tab ?R j = Some x \<longrightarrow> \<not> dn_visited x \<longrightarrow> ROUTE_COST_UNKNOWN \<le> dn_cost x"
      using inv(2) unfolding backward.finished_def by (metis order_refl)
    from least [OF this] have "ROUTE_COST_UNKNOWN \<le> c" using False by auto
    then have "c = ROUTE_COST_UNKNOWN" by (metis ROUTE_COST_UNKNOWN_max order_antisym word_le_max)
    then show ?thesis using walk_known [OF assms(5)] by simp
  qed
  then obtain me where me: "tab ?R my_node = Some me" "dn_cost me \<noteq> ROUTE_COST_UNKNOWN" "dn_cost me \<le> c" by blast
  have "dn_prev me \<noteq> 0" using known_entry [OF assms(1-3) me(1,2)] by blast
  then show ?thesis unfolding backward_search_result using me by simp
qed

theorem backward_search_cheapest_witness:
  "\<exists>cost next_hop hops. backward_search island_graph 1 2 9 None False = Some (cost, next_hop, hops) \<and> cost \<le> 200"
proof -
  have "graph_ids island_graph = [1, 2, 3, 2]" by (simp add: graph_ids_def island_graph_def edge_fresh_def)
  then have "card (insert 2 (set (graph_ids island_graph))) \<le> MAX_GRAPH_NODES" 
    using card_length [of "[2, 1, 2, 3, 2 :: u32]"] by (simp add: MAX_GRAPH_NODES_def)
  from backward_search_cheapest [OF island_graph_inv _ _ this island_walk] show ?thesis by simp
qed

section \<open>A table that is too small\<close>

lemma ids_relax:
  "map dn_id (relax m via c w T) =
     (if m \<in> set (map dn_id T) \<or> MAX_GRAPH_NODES \<le> length T then map dn_id T else map dn_id T @ [m])"
proof -
  have upd: "map dn_id (T[k := (T ! k)\<lparr>dn_cost := a, dn_prev := b\<rparr>]) = map dn_id T" for T :: "dnode list" and k a b
    by (cases "k < length T") (simp_all add: map_update list_update_same_conv list_update_beyond)
  show ?thesis
  proof (cases "position (\<lambda>n. dn_id n = m) T")
    case None
    then have "m \<notin> set (map dn_id T)" by (auto simp: position_None_iff)
    then show ?thesis using None
      by (simp add: relax_def find_or_add_node_def upd Let_def dnode_fresh_def nth_append list_update_append)
  next
    case (Some k)
    then have "m \<in> set (map dn_id T)" using position_SomeD [OF Some] nth_mem [of k T] by auto
    then show ?thesis using Some by (simp add: relax_def find_or_add_node_def upd Let_def)
  qed
qed

lemma ids_relax_all_full:
  "MAX_GRAPH_NODES \<le> length T \<Longrightarrow> map dn_id (relax_all n c ws T) = map dn_id T"
proof (induction ws arbitrary: T)
  case (Cons mw ws)
  let ?T = "relax (fst mw) n c (snd mw) T"
  have ids: "map dn_id ?T = map dn_id T" using Cons.prems ids_relax [of "fst mw"] by simp
  then have "MAX_GRAPH_NODES \<le> length ?T" using Cons.prems by (metis length_map)
  from Cons.IH [OF this] ids show ?case by (simp add: relax_all_def case_prod_unfold)
qed (simp add: relax_all_def)

lemma ids_settle_full:
  "MAX_GRAPH_NODES \<le> length T \<Longrightarrow> map dn_id (settle_loop offer relays my destination T) = map dn_id T"
proof (induction offer relays my destination T rule: settle_loop.induct)
  case (1 offer relays my destination T)
  obtain u c where p: "pick T = (u, c)" by (cases "pick T")
  show ?case
  proof (cases u)
    case None
    then show ?thesis using p by (simp add: settle_loop.simps [of _ _ _ _ T])
  next
    case (Some k)
    have v: "map dn_id (visit k T) = map dn_id T" "length (visit k T) = length T"
      using pick_Some(1) [OF p [unfolded Some]] by (simp_all add: visit_def map_update list_update_same_conv)
    have r: "map dn_id (relax_all n c ws (visit k T)) = map dn_id T" for n ws
      using ids_relax_all_full [of "visit k T"] v 1(3) by simp
    then have "length (relax_all n c ws (visit k T)) = length T" for n ws by (metis length_map)
    then show ?thesis
      using 1 p Some v r by (subst settle_loop.simps) (simp add: Let_def)
  qed
qed

lemma ids_relax_all_fill:
  "distinct (map fst ws) \<Longrightarrow> fst ` set ws \<inter> dn_id ` set T = {} \<Longrightarrow> length T + length ws \<le> MAX_GRAPH_NODES \<Longrightarrow>
   map dn_id (relax_all n c ws T) = map dn_id T @ map fst ws"
proof (induction ws arbitrary: T)
  case (Cons mw ws)
  let ?T = "relax (fst mw) n c (snd mw) T"
  have ids: "map dn_id ?T = map dn_id T @ [fst mw]" using Cons.prems ids_relax [of "fst mw"] by auto
  then have len: "length ?T = length T + 1" by (metis length_append_singleton length_map Suc_eq_plus1)
  have "dn_id ` set ?T = insert (fst mw) (dn_id ` set T)" using arg_cong [OF ids, of set] by simp
  then have "map dn_id (relax_all n c ws ?T) = map dn_id ?T @ map fst ws"
    using Cons.prems len by (intro Cons.IH) auto
  then show ?case using ids by (simp add: relax_all_def case_prod_unfold)
qed (simp add: relax_all_def)

text \<open>
  C35. A destination with many neighbours can hide this node: when the first 31 edges of the
  destination's list do not name it, the table of 32 places is full after the first round and no
  route is found, also when the list goes on to name this node and the node itself has an edge
  to the destination.
\<close>

theorem crowded_destination_unroutable:
  assumes "es_inv s" "destination \<noteq> my_node" "find_node s destination = Some ne"
    "31 \<le> length (live_edges ne)" "my_node \<notin> eg_to ` set (take 31 (live_edges ne))"
  shows "backward_search s my_node destination now_ms routable allow = None"
proof -
  let ?offer = "offers s (map_option rf_capability routable) my_node now_ms allow"
  let ?T = "search_start destination"
  have ne: "ne_inv ne" "ne_node_id ne = destination" using find_node_D [OF assms(3)] es_inv_node [OF assms(1)] by auto
  have p: "pick ?T = (Some 0, 0)"
    by (simp add: pick_def search_start_def dnode_fresh_def ROUTE_COST_UNKNOWN_def)
  define ws where "ws = take 31 (?offer destination)"
  define vs where "vs = drop 31 (?offer destination)"
  have own: "map fst ws = map eg_to (take 31 (live_edges ne))"
    using assms(3,4) by (simp add: ws_def offers_def own_offers_def take_map)
  have ids: "map dn_id (visit 0 ?T) = [destination]" "length (visit 0 ?T) = 1"
    by (simp_all add: visit_def search_start_def dnode_fresh_def)
  let ?U = "relax_all destination 0 ws (visit 0 ?T)"
  have "fst ` set ws = eg_to ` set (take 31 (live_edges ne))" using arg_cong [OF own, of set] by simp
  moreover have "eg_to ` set (take 31 (live_edges ne)) \<subseteq> eg_to ` set (live_edges ne)"
    by (intro image_mono set_take_subset)
  moreover have "dn_id ` set (visit 0 ?T) = {destination}" using arg_cong [OF ids(1), of set] by simp
  moreover have "distinct (map fst ws)" using ne(1) unfolding own ne_inv_def by (simp add: take_map [symmetric])
  moreover have "length ws = 31" using arg_cong [OF own, of length] assms(4) by simp
  moreover have "destination \<notin> eg_to ` set (live_edges ne)" using ne by (simp add: ne_inv_def)
  ultimately have ws: "fst ` set ws \<inter> dn_id ` set (visit 0 ?T) = {}" "distinct (map fst ws)" "length ws = 31"
    "fst ` set ws = eg_to ` set (take 31 (live_edges ne))" by auto
  have "map dn_id ?U = map dn_id (visit 0 ?T) @ map fst ws"
    by (rule ids_relax_all_fill [OF ws(2,1)]) (simp add: ws(3) ids(2) MAX_GRAPH_NODES_def)
  then have U1: "map dn_id ?U = destination # map fst ws" by (simp only: ids(1) append_Cons append_Nil)
  have "my_node \<notin> set (map dn_id ?U)" unfolding U1 using ws(4) assms(2,5) by simp
  moreover have "length (map dn_id ?U) = 32" unfolding U1 by (simp add: ws(3))
  ultimately have U: "my_node \<notin> set (map dn_id ?U)" "length ?U = 32" by simp_all
  have split: "relax_all destination 0 (?offer destination) (visit 0 ?T) = relax_all destination 0 vs ?U"
    unfolding relax_all_def ws_def vs_def by (metis append_take_drop_id comp_apply fold_append)
  have full: "map dn_id (relax_all destination 0 vs ?U) = map dn_id ?U"
    by (rule ids_relax_all_full) (simp add: U(2) MAX_GRAPH_NODES_def)
  have "dn_id (?T ! 0) = destination" by (simp add: search_start_def dnode_fresh_def)
  then have "settle_loop ?offer (filter_relays routable) my_node destination ?T =
      settle_loop ?offer (filter_relays routable) my_node destination (relax_all destination 0 vs ?U)"
    using p assms(2) split by (subst settle_loop.simps) (simp add: Let_def)
  moreover have "map dn_id (settle_loop ?offer (filter_relays routable) my_node destination
      (relax_all destination 0 vs ?U)) = map dn_id ?U"
    using ids_settle_full [of "relax_all destination 0 vs ?U"] full U(2)
    by (metis MAX_GRAPH_NODES_def length_map order_refl)
  ultimately have "my_node \<notin> dn_id ` set (backward.result s routable my_node now_ms allow destination)"
    using U(1) unfolding backward.result_def by (metis set_map)
  then show ?thesis unfolding backward_search_result by (simp add: tab_None_iff [THEN iffD2])
qed

text \<open>Node 2 lists 35 neighbours, this node, 1, as the last of them.\<close>

definition crowd_graph :: edge_store where
  "crowd_graph = sample_graph [sample_node 1 [edge_fresh 2 (Fin 2) 5 Reported 0],
     sample_node 2 (map (\<lambda>i. edge_fresh (of_nat i) (Fin 2) 5 Reported 0) [3..<37] @ [edge_fresh 1 (Fin 2) 5 Reported 0])]"

lemma crowd_ids: "map eg_to (map (\<lambda>i. edge_fresh (of_nat i) (Fin 2) 5 Reported 0) [3..<37]) = map of_nat [3..<37]"
  by (simp add: edge_fresh_def comp_def)

lemma crowd_graph_inv: "es_inv crowd_graph"
proof -
  let ?es = "map (\<lambda>i. edge_fresh (of_nat i) (Fin 2) 5 Reported 0) [3..<37] @ [edge_fresh 1 (Fin 2) 5 Reported 0]"
  have ids: "map eg_to ?es = map of_nat [3..<37] @ [1]"
    using crowd_ids by (simp add: edge_fresh_def del: map_map)
  have dis: "distinct (map of_nat [3..<37] @ [1 :: u32])"
    "0 \<notin> set (map of_nat [3..<37] @ [1 :: u32]) \<and> 2 \<notin> set (map of_nat [3..<37] @ [1 :: u32])" by code_simp+
  have img: "eg_to ` set ?es = set (map of_nat [3..<37] @ [1])" using arg_cong [OF ids, of set] by (simp only: set_map)
  have "ne_inv (sample_node 2 ?es)"
    by (rule sample_node_inv) (use dis ids img in \<open>simp_all add: MAX_EDGES_PER_NODE_def del: map_map set_append\<close>)
  moreover have "ne_inv (sample_node 1 [edge_fresh 2 (Fin 2) 5 Reported 0])"
    by (rule sample_node_inv) (simp_all add: MAX_EDGES_PER_NODE_def edge_fresh_def)
  ultimately show ?thesis
    unfolding crowd_graph_def by (intro sample_graph_inv) (simp_all add: MAX_GRAPH_NODES_def)
qed

theorem crowded_destination_unroutable_witness:
  "backward_search crowd_graph 1 2 9 None True = None \<and> edge_of crowd_graph 1 2 \<noteq> None \<and>
   edge_of crowd_graph 2 1 \<noteq> None"
proof -
  let ?es = "map (\<lambda>i. edge_fresh (of_nat i) (Fin 2) 5 Reported 0) [3..<37] @ [edge_fresh 1 (Fin 2) 5 Reported 0]"
  have n: "find_node crowd_graph 2 = Some (sample_node 2 ?es)" by (simp add: crowd_graph_def)
  have "1 \<notin> set (map of_nat (take 31 [3..<37]) :: u32 list)" by code_simp
  then have "1 \<notin> eg_to ` set (take 31 ?es)" by (simp add: take_map edge_fresh_def image_image)
  then have "backward_search crowd_graph 1 2 9 None True = None"
    using crowded_destination_unroutable [OF crowd_graph_inv _ n, of 1 9 None True] by simp
  moreover have "edge_of crowd_graph 1 2 \<noteq> None"
    by (simp add: crowd_graph_def edge_of_def find_edge_def edge_fresh_def)
  moreover have "edge_of crowd_graph 2 1 \<noteq> None"
    using n by (simp add: edge_of_def find_edge_def find_None_iff) (simp add: edge_fresh_def)
  ultimately show ?thesis by blast
qed

end
