(* ===== verification/RelayTiming.thy ===== *)
theory RelayTiming
  imports Wire RadioQueue Etx GraphEdges
begin

text \<open>
  When a relay sends: the timing constants and contention windows (\<open>coordinated_relay.rs\<close> and the
  windows of \<open>routing_ack.rs\<close>), the positions handed out to the relays of one packet
  (\<open>relay_window.rs\<close>), the hold after traffic on the channel (\<open>channel_access.rs\<close>) and the limits
  on the utilisation of the channel (\<open>qos.rs\<close>).
\<close>

section \<open>Contention windows\<close>

definition CW_MIN :: u8 where "CW_MIN = 3"
definition CW_MAX :: u8 where "CW_MAX = 8"
definition SNR_MIN :: int where "SNR_MIN = - 20"
definition SNR_MAX :: int where "SNR_MAX = 10"
definition DEFAULT_SLOT_MS :: u32 where "DEFAULT_SLOT_MS = 20"
definition MIN_RUNG_SPACING_MS :: u32 where "MIN_RUNG_SPACING_MS = 50"
definition MIN_TIE_BREAK_RANGE_MS :: u32 where "MIN_TIE_BREAK_RANGE_MS = 20"

definition RETX_CW_MIN :: u8 where "RETX_CW_MIN = 3"
definition RETX_CW_MAX :: u8 where "RETX_CW_MAX = 8"
definition RETX_PROCESSING_TIME_MS :: u32 where "RETX_PROCESSING_TIME_MS = 4500"
definition NUM_RELIABLE_RETX :: u8 where "NUM_RELIABLE_RETX = 3"

text \<open>Unchecked products and sums of the source wrap.\<close>

definition relay_floor_ms :: "u32 \<Rightarrow> u32" where
  "relay_floor_ms slot = 2 * ucast CW_MAX * slot"

definition half_airtime_ms :: "u32 \<Rightarrow> u32" where
  "half_airtime_ms packet_airtime_ms = max (packet_airtime_ms div 2) MIN_RUNG_SPACING_MS"

definition slot_time_for_preset :: "u8 \<Rightarrow> u32" where
  "slot_time_for_preset modem_preset = max (slot_time_ms (eu868_config_for_preset modem_preset)) 1"

text \<open>The casts of \<open>map_range\<close> are of values that are not negative and fit.\<close>

definition map_range :: "int \<Rightarrow> int \<Rightarrow> int \<Rightarrow> u8 \<Rightarrow> u8 \<Rightarrow> u8" where
  "map_range v in_min in_max out_min out_max =
     (if in_max \<le> in_min then out_min
      else
        let clamped = max in_min (min v in_max);
            numer = of_int (clamped - in_min) * ucast (out_max - out_min) :: u32;
            denom = of_int (in_max - in_min) :: u32
        in ucast (ucast out_min + numer div denom :: u32))"

definition cw_size_from_snr :: "int \<Rightarrow> u8" where
  "cw_size_from_snr snr = map_range snr SNR_MIN SNR_MAX CW_MIN CW_MAX"

definition jitter_slots :: "u32 \<Rightarrow> u32 \<Rightarrow> u32 \<Rightarrow> u32 \<Rightarrow> u32" where
  "jitter_slots frm pid node_num slot_span =
     (if slot_span = 0 then 0 else xor (xor frm pid) node_num mod slot_span)"

definition tie_break_range_ms :: "u32 \<Rightarrow> u32" where
  "tie_break_range_ms half = max (half div 2) MIN_TIE_BREAK_RANGE_MS"

definition slot_tie_break_ms :: "u32 \<Rightarrow> u32 \<Rightarrow> u32 \<Rightarrow> u32" where
  "slot_tie_break_ms half pid node_num = xor node_num pid mod tie_break_range_ms half + 1"

definition contention_window_size :: "f32 \<Rightarrow> u8" where
  "contention_window_size channel_util_pct =
     (let pct = (if is_finite channel_util_pct then f32_clamp channel_util_pct (Fin 0) (Fin 100) else Fin 0);
          span = f32_of_nat (unat (RETX_CW_MAX - RETX_CW_MIN))
      in RETX_CW_MIN + f32_to_word (f32_div (f32_mul pct span) (Fin 100)))"

definition retransmission_delay_ms :: "u32 \<Rightarrow> u32 \<Rightarrow> f32 \<Rightarrow> u32" where
  "retransmission_delay_ms packet_airtime_ms slot_ms channel_util_pct =
     (let cw = contention_window_size channel_util_pct;
          mid_cw = (RETX_CW_MAX + RETX_CW_MIN) div 2;
          slots = push_bit (unat cw) 1 + 2 * ucast RETX_CW_MAX + push_bit (unat mid_cw) 1
      in sat_add (sat_add (sat_mul packet_airtime_ms 2) (sat_mul slots slot_ms)) RETX_PROCESSING_TIME_MS)"

definition tx_delay_ms_contention :: "f32 \<Rightarrow> u32 \<Rightarrow> u32 \<Rightarrow> u32 \<Rightarrow> u32 \<Rightarrow> u32" where
  "tx_delay_ms_contention channel_util_pct slot_ms seed_a seed_b node_num =
     jitter_slots seed_a seed_b node_num (push_bit (unat (contention_window_size channel_util_pct)) 1) * slot_ms"

definition tx_delay_ms_contention_max_at :: "f32 \<Rightarrow> u32 \<Rightarrow> u32" where
  "tx_delay_ms_contention_max_at channel_util_pct slot_ms =
     push_bit (unat (contention_window_size channel_util_pct)) 1 * slot_ms"

definition tx_delay_ms_contention_max :: "u32 \<Rightarrow> u32" where
  "tx_delay_ms_contention_max slot_ms = push_bit (unat RETX_CW_MAX) 1 * slot_ms"

definition tx_delay_ms_worst :: "u32 \<Rightarrow> u32" where
  "tx_delay_ms_worst cw_slot_ms =
     (let cw_max = ucast CW_MAX; pow2 = push_bit (unat CW_MAX) 1
      in sat_add (2 * cw_max * cw_slot_ms) (pow2 * cw_slot_ms))"

definition transmission_record_window_ms :: "u8 \<Rightarrow> u32" where
  "transmission_record_window_ms modem_preset =
     (let preset_window = contention_window_ms modem_preset;
          slot = slot_time_for_preset modem_preset;
          max_airtime = packet_time_ms (eu868_config_for_preset modem_preset) MAX_LORA_PAYLOAD False;
          ladder = sat_mul (half_airtime_ms max_airtime) (of_nat MAX_EDGES_PER_NODE);
          t1_window = sat_add (sat_add (max (tx_delay_ms_worst slot) ladder) max_airtime) ladder
      in max preset_window t1_window)"

section \<open>Positions of the relays of one packet\<close>

definition WINDOW_POSITIONS :: u8 where "WINDOW_POSITIONS = 2 * CW_MAX - 1"

definition window_width_ms :: "u32 \<Rightarrow> u32" where
  "window_width_ms slot = sat_mul slot (ucast WINDOW_POSITIONS)"

record window_layout =
  wl_width_ms :: u32
  wl_slot_time_ms :: u32
  wl_half_airtime_ms :: u32
  wl_cursor_ms :: u32
  wl_last_placed_end_ms :: "u32 option"
  wl_placed :: u8

definition window_new :: "u32 \<Rightarrow> u32 \<Rightarrow> window_layout" where
  "window_new slot half =
     \<lparr>wl_width_ms = window_width_ms slot, wl_slot_time_ms = slot, wl_half_airtime_ms = half,
      wl_cursor_ms = 0, wl_last_placed_end_ms = None, wl_placed = 0\<rparr>"

definition place :: "window_layout \<Rightarrow> u32 \<Rightarrow> window_layout \<times> u32 option" where
  "place w width_ms =
     (if WINDOW_POSITIONS \<le> wl_placed w then (w, None)
      else
        let pos = wl_cursor_ms w in
        if wl_width_ms w \<le> pos then (w, None)
        else (w\<lparr>wl_cursor_ms := sat_add pos width_ms, wl_last_placed_end_ms := Some pos,
                wl_placed := sat_add (wl_placed w) 1\<rparr>, Some pos))"

definition place_reserved :: "window_layout \<Rightarrow> window_layout \<times> u32 option" where
  "place_reserved w = place w (wl_slot_time_ms w)"

definition place_ranked :: "window_layout \<Rightarrow> window_layout \<times> u32 option" where
  "place_ranked w = place w (wl_half_airtime_ms w)"

definition window_is_empty :: "window_layout \<Rightarrow> bool" where
  "window_is_empty w \<longleftrightarrow> wl_last_placed_end_ms w = None"

definition first_rung_ms :: "window_layout \<Rightarrow> u32" where
  "first_rung_ms w =
     (let transition = relay_floor_ms (wl_slot_time_ms w) in
      case wl_last_placed_end_ms w of
        None \<Rightarrow> transition
      | Some prev \<Rightarrow> max transition (sat_add prev (wl_half_airtime_ms w)))"

record position_allocator =
  pa_window :: window_layout
  pa_half_airtime_ms :: u32
  pa_ladder_start_ms :: "u32 option"
  pa_next_index :: u8

definition allocator_new :: "u32 \<Rightarrow> u32 \<Rightarrow> position_allocator" where
  "allocator_new slot half =
     \<lparr>pa_window = window_new slot half, pa_half_airtime_ms = half, pa_ladder_start_ms = None,
      pa_next_index = 0\<rparr>"

definition spill :: "position_allocator \<Rightarrow> position_allocator \<times> u32" where
  "spill a =
     (let start = (case pa_ladder_start_ms a of Some s \<Rightarrow> s | None \<Rightarrow> first_rung_ms (pa_window a));
          rung = sat_sub (pa_next_index a) (wl_placed (pa_window a))
      in (a\<lparr>pa_ladder_start_ms := Some start\<rparr>,
          sat_add start (sat_mul (ucast rung) (pa_half_airtime_ms a))))"

definition bump_index :: "position_allocator \<Rightarrow> position_allocator" where
  "bump_index a = a\<lparr>pa_next_index := sat_add (pa_next_index a) 1\<rparr>"

definition take_placed ::
  "window_layout \<times> u32 option \<Rightarrow> position_allocator \<Rightarrow> position_allocator \<times> u32" where
  "take_placed placed a =
     (case placed of
        (w, Some pos) \<Rightarrow> (bump_index (a\<lparr>pa_window := w\<rparr>), pos)
      | (w, None) \<Rightarrow> (case spill (a\<lparr>pa_window := w\<rparr>) of (a, pos) \<Rightarrow> (bump_index a, pos)))"

definition take_reserved :: "position_allocator \<Rightarrow> position_allocator \<times> u32" where
  "take_reserved a = take_placed (place_reserved (pa_window a)) a"

definition take_rung :: "position_allocator \<Rightarrow> position_allocator \<times> u32" where
  "take_rung a = take_placed (place_ranked (pa_window a)) a"

definition take_late_rung :: "position_allocator \<Rightarrow> position_allocator \<times> u32" where
  "take_late_rung a = (case spill a of (a, pos) \<Rightarrow> (bump_index a, pos))"

definition first_free_ms :: "position_allocator \<Rightarrow> position_allocator \<times> u32" where
  "first_free_ms a =
     (if window_is_empty (pa_window a) then (a, first_rung_ms (pa_window a)) else spill a)"

section \<open>Access to the channel\<close>

definition PEER_TURNAROUND_MS :: u32 where "PEER_TURNAROUND_MS = 250"
definition TX_GAP_MS :: u32 where "TX_GAP_MS = 100"
definition SLOT_ORIGIN_MS :: u32 where "SLOT_ORIGIN_MS = PEER_TURNAROUND_MS"

definition dest_ack_wait_ms :: "u32 \<Rightarrow> u32 \<Rightarrow> u32" where
  "dest_ack_wait_ms ack_airtime_ms contention_max_ms =
     sat_add (sat_add PEER_TURNAROUND_MS (sat_mul contention_max_ms 2)) ack_airtime_ms"

definition peer_relay_wait_ms :: "u32 \<Rightarrow> u32 \<Rightarrow> u32" where
  "peer_relay_wait_ms airtime_ms contention_max_ms =
     sat_add (sat_add PEER_TURNAROUND_MS contention_max_ms) airtime_ms"

definition slot_delay_ms :: "u32 \<Rightarrow> u32 \<Rightarrow> u32 \<Rightarrow> u32" where
  "slot_delay_ms slot half slot_time = sat_add (relay_floor_ms slot_time) (sat_mul slot half)"

record channel_access =
  ca_hold_until_ms :: u32
  ca_holding :: bool

definition ca_new :: channel_access where
  "ca_new = \<lparr>ca_hold_until_ms = 0, ca_holding = False\<rparr>"

definition ca_extend :: "channel_access \<Rightarrow> u32 \<Rightarrow> u32 \<Rightarrow> channel_access" where
  "ca_extend c until_ms now_ms =
     (let c = (if \<not> ca_holding c \<or> until_ms - ca_hold_until_ms c < 0x80000000
               then c\<lparr>ca_hold_until_ms := until_ms\<rparr> else c)
      in c\<lparr>ca_holding := (ca_hold_until_ms c - now_ms < 0x80000000 \<and> ca_hold_until_ms c \<noteq> now_ms)\<rparr>)"

definition note_rx :: "channel_access \<Rightarrow> u32 \<Rightarrow> u32 \<Rightarrow> channel_access" where
  "note_rx c now_ms contention_backoff_ms =
     ca_extend c (now_ms + max contention_backoff_ms PEER_TURNAROUND_MS) now_ms"

definition note_tx_done :: "channel_access \<Rightarrow> u32 \<Rightarrow> channel_access" where
  "note_tx_done c now_ms = ca_extend c (now_ms + TX_GAP_MS) now_ms"

definition may_transmit :: "channel_access \<Rightarrow> u32 \<Rightarrow> channel_access \<times> bool" where
  "may_transmit c now_ms =
     (let c = (if ca_holding c \<and> now_ms - ca_hold_until_ms c < 0x80000000
               then c\<lparr>ca_holding := False\<rparr> else c)
      in (c, \<not> ca_holding c))"

definition remaining_ms :: "channel_access \<Rightarrow> u32 \<Rightarrow> channel_access \<times> u32" where
  "remaining_ms c now_ms =
     (case may_transmit c now_ms of (c, ok) \<Rightarrow> (c, if ok then 0 else ca_hold_until_ms c - now_ms))"

section \<open>Utilisation of the channel\<close>

record channel_qos = cq_primary_channel :: u8

definition with_primary_channel :: "u8 \<Rightarrow> channel_qos" where
  "with_primary_channel c = \<lparr>cq_primary_channel = c\<rparr>"

definition qos_new :: channel_qos where "qos_new = with_primary_channel 0"

definition can_relay :: "channel_qos \<Rightarrow> u32 option \<Rightarrow> u8 \<Rightarrow> f32 \<Rightarrow> bool" where
  "can_relay q decoded_portnum channel chutil_pct =
     (case qos_tier decoded_portnum channel (cq_primary_channel q) of
        Low \<Rightarrow> f32_less chutil_pct (Fin 25)
      | Medium \<Rightarrow> f32_less chutil_pct (Fin 30)
      | High \<Rightarrow> f32_less chutil_pct (Fin 38)
      | Critical \<Rightarrow> True)"

definition suppress_threshold_pct :: "channel_qos \<Rightarrow> u32 option \<Rightarrow> u8 \<Rightarrow> f32" where
  "suppress_threshold_pct q decoded_portnum channel =
     (case qos_tier decoded_portnum channel (cq_primary_channel q) of
        Low \<Rightarrow> Fin 25 | Medium \<Rightarrow> Fin 30 | High \<Rightarrow> Fin 38
      | Critical \<Rightarrow> Fin ((2 ^ 24 - 1) * 2 ^ 104))"

section \<open>Positions are apart\<close>

datatype take_kind = Reserved_pos | Rung_pos | Late_pos

fun take_pos :: "take_kind \<Rightarrow> position_allocator \<Rightarrow> position_allocator \<times> u32" where
  "take_pos Reserved_pos a = take_reserved a"
| "take_pos Rung_pos a = take_rung a"
| "take_pos Late_pos a = take_late_rung a"

fun take_all :: "take_kind list \<Rightarrow> position_allocator \<Rightarrow> position_allocator \<times> u32 list" where
  "take_all [] a = (a, [])"
| "take_all (k # ks) a =
     (case take_pos k a of (a, p) \<Rightarrow> (case take_all ks a of (a, ps) \<Rightarrow> (a, p # ps)))"

text \<open>What a position occupies: a reservation inside the window one slot, all others half the time
  of a frame on the air.\<close>

definition occupies :: "u32 \<Rightarrow> u32 \<Rightarrow> take_kind \<Rightarrow> u32 \<Rightarrow> nat" where
  "occupies slot half k p = (if k = Reserved_pos \<and> p < window_width_ms slot then unat slot else unat half)"

fun spaced_from :: "u32 \<Rightarrow> u32 \<Rightarrow> nat \<Rightarrow> take_kind list \<Rightarrow> u32 list \<Rightarrow> bool" where
  "spaced_from slot half free [] [] = True"
| "spaced_from slot half free (k # ks) (p # ps) =
     (free \<le> unat p \<and> (k = Late_pos \<longrightarrow> 16 * unat slot \<le> unat p) \<and>
      spaced_from slot half (unat p + occupies slot half k p) ks ps)"
| "spaced_from slot half free _ _ = False"

fun free_after :: "u32 \<Rightarrow> u32 \<Rightarrow> nat \<Rightarrow> take_kind list \<Rightarrow> u32 list \<Rightarrow> nat" where
  "free_after slot half free (k # ks) (p # ps) = free_after slot half (unat p + occupies slot half k p) ks ps"
| "free_after slot half free _ _ = free"

definition roomy :: "u32 \<Rightarrow> u32 \<Rightarrow> bool" where
  "roomy slot half \<longleftrightarrow> 16 * unat slot + 256 * unat half < 2 ^ 32"

lemma roomy_readings:
  assumes "roomy slot half"
  shows "unat (window_width_ms slot) = 15 * unat slot" "unat (relay_floor_ms slot) = 16 * unat slot"
proof -
  have s: "16 * unat slot < 2 ^ 32" using assms by (simp add: roomy_def)
  show "unat (window_width_ms slot) = 15 * unat slot"
    using s by (simp add: window_width_ms_def WINDOW_POSITIONS_def CW_MAX_def rust_arith)
  have "unat (16 * slot) = 16 * unat slot" using s by (simp add: unat_word_ariths)
  then show "unat (relay_floor_ms slot) = 16 * unat slot" by (simp add: relay_floor_ms_def CW_MAX_def)
qed

text \<open>
  The states of an allocator: while the window fills, nothing is on the ladder and the cursor
  stands behind the last position; afterwards the ladder has grown by one rung per take and the
  window is closed or only late rungs follow.
\<close>

definition filling :: "u32 \<Rightarrow> u32 \<Rightarrow> nat \<Rightarrow> nat \<Rightarrow> position_allocator \<Rightarrow> bool" where
  "filling slot half free n a \<longleftrightarrow> pa_ladder_start_ms a = None \<and> unat (pa_next_index a) = n \<and>
     unat (wl_placed (pa_window a)) = n \<and> n \<le> 15 \<and> pa_half_airtime_ms a = half \<and>
     wl_slot_time_ms (pa_window a) = slot \<and> wl_half_airtime_ms (pa_window a) = half \<and>
     wl_width_ms (pa_window a) = window_width_ms slot \<and> unat (wl_cursor_ms (pa_window a)) = free \<and>
     (case wl_last_placed_end_ms (pa_window a) of
        None \<Rightarrow> free = 0
      | Some l \<Rightarrow> l < window_width_ms slot \<and> (free = unat l + unat slot \<or> free = unat l + unat half))"

definition closed_window :: "window_layout \<Rightarrow> bool" where
  "closed_window w \<longleftrightarrow> WINDOW_POSITIONS \<le> wl_placed w \<or> wl_width_ms w \<le> wl_cursor_ms w"

definition climbing :: "u32 \<Rightarrow> u32 \<Rightarrow> nat \<Rightarrow> nat \<Rightarrow> take_kind list \<Rightarrow> position_allocator \<Rightarrow> bool" where
  "climbing slot half free n ks a \<longleftrightarrow> pa_half_airtime_ms a = half \<and> unat (pa_next_index a) = n \<and>
     unat (wl_placed (pa_window a)) \<le> n \<and>
     wl_slot_time_ms (pa_window a) = slot \<and> wl_half_airtime_ms (pa_window a) = half \<and>
     (closed_window (pa_window a) \<or> set ks \<subseteq> {Late_pos}) \<and>
     (\<exists>st. pa_ladder_start_ms a = Some st \<and> 16 * unat slot \<le> unat st \<and> unat st \<le> 16 * unat slot + unat half \<and>
       free = unat st + (n - unat (wl_placed (pa_window a))) * unat half)"

definition laid :: "u32 \<Rightarrow> u32 \<Rightarrow> nat \<Rightarrow> nat \<Rightarrow> take_kind list \<Rightarrow> position_allocator \<Rightarrow> bool" where
  "laid slot half free n ks a \<longleftrightarrow> filling slot half free n a \<or> climbing slot half free n ks a"

lemma closed_take:
  "closed_window w \<Longrightarrow> place w x = (w, None)" "\<not> closed_window w \<Longrightarrow> place w x =
    (w\<lparr>wl_cursor_ms := sat_add (wl_cursor_ms w) x, wl_last_placed_end_ms := Some (wl_cursor_ms w),
       wl_placed := sat_add (wl_placed w) 1\<rparr>, Some (wl_cursor_ms w))"
  by (auto simp: closed_window_def place_def Let_def)

lemma bump_index_fields [simp]:
  "pa_window (bump_index a) = pa_window a" "pa_half_airtime_ms (bump_index a) = pa_half_airtime_ms a"
  "pa_ladder_start_ms (bump_index a) = pa_ladder_start_ms a"
  "pa_next_index (bump_index a) = sat_add (pa_next_index a) 1"
  by (simp_all add: bump_index_def)

lemma sat_zero: "sat_add x (0 :: u32) = x" "sat_mul (0 :: u32) x = 0"
proof -
  have "unat x < 2 ^ LENGTH(32)" by (rule unsigned_less)
  then show "sat_add x (0 :: u32) = x" "sat_mul (0 :: u32) x = 0" by (simp_all add: sat_add_def sat_mul_def)
qed

text \<open>One more rung on the ladder.\<close>

lemma rung_step:
  assumes "roomy slot half" "climbing slot half free n ks a" "n < 255" "spill a = (a1, p)"
  shows "unat p = free" "climbing slot half (free + unat half) (Suc n) ks (bump_index a1)"
    "16 * unat slot \<le> unat p"
proof -
  let ?q = "unat (wl_placed (pa_window a))"
  obtain st where st: "pa_ladder_start_ms a = Some st" "16 * unat slot \<le> unat st"
    "unat st \<le> 16 * unat slot + unat half" "free = unat st + (n - ?q) * unat half"
    using assms(2) by (auto simp: climbing_def)
  have a: "pa_half_airtime_ms a = half" "unat (pa_next_index a) = n" "?q \<le> n"
    using assms(2) by (auto simp: climbing_def)
  have bound: "(n - ?q) * unat half \<le> 255 * unat half" using assms(3) by (intro mult_le_mono1) simp
  have room: "unat st + (n - ?q) * unat half < 2 ^ 32" using bound st(3) assms(1) unfolding roomy_def by linarith
  have rung: "unat (ucast (sat_sub (pa_next_index a) (wl_placed (pa_window a))) :: u32) = n - ?q"
    using a(2) assms(3) by (simp add: unsigned_ucast_eq take_bit_eq_mod rust_arith)
  have "a1 = a\<lparr>pa_ladder_start_ms := Some st\<rparr>"
    "p = sat_add st (sat_mul (ucast (sat_sub (pa_next_index a) (wl_placed (pa_window a)))) half)"
    using assms(4) st(1) a(1) by (simp_all add: spill_def Let_def)
  then have eq: "a1 = a" "unat p = free"
    using room st(1,4) rung by (simp_all add: rust_arith)
  show "unat p = free" by (rule eq(2))
  then show "16 * unat slot \<le> unat p" using st(2,4) by simp
  have "unat (sat_add (pa_next_index a) 1) = Suc n" using a(2) assms(3) by (simp add: rust_arith)
  moreover have "free + unat half = unat st + (Suc n - ?q) * unat half"
    using st(4) a(3) by (simp add: Suc_diff_le)
  ultimately show "climbing slot half (free + unat half) (Suc n) ks (bump_index a1)"
    using assms(2) st a(3) unfolding eq(1) by (simp add: climbing_def)
qed

text \<open>The first rung: the ladder starts behind the window and behind its last position.\<close>

lemma first_rung:
  assumes "roomy slot half" "filling slot half free n a" "closed_window (pa_window a) \<or> set ks \<subseteq> {Late_pos}"
  shows "\<exists>a1 p. spill a = (a1, p) \<and> free \<le> unat p \<and> 16 * unat slot \<le> unat p \<and>
    climbing slot half (unat p) n ks a1 \<and> spill a1 = (a1, p)"
proof -
  note r = roomy_readings [OF assms(1)]
  define st where "st = first_rung_ms (pa_window a)"
  have f: "pa_ladder_start_ms a = None" "unat (pa_next_index a) = n" "unat (wl_placed (pa_window a)) = n"
    "pa_half_airtime_ms a = half" "wl_slot_time_ms (pa_window a) = slot" "wl_half_airtime_ms (pa_window a) = half"
    using assms(2) by (simp_all add: filling_def)
  have same: "sat_sub (pa_next_index a) (wl_placed (pa_window a)) = 0"
    using f(2,3) by (simp add: word_unat_eq_iff rust_arith)
  have sp: "spill a = (a\<lparr>pa_ladder_start_ms := Some st\<rparr>, st)"
    using f same by (simp add: spill_def Let_def st_def sat_zero)
  have st: "16 * unat slot \<le> unat st \<and> unat st \<le> 16 * unat slot + unat half \<and> free \<le> unat st"
  proof (cases "wl_last_placed_end_ms (pa_window a)")
    case None
    then have "st = relay_floor_ms slot" "free = 0"
      using f assms(2) by (simp_all add: st_def first_rung_ms_def filling_def)
    then show ?thesis using r(2) by simp
  next
    case (Some l)
    have l: "unat l < 15 * unat slot" "free = unat l + unat slot \<or> free = unat l + unat half"
      using assms(2) Some r(1) by (auto simp: filling_def word_less_nat_alt)
    have "unat l + unat half < 2 ^ 32" using l(1) assms(1) by (simp add: roomy_def)
    then have "unat (sat_add l half) = unat l + unat half" by (simp add: rust_arith)
    then have "unat st = max (16 * unat slot) (unat l + unat half)"
      using Some f r(2) by (simp add: st_def first_rung_ms_def max_def word_le_nat_alt)
    then show ?thesis using l by auto
  qed
  let ?a1 = "a\<lparr>pa_ladder_start_ms := Some st\<rparr>"
  have "climbing slot half (unat st) n ks ?a1"
    using f st assms(3) by (simp add: climbing_def)
  moreover have "spill ?a1 = (?a1, st)"
    using same f by (simp add: spill_def sat_zero)
  ultimately show ?thesis using sp st by blast
qed

text \<open>A take while the window has room.\<close>

lemma place_step:
  assumes "roomy slot half" "filling slot half free n a" "\<not> closed_window (pa_window a)" "k \<noteq> Late_pos"
    "take_pos k a = (a1, p)"
  shows "unat p = free" "filling slot half (free + occupies slot half k p) (Suc n) a1"
proof -
  let ?w = "pa_window a"
  define x where "x = (if k = Reserved_pos then slot else half)"
  have f: "pa_ladder_start_ms a = None" "unat (pa_next_index a) = n" "unat (wl_placed ?w) = n"
    "pa_half_airtime_ms a = half" "wl_slot_time_ms ?w = slot" "wl_half_airtime_ms ?w = half"
    "unat (wl_cursor_ms ?w) = free" "wl_width_ms ?w = window_width_ms slot"
    using assms(2) by (simp_all add: filling_def)
  have open_w: "wl_cursor_ms ?w < window_width_ms slot" "n < 15"
    using assms(3) f by (auto simp: closed_window_def WINDOW_POSITIONS_def CW_MAX_def word_le_nat_alt word_less_nat_alt)
  have a1: "a1 = bump_index (a\<lparr>pa_window := ?w\<lparr>wl_cursor_ms := sat_add (wl_cursor_ms ?w) x,
      wl_last_placed_end_ms := Some (wl_cursor_ms ?w), wl_placed := sat_add (wl_placed ?w) 1\<rparr>\<rparr>)"
    and p: "p = wl_cursor_ms ?w"
    using assms(4,5) f(5,6)
    by (cases k; simp add: take_reserved_def take_rung_def place_reserved_def place_ranked_def
        take_placed_def closed_take(2) [OF assms(3)] x_def)+
  show up: "unat p = free" using p f(7) by simp
  have occ: "occupies slot half k p = unat x" using open_w(1) by (simp add: occupies_def x_def p)
  have "free < 15 * unat slot" using open_w(1) f(7) roomy_readings(1) [OF assms(1)] by (simp add: word_less_nat_alt)
  moreover have "unat x \<le> unat slot \<or> unat x = unat half" by (simp add: x_def)
  ultimately have "free + unat x < 2 ^ 32" using assms(1) unfolding roomy_def by linarith
  then have cur: "unat (sat_add (wl_cursor_ms ?w) x) = free + unat x" using f(7) by (simp add: rust_arith)
  have idx: "unat (sat_add (pa_next_index a) 1) = Suc n" "unat (sat_add (wl_placed ?w) 1) = Suc n"
    using f(2,3) open_w(2) by (simp_all add: rust_arith)
  have "unat x = unat slot \<or> unat x = unat half" by (simp add: x_def)
  then show "filling slot half (free + occupies slot half k p) (Suc n) a1"
    unfolding occ a1 using f cur idx open_w by (auto simp: filling_def)
qed

lemma take_closed:
  assumes "closed_window (pa_window a) \<or> k = Late_pos"
  shows "take_pos k a = (case spill a of (a, p) \<Rightarrow> (bump_index a, p))"
proof -
  have "a\<lparr>pa_window := pa_window a\<rparr> = a" by simp
  then show ?thesis
    using assms by (cases k) (auto simp: take_reserved_def take_rung_def take_late_rung_def place_reserved_def
        place_ranked_def take_placed_def closed_take(1))
qed

lemma climbing_occupies:
  assumes "roomy slot half" "16 * unat slot \<le> unat p"
  shows "occupies slot half k p = unat half"
  using assms(2) roomy_readings(1) [OF assms(1)] by (auto simp: occupies_def word_less_nat_alt)

lemma laid_step:
  assumes "roomy slot half" "laid slot half free n (k # ks) a" "n < 255" "take_pos k a = (a1, p)"
    "k = Late_pos \<Longrightarrow> set ks \<subseteq> {Late_pos}"
  shows "free \<le> unat p \<and> (k = Late_pos \<longrightarrow> 16 * unat slot \<le> unat p) \<and>
    laid slot half (unat p + occupies slot half k p) (Suc n) ks a1"
proof -
  have climb: ?thesis if c: "climbing slot half g n (k # ks) b" "spill b = (b1, p)" "a1 = bump_index b1" "free \<le> g" for g b b1
  proof -
    note s = rung_step [OF assms(1) c(1) assms(3) c(2)]
    have "climbing slot half (g + unat half) (Suc n) ks a1" using s(2) c(3) by (auto simp: climbing_def)
    then show ?thesis using s(1,3) c(4) climbing_occupies [OF assms(1) s(3)] by (auto simp: laid_def)
  qed
  show ?thesis
  proof (cases "filling slot half free n a")
    case True
    show ?thesis
    proof (cases "closed_window (pa_window a) \<or> k = Late_pos")
      case late: True
      then have "closed_window (pa_window a) \<or> set (k # ks) \<subseteq> {Late_pos}" using assms(5) by auto
      from first_rung [OF assms(1) True this] obtain b q where
        b: "spill a = (b, q)" "free \<le> unat q" "climbing slot half (unat q) n (k # ks) b" "spill b = (b, q)" by blast
      then have "a1 = bump_index b" "q = p" using assms(4) take_closed [OF late] by simp_all
      then show ?thesis using climb [of "unat q" b b] b by simp
    next
      case False
      then have "\<not> closed_window (pa_window a)" "k \<noteq> Late_pos" by auto
      from place_step [OF assms(1) True this assms(4)] show ?thesis using False by (auto simp: laid_def)
    qed
  next
    case False
    then have c: "climbing slot half free n (k # ks) a" using assms(2) by (simp add: laid_def)
    then have "closed_window (pa_window a) \<or> k = Late_pos" by (auto simp: climbing_def)
    then show ?thesis using climb [OF c] take_closed assms(4) by (cases "spill a") auto
  qed
qed

text \<open>Late rungs, once asked for, are all that follows.\<close>

fun late_last :: "take_kind list \<Rightarrow> bool" where
  "late_last [] = True"
| "late_last (k # ks) = ((k = Late_pos \<longrightarrow> set ks \<subseteq> {Late_pos}) \<and> late_last ks)"

lemma take_all_spaced:
  assumes "roomy slot half" "laid slot half free n ks a" "n + length ks \<le> 255" "late_last ks"
    "take_all ks a = (a', ps)"
  shows "spaced_from slot half free ks ps \<and> laid slot half (free_after slot half free ks ps) (n + length ks) [] a'"
  using assms(2-5)
proof (induction ks arbitrary: free n a ps)
  case (Cons k ks)
  obtain a1 p where t: "take_pos k a = (a1, p)" by (cases "take_pos k a")
  obtain qs where q: "take_all ks a1 = (a', qs)" "ps = p # qs"
    using Cons.prems(4) t by (auto split: prod.splits)
  have n: "n < 255" "Suc n + length ks \<le> 255" using Cons.prems(2) by simp_all
  have "late_last ks" "k = Late_pos \<Longrightarrow> set ks \<subseteq> {Late_pos}" using Cons.prems(3) by auto
  from laid_step [OF assms(1) Cons.prems(1) n(1) t this(2)] Cons.IH [OF _ n(2) this(1) q(1)]
  show ?case using q(2) by auto
qed simp

lemma laid_new: "laid slot half 0 0 ks (allocator_new slot half)"
  by (simp add: laid_def filling_def allocator_new_def window_new_def)

text \<open>
  C23. The relays of a packet keep apart. When reservations and early rungs are taken before late
  ones, at most 255 in all and nothing reaches the end of the clock, every position begins after
  the previous one has passed: one slot after a reservation inside the window, half the time on
  air after any other; and no late rung lies inside the window of the uncoordinated routers.
\<close>

theorem positions_keep_apart:
  assumes "16 * unat slot + 256 * unat half < 2 ^ 32" "length ks \<le> 255" "late_last ks"
  shows "spaced_from slot half 0 ks (snd (take_all ks (allocator_new slot half)))"
proof -
  obtain a ps where t: "take_all ks (allocator_new slot half) = (a, ps)"
    by (cases "take_all ks (allocator_new slot half)")
  then show ?thesis using take_all_spaced [OF _ laid_new _ assms(3) t] assms(1,2) by (simp add: roomy_def)
qed

theorem positions_keep_apart_witness:
  "spaced_from 20 100 0 [Reserved_pos, Rung_pos, Rung_pos, Rung_pos, Rung_pos, Late_pos]
     (snd (take_all [Reserved_pos, Rung_pos, Rung_pos, Rung_pos, Rung_pos, Late_pos] (allocator_new 20 100))) \<and>
   snd (take_all [Reserved_pos, Rung_pos, Rung_pos, Rung_pos, Rung_pos, Late_pos] (allocator_new 20 100)) =
     [0, 20, 120, 220, 320, 420]"
proof
  show "spaced_from 20 100 0 [Reserved_pos, Rung_pos, Rung_pos, Rung_pos, Rung_pos, Late_pos]
     (snd (take_all [Reserved_pos, Rung_pos, Rung_pos, Rung_pos, Rung_pos, Late_pos] (allocator_new 20 100)))"
    by (rule positions_keep_apart) simp_all
  show "snd (take_all [Reserved_pos, Rung_pos, Rung_pos, Rung_pos, Rung_pos, Late_pos] (allocator_new 20 100)) =
     [0, 20, 120, 220, 320, 420]"
    by (simp add: allocator_new_def window_new_def take_reserved_def take_rung_def take_late_rung_def
        take_placed_def place_reserved_def place_ranked_def place_def spill_def first_rung_ms_def bump_index_def
        window_width_ms_def relay_floor_ms_def WINDOW_POSITIONS_def CW_MAX_def sat_add_def sat_mul_def sat_sub_def)
      (simp add: word_le_nat_alt)
qed

text \<open>
  C37. The free position is not free when only late rungs were taken: it is the position of the
  first of them, although the index handed out with it is that of a later one.
\<close>

theorem first_free_meets_first_late_rung:
  assumes "0 < n"
  shows "snd (first_free_ms (fst (take_all (replicate n Late_pos) (allocator_new slot half)))) =
    hd (snd (take_all (replicate n Late_pos) (allocator_new slot half)))"
proof -
  have w: "pa_window (fst (take_all (replicate n Late_pos) a)) = pa_window a" for n a
  proof (induction n arbitrary: a)
    case (Suc n)
    have "pa_window (fst (take_pos Late_pos a)) = pa_window a"
      by (simp add: take_late_rung_def spill_def Let_def)
    then show ?case using Suc [of "fst (take_pos Late_pos a)"] by (auto split: prod.splits)
  qed simp
  obtain k where k: "n = Suc k" using assms by (cases n) auto
  have "hd (snd (take_all (replicate n Late_pos) a)) = snd (take_late_rung a)" for a
    unfolding k by (simp split: prod.splits)
  moreover have "snd (take_late_rung (allocator_new slot half)) = first_rung_ms (window_new slot half)"
    by (simp add: take_late_rung_def spill_def allocator_new_def window_new_def Let_def sat_sub_def sat_zero)
  ultimately show ?thesis
    using w [of n "allocator_new slot half"]
    by (simp add: first_free_ms_def window_is_empty_def allocator_new_def window_new_def)
qed

theorem first_free_meets_first_late_rung_witness:
  "snd (first_free_ms (fst (take_all (replicate 2 Late_pos) (allocator_new 20 100)))) =
     hd (snd (take_all (replicate 2 Late_pos) (allocator_new 20 100)))"
  by (rule first_free_meets_first_late_rung) simp

section \<open>Access to the channel\<close>

datatype channel_event = RxHeard nat u32 | TxDone nat

fun event_time :: "channel_event \<Rightarrow> nat" where
  "event_time (RxHeard t b) = t" | "event_time (TxDone t) = t"

fun event_end :: "channel_event \<Rightarrow> nat" where
  "event_end (RxHeard t b) = t + max (unat b) 250" | "event_end (TxDone t) = t + 100"

fun note_event :: "channel_event \<Rightarrow> channel_access \<Rightarrow> channel_access" where
  "note_event (RxHeard t b) c = note_rx c (of_nat t) b"
| "note_event (TxDone t) c = note_tx_done c (of_nat t)"

text \<open>The events of a stretch of time shorter than half the clock's period, in order.\<close>

fun in_order :: "nat \<Rightarrow> nat \<Rightarrow> channel_event list \<Rightarrow> bool" where
  "in_order origin t [] = True"
| "in_order origin t (e # es) =
     (t \<le> event_time e \<and> event_end e < origin + 2 ^ 31 \<and> in_order origin (event_time e) es)"

text \<open>Differences of clock readings within half a period.\<close>

lemma clock_after:
  assumes "origin \<le> a" "a < origin + 2 ^ 31" "origin \<le> b" "b < origin + 2 ^ 31"
  shows "((of_nat a :: u32) - of_nat b < 0x80000000) = (b \<le> a)" "((of_nat a :: u32) = of_nat b) = (a = b)"
proof -
  have rd: "unat (of_nat d :: u32) = d" if "d < 2 ^ 32" for d using that by (simp add: unat_of_nat)
  have "((of_nat a :: u32) - of_nat b < 0x80000000) = (b \<le> a) \<and> ((of_nat a :: u32) - of_nat b = 0) = (a = b)"
  proof (cases "b \<le> a")
    case True
    define d where "d = a - b"
    have d: "a = b + d" "d < 2 ^ 31" using True assms by (auto simp: d_def)
    then show ?thesis using rd [of d] by (simp add: word_less_nat_alt word_unat_eq_iff)
  next
    case False
    define d where "d = b - a"
    have d: "b = a + d" "0 < d" "d < 2 ^ 31" using False assms by (auto simp: d_def)
    have "(of_nat (2 ^ 32 - d) :: u32) + of_nat d = of_nat (2 ^ 32)"
      using d(3) by (simp only: of_nat_add [symmetric]) simp
    also have "\<dots> = 0" by simp
    finally have "(of_nat (2 ^ 32 - d) :: u32) = - of_nat d" by (simp only: eq_neg_iff_add_eq_0)
    then have "(of_nat a :: u32) - of_nat b = of_nat (2 ^ 32 - d)" unfolding d(1) by simp
    moreover have "unat (of_nat (2 ^ 32 - d) :: u32) = 2 ^ 32 - d" using d(2) by (intro rd) simp
    ultimately show ?thesis using d(2,3) False by (simp add: word_less_nat_alt word_unat_eq_iff d(1))
  qed
  then show "((of_nat a :: u32) - of_nat b < 0x80000000) = (b \<le> a)" "((of_nat a :: u32) = of_nat b) = (a = b)"
    by auto
qed

definition ca_inv :: "nat \<Rightarrow> nat \<Rightarrow> nat set \<Rightarrow> channel_access \<Rightarrow> bool" where
  "ca_inv origin t E c \<longleftrightarrow> origin \<le> t \<and>
     (if ca_holding c then \<exists>m \<in> E. (\<forall>e \<in> E. e \<le> m) \<and> origin \<le> m \<and> m < origin + 2 ^ 31 \<and> ca_hold_until_ms c = of_nat m
      else \<forall>e \<in> E. e \<le> t)"

lemma ca_inv_new: "ca_inv origin origin {} ca_new"
  by (simp add: ca_inv_def ca_new_def)

lemma ca_extend_inv:
  assumes "ca_inv origin t E c" "t \<le> now" "now < end_ms" "end_ms < origin + 2 ^ 31"
  shows "ca_inv origin now (insert end_ms E) (ca_extend c (of_nat end_ms) (of_nat now))"
proof -
  have o: "origin \<le> now" using assms(1,2) by (simp add: ca_inv_def)
  have c: "((of_nat x :: u32) - of_nat y < 0x80000000) = (y \<le> x)" "((of_nat x :: u32) = of_nat y) = (x = y)"
    if "origin \<le> x" "x < origin + 2 ^ 31" "origin \<le> y" "y < origin + 2 ^ 31" for x y
    using clock_after that by blast+
  show ?thesis
  proof (cases "ca_holding c")
    case False
    have "ca_extend c (of_nat end_ms) (of_nat now) = c\<lparr>ca_hold_until_ms := of_nat end_ms, ca_holding := True\<rparr>"
      using False c [of end_ms now] assms(3,4) o by (simp add: ca_extend_def Let_def)
    moreover have "\<forall>e \<in> E. e \<le> end_ms" using assms(1-3) False by (auto simp: ca_inv_def)
    ultimately show ?thesis using assms(3,4) o by (auto simp: ca_inv_def)
  next
    case True
    then obtain m where m: "m \<in> E" "\<forall>e \<in> E. e \<le> m" "origin \<le> m" "m < origin + 2 ^ 31" "ca_hold_until_ms c = of_nat m"
      using assms(1) by (auto simp: ca_inv_def)
    show ?thesis
    proof (cases "m \<le> end_ms")
      case le: True
      have "ca_extend c (of_nat end_ms) (of_nat now) = c\<lparr>ca_hold_until_ms := of_nat end_ms, ca_holding := True\<rparr>"
        using True le c [of end_ms now] c [of end_ms m] m assms(3,4) o by (simp add: ca_extend_def Let_def)
      then show ?thesis using le m assms(3,4) o by (auto simp: ca_inv_def)
    next
      case False
      have "ca_extend c (of_nat end_ms) (of_nat now) = c\<lparr>ca_holding := True\<rparr>"
        using True False c [of end_ms m] c [of m now] m assms(3,4) o by (simp add: ca_extend_def Let_def)
      moreover have "\<forall>e \<in> insert end_ms E. e \<le> m" using False m(2) by auto
      ultimately show ?thesis
        using m o unfolding ca_inv_def by (auto intro!: bexI [of _ m] simp del: of_nat_numeral)
    qed
  qed
qed

lemma note_event_inv:
  assumes "ca_inv origin t E c" "t \<le> event_time e" "event_end e < origin + 2 ^ 31"
  shows "ca_inv origin (event_time e) (insert (event_end e) E) (note_event e c)"
proof (cases e)
  case (RxHeard s b)
  have "of_nat s + max b 250 = (of_nat (s + max (unat b) 250) :: u32)" by (simp add: max_def word_le_nat_alt)
  then show ?thesis
    using ca_extend_inv [OF assms(1), of s "s + max (unat b) 250"] assms(2,3) RxHeard
    by (simp add: note_rx_def PEER_TURNAROUND_MS_def)
next
  case (TxDone s)
  then show ?thesis
    using ca_extend_inv [OF assms(1), of s "s + 100"] assms(2,3) by (simp add: note_tx_done_def TX_GAP_MS_def)
qed

lemma note_events_inv:
  "ca_inv origin t E c \<Longrightarrow> in_order origin t es \<Longrightarrow>
   ca_inv origin (last (t # map event_time es)) (E \<union> event_end ` set es) (fold note_event es c)"
proof (induction es arbitrary: t E c)
  case (Cons e es)
  have "ca_inv origin (event_time e) (insert (event_end e) E) (note_event e c)"
    using Cons.prems by (intro note_event_inv) auto
  from Cons.IH [OF this] Cons.prems(2) show ?case by simp
qed simp

text \<open>
  C25. A radio may send exactly when every hold has passed. However receptions and transmissions
  follow each other within half a period of the clock, and wherever the clock wraps, a later
  question is answered with yes if and only if the turnaround and contention time of every
  reception and the gap after every transmission are over.
\<close>

theorem channel_clear_iff_holds_passed:
  assumes "in_order origin origin es" "\<forall>e \<in> set es. event_time e \<le> now" "origin \<le> now" "now < origin + 2 ^ 31"
  shows "snd (may_transmit (fold note_event es ca_new) (of_nat now)) \<longleftrightarrow> (\<forall>e \<in> set es. event_end e \<le> now)"
proof -
  let ?c = "fold note_event es ca_new"
  have inv: "ca_inv origin (last (origin # map event_time es)) (event_end ` set es) ?c"
    using note_events_inv [OF ca_inv_new assms(1)] by simp
  have t: "last (origin # map event_time es) \<le> now" using assms(2,3) by (auto simp: last_map)
  show ?thesis
  proof (cases "ca_holding ?c")
    case False
    then show ?thesis using inv t by (auto simp: ca_inv_def may_transmit_def Let_def intro: order_trans)
  next
    case True
    then obtain m where m: "m \<in> event_end ` set es" "\<forall>e \<in> event_end ` set es. e \<le> m" "origin \<le> m"
      "m < origin + 2 ^ 31" "ca_hold_until_ms ?c = of_nat m" using inv by (auto simp: ca_inv_def)
    have "snd (may_transmit ?c (of_nat now)) \<longleftrightarrow> m \<le> now"
      using True m clock_after(1) [OF assms(3,4) m(3,4)] by (simp add: may_transmit_def Let_def)
    then show ?thesis using m(1,2) by (auto intro: order_trans)
  qed
qed

theorem channel_clear_iff_holds_passed_witness:
  "snd (may_transmit (fold note_event [RxHeard 4294967000 40, TxDone 4294967200] ca_new) (of_nat 4294967300)) \<longleftrightarrow>
     list_all (\<lambda>e. event_end e \<le> 4294967300) [RxHeard 4294967000 40, TxDone 4294967200]"
  using channel_clear_iff_holds_passed [of 4294967000 "[RxHeard 4294967000 40, TxDone 4294967200]" 4294967300]
  by (simp add: list_all_iff)

end
