(* ===== verification/Reliable.thy ===== *)
theory Reliable
  imports Pool
begin

text \<open>
  Frames sent until they are acknowledged (\<open>reliable.rs\<close>) and what the router tells the slots
  about the fate of a transmission (the loops over \<open>pending_reliable\<close> in \<open>router.rs\<close>). A packet is
  sent again at most as often as it was scheduled for, and always as it was scheduled.
\<close>

section \<open>Slots\<close>

definition MAX_PENDING_RELIABLE :: nat where "MAX_PENDING_RELIABLE = 4"
definition NAMED_FOLLOWUP_TRIES :: u8 where "NAMED_FOLLOWUP_TRIES = 2"
definition MAX_WIRE_LEN :: nat where "MAX_WIRE_LEN = PACKET_HEADER_LEN + MAX_PACKET_PAYLOAD"

record named_followup_info =
  nf_nominated_hop :: u32
  nf_nominated_byte :: u8
  nf_upstream :: u32
  nf_delay_ms :: u32
  nf_redirect_on_last :: bool

record pending_reliable =
  pr_active :: bool
  pr_from :: u32
  pr_packet_id :: u32
  pr_to :: u32
  pr_relayed :: bool
  pr_named :: "named_followup_info option"
  pr_num_retx :: u8
  pr_awaiting_tx :: bool
  pr_has_transmitted :: bool
  pr_retx_delay_ms :: u32
  pr_next_tx_ms :: u32
  pr_len :: u8
  pr_bytes :: "u8 list"

definition pr_inactive :: pending_reliable where
  "pr_inactive = \<lparr>pr_active = False, pr_from = 0, pr_packet_id = 0, pr_to = 0, pr_relayed = False,
     pr_named = None, pr_num_retx = 0, pr_awaiting_tx = False, pr_has_transmitted = False,
     pr_retx_delay_ms = 0, pr_next_tx_ms = 0, pr_len = 0, pr_bytes = replicate MAX_WIRE_LEN 0\<rparr>"

definition slots_new :: "pending_reliable list" where
  "slots_new = replicate MAX_PENDING_RELIABLE pr_inactive"

text \<open>\<open>s.active && s.from == from && s.packet_id == packet_id\<close>.\<close>

definition is_pending :: "u32 \<Rightarrow> u32 \<Rightarrow> pending_reliable \<Rightarrow> bool" where
  "is_pending frm pid s \<longleftrightarrow> pr_active s \<and> pr_from s = frm \<and> pr_packet_id s = pid"

definition schedule_reliable ::
  "pending_reliable list \<Rightarrow> u32 \<Rightarrow> u32 \<Rightarrow> u32 \<Rightarrow> bool \<Rightarrow> u8 \<Rightarrow> u8 list \<Rightarrow> u32 \<Rightarrow> u32 \<Rightarrow> u8 \<Rightarrow>
   named_followup_info option \<Rightarrow> pending_reliable list \<times> bool" where
  "schedule_reliable slots frm pid to relayed len bytes retx_delay_ms now_ms num_retx named =
     (if list_ex (is_pending frm pid) slots then (slots, True)
      else
        (case position (\<lambda>s. \<not> pr_active s) slots of
           None \<Rightarrow> (slots, False)
         | Some idx \<Rightarrow>
             (slots[idx := \<lparr>pr_active = True, pr_from = frm, pr_packet_id = pid, pr_to = to,
                pr_relayed = relayed, pr_named = named, pr_num_retx = num_retx, pr_awaiting_tx = True,
                pr_has_transmitted = False, pr_retx_delay_ms = retx_delay_ms, pr_next_tx_ms = 0,
                pr_len = len, pr_bytes = bytes\<rparr>], True)))"

definition named_followup :: "pending_reliable list \<Rightarrow> u32 \<Rightarrow> u32 \<Rightarrow> named_followup_info option" where
  "named_followup slots frm pid = Option.bind (find (is_pending frm pid) slots) pr_named"

fun stop_loop ::
  "u32 \<Rightarrow> u32 \<Rightarrow> pending_reliable list \<Rightarrow> (u32 \<times> u32) option \<Rightarrow>
   pending_reliable list \<times> (u32 \<times> u32) option" where
  "stop_loop frm pid [] stopped = ([], stopped)"
| "stop_loop frm pid (s # ss) stopped =
     (if is_pending frm pid s then
        (case stop_loop frm pid ss
            (Some (pr_to s, case pr_named s of None \<Rightarrow> 0 | Some n \<Rightarrow> nf_nominated_hop n)) of
           (ss, r) \<Rightarrow> (s\<lparr>pr_active := False\<rparr> # ss, r))
      else (case stop_loop frm pid ss stopped of (ss, r) \<Rightarrow> (s # ss, r)))"

definition stop_reliable_for ::
  "pending_reliable list \<Rightarrow> u32 \<Rightarrow> u32 \<Rightarrow> pending_reliable list \<times> (u32 \<times> u32) option" where
  "stop_reliable_for slots frm pid = stop_loop frm pid slots None"

definition bump_reliable_delays :: "pending_reliable list \<Rightarrow> u32 \<Rightarrow> pending_reliable list" where
  "bump_reliable_delays slots airtime_ms =
     map (\<lambda>s. if pr_active s \<and> \<not> pr_awaiting_tx s
              then s\<lparr>pr_next_tx_ms := pr_next_tx_ms s + airtime_ms\<rparr> else s) slots"

record due_info =
  du_from :: u32
  du_packet_id :: u32
  du_to :: u32
  du_relayed :: bool
  du_named :: "named_followup_info option"
  du_redirect :: bool
  du_len :: u8
  du_bytes :: "u8 list"

fun due_retransmit ::
  "pending_reliable list \<Rightarrow> u32 \<Rightarrow> (u32 \<Rightarrow> u32 \<Rightarrow> u8 \<Rightarrow> u32) \<Rightarrow>
   pending_reliable list \<times> due_info option" where
  "due_retransmit [] now_ms retx_delay_for = ([], None)"
| "due_retransmit (s # ss) now_ms retx_delay_for =
     (if \<not> pr_active s \<or> pr_awaiting_tx s \<or> 0x80000000 \<le> now_ms - pr_next_tx_ms s then
        (case due_retransmit ss now_ms retx_delay_for of (ss, r) \<Rightarrow> (s # ss, r))
      else if pr_num_retx s = 0 then
        (case due_retransmit ss now_ms retx_delay_for of (ss, r) \<Rightarrow> (s\<lparr>pr_active := False\<rparr> # ss, r))
      else
        let s = s\<lparr>pr_num_retx := pr_num_retx s - 1\<rparr>;
            delay = (case pr_named s of
                       Some n \<Rightarrow> nf_delay_ms n
                     | None \<Rightarrow> retx_delay_for (pr_from s) (pr_packet_id s) (pr_len s));
            s = s\<lparr>pr_awaiting_tx := True, pr_retx_delay_ms := delay, pr_next_tx_ms := 0\<rparr>;
            redirect = ((case pr_named s of None \<Rightarrow> False | Some n \<Rightarrow> nf_redirect_on_last n)
                        \<and> pr_num_retx s = 0);
            s = (if redirect then s\<lparr>pr_active := False\<rparr> else s)
        in (s # ss,
            Some \<lparr>du_from = pr_from s, du_packet_id = pr_packet_id s, du_to = pr_to s,
              du_relayed = pr_relayed s, du_named = pr_named s, du_redirect = redirect,
              du_len = pr_len s, du_bytes = pr_bytes s\<rparr>))"

section \<open>The fate of a transmission\<close>

definition sent_slot :: "u32 \<Rightarrow> u32 \<Rightarrow> u32 \<Rightarrow> pending_reliable \<Rightarrow> pending_reliable" where
  "sent_slot frm pid now_ms s =
     (if is_pending frm pid s \<and> pr_awaiting_tx s
      then s\<lparr>pr_has_transmitted := True, pr_awaiting_tx := False,
             pr_next_tx_ms := now_ms + pr_retx_delay_ms s\<rparr>
      else s)"

definition reliable_tx_done :: "pending_reliable list \<Rightarrow> u32 \<Rightarrow> u32 \<Rightarrow> u32 \<Rightarrow> pending_reliable list" where
  "reliable_tx_done slots frm pid now_ms = (if pid \<noteq> 0 then map (sent_slot frm pid now_ms) slots else slots)"

definition note_tx_failure :: "pending_reliable list \<Rightarrow> u32 \<Rightarrow> u32 \<Rightarrow> u32 \<Rightarrow> pending_reliable list" where
  "note_tx_failure slots frm pid now_ms = map (sent_slot frm pid now_ms) slots"

definition note_tx_queue_rejected :: "pending_reliable list \<Rightarrow> u32 \<Rightarrow> u32 \<Rightarrow> u32 \<Rightarrow> pending_reliable list" where
  "note_tx_queue_rejected slots frm pid now_ms =
     map (\<lambda>s. if \<not> is_pending frm pid s then s
              else if pr_has_transmitted s then
                (if pr_awaiting_tx s
                 then s\<lparr>pr_num_retx := sat_add (pr_num_retx s) 1, pr_awaiting_tx := False,
                        pr_next_tx_ms := now_ms\<rparr>
                 else s)
              else s\<lparr>pr_active := False\<rparr>) slots"

definition has_pending_reliable :: "pending_reliable list \<Rightarrow> u32 \<Rightarrow> bool" where
  "has_pending_reliable slots pid \<longleftrightarrow> list_ex (\<lambda>s. pr_active s \<and> pr_packet_id s = pid) slots"

section \<open>Runs\<close>

text \<open>What happens to the slots between two schedulings of a packet.\<close>

datatype reliable_event =
    EvSchedule u32 u32 u32 bool u8 "u8 list" u32 u32 u8 "named_followup_info option"
  | EvStop u32 u32
  | EvBump u32
  | EvDue u32
  | EvSent u32 u32 u32
  | EvFailed u32 u32 u32
  | EvRejected u32 u32 u32

fun run_event ::
  "(u32 \<Rightarrow> u32 \<Rightarrow> u8 \<Rightarrow> u32) \<Rightarrow> reliable_event \<Rightarrow> pending_reliable list \<Rightarrow>
   pending_reliable list \<times> due_info option" where
  "run_event delay (EvSchedule frm pid to relayed len bytes d now n named) ss =
     (fst (schedule_reliable ss frm pid to relayed len bytes d now n named), None)"
| "run_event delay (EvStop frm pid) ss = (fst (stop_reliable_for ss frm pid), None)"
| "run_event delay (EvBump airtime) ss = (bump_reliable_delays ss airtime, None)"
| "run_event delay (EvDue now) ss = due_retransmit ss now delay"
| "run_event delay (EvSent frm pid now) ss = (reliable_tx_done ss frm pid now, None)"
| "run_event delay (EvFailed frm pid now) ss = (note_tx_failure ss frm pid now, None)"
| "run_event delay (EvRejected frm pid now) ss = (note_tx_queue_rejected ss frm pid now, None)"

fun run_events ::
  "(u32 \<Rightarrow> u32 \<Rightarrow> u8 \<Rightarrow> u32) \<Rightarrow> reliable_event list \<Rightarrow> pending_reliable list \<Rightarrow>
   pending_reliable list \<times> due_info list" where
  "run_events delay [] ss = (ss, [])"
| "run_events delay (e # es) ss =
     (case run_event delay e ss of
        (ss, d) \<Rightarrow> (case run_events delay es ss of
          (ss, ds) \<Rightarrow> (ss, (case d of None \<Rightarrow> ds | Some d \<Rightarrow> d # ds))))"

definition schedules :: "u32 \<Rightarrow> u32 \<Rightarrow> reliable_event \<Rightarrow> bool" where
  "schedules frm pid e \<longleftrightarrow>
     (case e of EvSchedule f i _ _ _ _ _ _ _ _ \<Rightarrow> f = frm \<and> i = pid | _ \<Rightarrow> False)"

definition rejects :: "u32 \<Rightarrow> u32 \<Rightarrow> reliable_event \<Rightarrow> bool" where
  "rejects frm pid e \<longleftrightarrow> (case e of EvRejected f i _ \<Rightarrow> f = frm \<and> i = pid | _ \<Rightarrow> False)"

definition due_for :: "u32 \<Rightarrow> u32 \<Rightarrow> due_info \<Rightarrow> bool" where
  "due_for frm pid d \<longleftrightarrow> du_from d = frm \<and> du_packet_id d = pid"

section \<open>The budget of a packet\<close>

definition credit :: "u32 \<Rightarrow> u32 \<Rightarrow> pending_reliable list \<Rightarrow> nat" where
  "credit frm pid ss = sum_list (map (\<lambda>s. if is_pending frm pid s then unat (pr_num_retx s) else 0) ss)"

definition held :: "u32 \<Rightarrow> u32 \<Rightarrow> pending_reliable list \<Rightarrow> nat" where
  "held frm pid ss = length (filter (is_pending frm pid) ss)"

definition carries :: "u32 \<Rightarrow> u32 \<Rightarrow> u32 \<times> u8 \<times> u8 list \<Rightarrow> pending_reliable list \<Rightarrow> bool" where
  "carries frm pid f ss \<longleftrightarrow> list_all (\<lambda>s. is_pending frm pid s \<longrightarrow> (pr_to s, pr_len s, pr_bytes s) = f) ss"

lemma pending_Cons [simp]:
  "credit frm pid (s # ss) = (if is_pending frm pid s then unat (pr_num_retx s) else 0) + credit frm pid ss"
  "held frm pid (s # ss) = (if is_pending frm pid s then 1 else 0) + held frm pid ss"
  "carries frm pid f (s # ss) \<longleftrightarrow>
     (is_pending frm pid s \<longrightarrow> (pr_to s, pr_len s, pr_bytes s) = f) \<and> carries frm pid f ss"
  by (simp_all add: credit_def held_def carries_def)

lemma pending_Nil [simp]: "credit frm pid [] = 0" "held frm pid [] = 0" "carries frm pid f []"
  by (simp_all add: credit_def held_def carries_def)

text \<open>A slot that keeps its packet, or lets go of it.\<close>

definition keeps_slot :: "nat \<Rightarrow> pending_reliable \<Rightarrow> pending_reliable \<Rightarrow> bool" where
  "keeps_slot k s t \<longleftrightarrow> (pr_active t \<longrightarrow> pr_active s) \<and> pr_from t = pr_from s \<and> pr_packet_id t = pr_packet_id s \<and>
     pr_to t = pr_to s \<and> pr_len t = pr_len s \<and> pr_bytes t = pr_bytes s \<and>
     unat (pr_num_retx t) \<le> unat (pr_num_retx s) + k"

definition spends :: "u32 \<Rightarrow> u32 \<Rightarrow> nat \<Rightarrow> nat \<Rightarrow> pending_reliable list \<Rightarrow> pending_reliable list \<Rightarrow> bool" where
  "spends frm pid given sent ss ts \<longleftrightarrow> held frm pid ts \<le> held frm pid ss \<and>
     credit frm pid ts + sent \<le> credit frm pid ss + given * held frm pid ss \<and>
     (\<forall>f. carries frm pid f ss \<longrightarrow> carries frm pid f ts)"

lemma keeps_spends:
  assumes "list_all2 (keeps_slot k) ss ts"
  shows "spends frm pid k 0 ss ts"
  using assms
proof (induction rule: list_all2_induct)
  case (Cons s ss t ts)
  then show ?case by (auto simp: spends_def keeps_slot_def is_pending_def algebra_simps)
qed (simp add: spends_def)

lemma map_spends: "(\<And>s. keeps_slot k s (g s)) \<Longrightarrow> spends frm pid k 0 ss (map g ss)"
  by (rule keeps_spends) (simp add: list_all2_map2 list_all2_conv_all_nth)

lemma stop_loop_keeps: "list_all2 (keeps_slot 0) ss (fst (stop_loop frm pid ss r))"
proof (induction frm pid ss r rule: stop_loop.induct)
  case (2 frm pid s ss r)
  then show ?case by (auto simp: keeps_slot_def split: prod.splits)
qed simp

lemma due_spends:
  assumes "due_retransmit ss now delay = (ts, d)"
  shows "spends frm pid 0 (case d of Some x \<Rightarrow> (if due_for frm pid x then 1 else 0) | None \<Rightarrow> 0) ss ts \<and>
    (\<forall>f x. carries frm pid f ss \<longrightarrow> d = Some x \<longrightarrow> due_for frm pid x \<longrightarrow> (du_to x, du_len x, du_bytes x) = f)"
  using assms
proof (induction ss arbitrary: ts)
  case Nil
  then show ?case by (auto simp: spends_def)
next
  case (Cons s ss)
  show ?case
  proof (cases "\<not> pr_active s \<or> pr_awaiting_tx s \<or> 0x80000000 \<le> now - pr_next_tx_ms s \<or> pr_num_retx s = 0")
    case True
    then obtain us t where u: "due_retransmit ss now delay = (us, d)" "ts = t # us" "keeps_slot 0 s t"
      using Cons.prems by (auto simp: keeps_slot_def split: prod.splits if_splits)
    from Cons.IH [OF u(1)] u(2,3) show ?thesis
      by (auto simp: spends_def keeps_slot_def is_pending_def)
  next
    case False
    then have "pr_num_retx s \<noteq> 0" "0 < unat (pr_num_retx s)" by (simp_all add: unat_gt_0)
    then have n: "unat (pr_num_retx s - 1) + 1 = unat (pr_num_retx s)" by (simp add: unat_minus_one)
    obtain t x where t: "ts = t # ss" "d = Some x" "pr_num_retx t = pr_num_retx s - 1" "pr_active t \<longrightarrow> pr_active s"
      "pr_from t = pr_from s" "pr_packet_id t = pr_packet_id s" "pr_to t = pr_to s" "pr_len t = pr_len s"
      "pr_bytes t = pr_bytes s" "du_from x = pr_from s" "du_packet_id x = pr_packet_id s"
      "(du_to x, du_len x, du_bytes x) = (pr_to s, pr_len s, pr_bytes s)"
      using Cons.prems False by (auto simp: Let_def split: if_splits option.splits)
    then show ?thesis using n False by (auto simp: spends_def due_for_def is_pending_def)
  qed
qed

lemma schedule_spends:
  assumes "\<not> (f = frm \<and> i = pid)"
  shows "spends frm pid 0 0 ss (fst (schedule_reliable ss f i to relayed len bytes d now n named))"
proof (cases "position (\<lambda>s. \<not> pr_active s) ss")
  case None
  then show ?thesis by (simp add: schedule_reliable_def spends_def)
next
  case (Some k)
  define t where "t = \<lparr>pr_active = True, pr_from = f, pr_packet_id = i, pr_to = to,
    pr_relayed = relayed, pr_named = named, pr_num_retx = n, pr_awaiting_tx = True,
    pr_has_transmitted = False, pr_retx_delay_ms = d, pr_next_tx_ms = 0, pr_len = len, pr_bytes = bytes\<rparr>"
  have k: "k < length ss" "\<not> is_pending frm pid (ss ! k)" using position_SomeD [OF Some] by (auto simp: is_pending_def)
  have t: "\<not> is_pending frm pid t" using assms by (auto simp: t_def is_pending_def)
  have "spends frm pid 0 0 ss (ss[k := t])"
    using k t
  proof (induction ss arbitrary: k)
    case (Cons s ss)
    then show ?case by (cases k) (auto simp: spends_def)
  qed simp
  then show ?thesis by (simp add: schedule_reliable_def Some t_def [symmetric] spends_def)
qed

lemma run_event_spends:
  assumes "\<not> schedules frm pid e" "run_event delay e ss = (ts, d)"
  shows "spends frm pid (if rejects frm pid e then 1 else 0)
      (case d of Some x \<Rightarrow> (if due_for frm pid x then 1 else 0) | None \<Rightarrow> 0) ss ts \<and>
    (\<forall>f x. carries frm pid f ss \<longrightarrow> d = Some x \<longrightarrow> due_for frm pid x \<longrightarrow> (du_to x, du_len x, du_bytes x) = f)"
proof (cases e)
  case (EvSchedule f i to relayed len bytes dl now n named)
  then show ?thesis using assms schedule_spends [of f frm i pid] by (auto simp: schedules_def rejects_def)
next
  case (EvStop f i)
  then show ?thesis
    using assms keeps_spends [OF stop_loop_keeps] by (auto simp: rejects_def stop_reliable_for_def)
next
  case (EvBump a)
  then show ?thesis
    using assms map_spends [of 0] by (auto simp: rejects_def bump_reliable_delays_def keeps_slot_def)
next
  case (EvDue now)
  then show ?thesis using due_spends assms by (auto simp: rejects_def)
next
  case (EvSent f i now)
  have "spends frm pid 0 0 ss (map (sent_slot f i now) ss)"
    by (rule map_spends) (auto simp: sent_slot_def keeps_slot_def)
  then show ?thesis using assms EvSent by (auto simp: rejects_def reliable_tx_done_def spends_def split: if_splits)
next
  case (EvFailed f i now)
  have "spends frm pid 0 0 ss (map (sent_slot f i now) ss)"
    by (rule map_spends) (auto simp: sent_slot_def keeps_slot_def)
  then show ?thesis using assms EvFailed by (auto simp: rejects_def note_tx_failure_def)
next
  case (EvRejected f i now)
  let ?g = "\<lambda>s. if \<not> is_pending f i s then s
              else if pr_has_transmitted s then
                (if pr_awaiting_tx s
                 then s\<lparr>pr_num_retx := sat_add (pr_num_retx s) 1, pr_awaiting_tx := False,
                        pr_next_tx_ms := now\<rparr>
                 else s)
              else s\<lparr>pr_active := False\<rparr>"
  have one: "spends frm pid 1 0 ss (map ?g ss)"
    by (rule map_spends) (auto simp: keeps_slot_def rust_arith)
  have other: "spends frm pid 0 0 ss (map ?g ss)" if "\<not> (f = frm \<and> i = pid)"
    using that by (induction ss) (auto simp: spends_def is_pending_def)
  show ?thesis
    using assms EvRejected one other by (cases "f = frm \<and> i = pid") (auto simp: rejects_def note_tx_queue_rejected_def)
qed

lemma run_events_spend:
  assumes "list_all (\<lambda>e. \<not> schedules frm pid e) es" "run_events delay es ss = (ts, ds)" "held frm pid ss \<le> 1"
    "carries frm pid f ss"
  shows "length (filter (due_for frm pid) ds) \<le> credit frm pid ss + length (filter (rejects frm pid) es) \<and>
    list_all (\<lambda>x. due_for frm pid x \<longrightarrow> (du_to x, du_len x, du_bytes x) = f) ds"
  using assms
proof (induction es arbitrary: ss ds)
  case (Cons e es)
  obtain us d where u: "run_event delay e ss = (us, d)" by (cases "run_event delay e ss")
  obtain ds' where d: "run_events delay es us = (ts, ds')" "ds = (case d of None \<Rightarrow> ds' | Some x \<Rightarrow> x # ds')"
    using Cons.prems(2) u by (auto split: prod.splits)
  have e: "\<not> schedules frm pid e" "list_all (\<lambda>e. \<not> schedules frm pid e) es" using Cons.prems(1) by simp_all
  note st = run_event_spends [OF e(1) u]
  have sp: "held frm pid us \<le> held frm pid ss" "carries frm pid f us"
    "credit frm pid us + (case d of Some x \<Rightarrow> (if due_for frm pid x then 1 else 0) | None \<Rightarrow> 0)
      \<le> credit frm pid ss + (if rejects frm pid e then 1 else 0) * held frm pid ss"
    using st Cons.prems(4) unfolding spends_def by blast+
  have "(if rejects frm pid e then 1 else 0) * held frm pid ss \<le> (if rejects frm pid e then 1 else 0)"
    using Cons.prems(3) by simp
  moreover have "held frm pid us \<le> 1" using sp(1) Cons.prems(3) by simp
  note ih = Cons.IH [OF e(2) d(1) this sp(2)]
  moreover have "\<forall>x. d = Some x \<longrightarrow> due_for frm pid x \<longrightarrow> (du_to x, du_len x, du_bytes x) = f"
    using st Cons.prems(4) by blast
  ultimately show ?case using d(2) sp(3) by (cases d) auto
qed simp

lemma schedule_fresh:
  assumes "\<not> list_ex (is_pending frm pid) ss"
    "schedule_reliable ss frm pid to relayed len bytes d now n named = (ts, True)"
  shows "held frm pid ts = 1" "credit frm pid ts = unat n" "carries frm pid (to, len, bytes) ts"
proof -
  obtain k where k: "position (\<lambda>s. \<not> pr_active s) ss = Some k"
    using assms by (auto simp: schedule_reliable_def split: option.splits)
  then have kl: "k < length ss" by (auto dest: position_SomeD)
  define t where "t = \<lparr>pr_active = True, pr_from = frm, pr_packet_id = pid, pr_to = to,
    pr_relayed = relayed, pr_named = named, pr_num_retx = n, pr_awaiting_tx = True,
    pr_has_transmitted = False, pr_retx_delay_ms = d, pr_next_tx_ms = 0, pr_len = len, pr_bytes = bytes\<rparr>"
  have ts: "ts = ss[k := t]" using assms k by (simp add: schedule_reliable_def t_def)
  have t: "is_pending frm pid t" "pr_num_retx t = n" "(pr_to t, pr_len t, pr_bytes t) = (to, len, bytes)"
    by (simp_all add: t_def is_pending_def)
  have none: "held frm pid xs = 0 \<and> credit frm pid xs = 0 \<and> carries frm pid f xs"
    if "\<not> list_ex (is_pending frm pid) xs" for xs f
    using that by (induction xs) auto
  have "held frm pid (xs[k := t]) = 1 \<and> credit frm pid (xs[k := t]) = unat n \<and>
      carries frm pid (to, len, bytes) (xs[k := t])"
    if "k < length xs" "\<not> list_ex (is_pending frm pid) xs" for xs
    using that
  proof (induction xs arbitrary: k)
    case (Cons x xs)
    then show ?case using t none [of xs] by (cases k) auto
  qed simp
  from this [OF kl assms(1)]
  show "held frm pid ts = 1" "credit frm pid ts = unat n" "carries frm pid (to, len, bytes) ts"
    unfolding ts by simp_all
qed

text \<open>
  C24. A packet is sent again only within its budget, and always as it was scheduled. From the
  moment a packet is scheduled with \<open>n\<close> retransmissions until it is scheduled anew, whatever
  happens to it and to the other slots, it becomes due at most \<open>n\<close> times, and once more for each
  attempt that the transmit queue gave back; every time with its destination and its bytes.
\<close>

theorem retransmissions_within_budget:
  assumes "\<not> list_ex (is_pending frm pid) ss"
    "schedule_reliable ss frm pid to relayed len bytes d now n named = (ts, True)"
    "list_all (\<lambda>e. \<not> schedules frm pid e) es" "run_events delay es ts = (us, ds)"
  shows "length (filter (due_for frm pid) ds) \<le> unat n + length (filter (rejects frm pid) es) \<and>
    map (\<lambda>x. (du_to x, du_len x, du_bytes x)) (filter (due_for frm pid) ds) =
      replicate (length (filter (due_for frm pid) ds)) (to, len, bytes)"
proof -
  note f = schedule_fresh [OF assms(1,2)]
  have "held frm pid ts \<le> 1" using f(1) by simp
  from run_events_spend [OF assms(3,4) this f(3)] show ?thesis
    using f(2) by (auto simp: list_all_iff intro!: map_replicate_const [symmetric, THEN trans] replicate_eqI)
qed

text \<open>Scheduled with two retransmissions, sent, due twice, and done.\<close>

definition budget_events :: "reliable_event list" where
  "budget_events = [EvSent 1 9 0, EvDue 5, EvDue 100, EvSent 1 9 100, EvBump 7, EvDue 200, EvSent 1 9 210, EvDue 400, EvDue 500]"

theorem retransmissions_within_budget_witness:
  "length (filter (due_for 1 9) (snd (run_events (\<lambda>_ _ _. 50) budget_events
      (fst (schedule_reliable slots_new 1 9 3 False 2 [7, 8] 10 0 2 None))))) \<le>
    unat (2 :: u8) + length (filter (rejects 1 9) budget_events) \<and>
   map du_packet_id (snd (run_events (\<lambda>_ _ _. 50) budget_events
      (fst (schedule_reliable slots_new 1 9 3 False 2 [7, 8] 10 0 2 None)))) = [9, 9]"
proof -
  have new: "slots_new = [pr_inactive, pr_inactive, pr_inactive, pr_inactive]"
    by (simp add: slots_new_def MAX_PENDING_RELIABLE_def numeral_eq_Suc)
  define ts where "ts = fst (schedule_reliable slots_new 1 9 3 False 2 [7, 8] 10 0 2 None)"
  have s: "\<not> list_ex (is_pending 1 9) slots_new" "schedule_reliable slots_new 1 9 3 False 2 [7, 8] 10 0 2 None = (ts, True)"
    by (simp_all add: ts_def new schedule_reliable_def is_pending_def pr_inactive_def)
  have e: "list_all (\<lambda>e. \<not> schedules 1 9 e) budget_events" by (simp add: budget_events_def schedules_def)
  obtain us ds where r: "run_events (\<lambda>_ _ _. 50) budget_events ts = (us, ds)"
    by (cases "run_events (\<lambda>_ _ _. 50) budget_events ts")
  have "map du_packet_id (snd (run_events (\<lambda>_ _ _. 50) budget_events ts)) = [9, 9]"
    by (simp add: ts_def new schedule_reliable_def is_pending_def pr_inactive_def budget_events_def reliable_tx_done_def sent_slot_def bump_reliable_delays_def Let_def)
  then show ?thesis
    using retransmissions_within_budget [OF s e r] r unfolding ts_def [symmetric] by simp
qed

end
