(* ===== verification/RelayIdentity.thy ===== *)
theory RelayIdentity
  imports GraphInv
begin

text \<open>
  Who relayed a frame (\<open>relay_identity.rs\<close>): a header names its relay by one byte only, the last
  of the relay's number. The cache keeps for each byte the nodes heard under it, and a byte is
  resolved to a direct neighbour or to the only node remembered, or not at all.
\<close>

unbundle bit_operations_syntax

section \<open>Cache\<close>

definition MAX_RELAY_IDENTITY_ENTRIES :: nat where "MAX_RELAY_IDENTITY_ENTRIES = 16"
definition RELAY_ID_CACHE_TTL_MS :: u32 where "RELAY_ID_CACHE_TTL_MS = 600000"
definition MAX_CANDIDATES_PER_BUCKET :: nat where "MAX_CANDIDATES_PER_BUCKET = 4"

record identity_entry =
  ie_node_id :: u32
  ie_last_heard_ms :: u32

record identity_bucket =
  ib_relay_id :: u8
  ib_entries :: "identity_entry list"
  ib_entry_count :: nat
  ib_overflow_at :: "u32 option"

record identity_cache =
  ic_buckets :: "identity_bucket list"
  ic_bucket_count :: nat

definition bucket_default :: identity_bucket where
  "bucket_default = \<lparr>ib_relay_id = 0,
     ib_entries = replicate MAX_CANDIDATES_PER_BUCKET \<lparr>ie_node_id = 0, ie_last_heard_ms = 0\<rparr>,
     ib_entry_count = 0, ib_overflow_at = None\<rparr>"

definition ic_new :: identity_cache where
  "ic_new = \<lparr>ic_buckets = replicate MAX_RELAY_IDENTITY_ENTRIES bucket_default, ic_bucket_count = 0\<rparr>"

definition ic_clear :: "identity_cache \<Rightarrow> identity_cache" where
  "ic_clear c = c\<lparr>ic_bucket_count := 0\<rparr>"

definition live_buckets :: "identity_cache \<Rightarrow> identity_bucket list" where
  "live_buckets c = take (ic_bucket_count c) (ic_buckets c)"

definition live_entries :: "identity_bucket \<Rightarrow> identity_entry list" where
  "live_entries b = take (ib_entry_count b) (ib_entries b)"

definition find_bucket :: "identity_cache \<Rightarrow> u8 \<Rightarrow> nat option" where
  "find_bucket c relay_byte = position (\<lambda>b. ib_relay_id b = relay_byte) (live_buckets c)"

definition prune_bucket_entries :: "identity_bucket \<Rightarrow> u32 \<Rightarrow> identity_bucket" where
  "prune_bucket_entries b now_ms =
     (case swap_prune (\<lambda>e. RELAY_ID_CACHE_TTL_MS < now_ms - ie_last_heard_ms e) (ib_entries b) (ib_entry_count b) 0 of
        (es, n) \<Rightarrow> b\<lparr>ib_entries := es, ib_entry_count := n\<rparr>)"

definition remember_in_bucket :: "identity_bucket \<Rightarrow> u32 \<Rightarrow> u32 \<Rightarrow> identity_bucket" where
  "remember_in_bucket b node_id now_ms =
     (let b = prune_bucket_entries b now_ms in
      case position (\<lambda>e. ie_node_id e = node_id) (live_entries b) of
        Some i \<Rightarrow> b\<lparr>ib_entries := (ib_entries b)[i := (ib_entries b ! i)\<lparr>ie_last_heard_ms := now_ms\<rparr>]\<rparr>
      | None \<Rightarrow>
          if ib_entry_count b < MAX_CANDIDATES_PER_BUCKET then
            b\<lparr>ib_entries := (ib_entries b)[ib_entry_count b :=
                 \<lparr>ie_node_id = node_id, ie_last_heard_ms = now_ms\<rparr>], ib_entry_count := ib_entry_count b + 1\<rparr>
          else b\<lparr>ib_overflow_at := Some now_ms\<rparr>)"

definition remember_relay_identity :: "identity_cache \<Rightarrow> u32 \<Rightarrow> u8 \<Rightarrow> u32 \<Rightarrow> identity_cache" where
  "remember_relay_identity c node_id relay_byte now_ms =
     (if relay_byte = 0 \<or> node_id = 0 \<or> is_placeholder_node node_id \<or> ucast node_id \<noteq> relay_byte then c
      else
        (case (case find_bucket c relay_byte of
                 Some i \<Rightarrow> Some (c, i)
               | None \<Rightarrow>
                   if MAX_RELAY_IDENTITY_ENTRIES \<le> ic_bucket_count c then None
                   else Some (c\<lparr>ic_buckets := (ic_buckets c)
                                  [ic_bucket_count c := bucket_default\<lparr>ib_relay_id := relay_byte\<rparr>],
                                ic_bucket_count := ic_bucket_count c + 1\<rparr>, ic_bucket_count c)) of
           None \<Rightarrow> c
         | Some (c, i) \<Rightarrow>
             c\<lparr>ic_buckets := (ic_buckets c)[i := remember_in_bucket (ic_buckets c ! i) node_id now_ms]\<rparr>))"

function prune_cache_loop :: "u32 \<Rightarrow> identity_bucket list \<Rightarrow> nat \<Rightarrow> nat \<Rightarrow> identity_bucket list \<times> nat" where
  "prune_cache_loop now_ms bs n b =
     (if b < n then
        let bs = bs[b := prune_bucket_entries (bs ! b) now_ms] in
        if ib_entry_count (bs ! b) = 0 then
          prune_cache_loop now_ms (if b < n - 1 then bs[b := bs ! (n - 1)] else bs) (n - 1) b
        else prune_cache_loop now_ms bs n (b + 1)
      else (bs, n))"
  by pat_completeness auto
termination
  by (relation "measure (\<lambda>(now, bs, n, b). n - b)") auto

declare prune_cache_loop.simps [simp del]

definition prune_relay_identity_cache :: "identity_cache \<Rightarrow> u32 \<Rightarrow> identity_cache" where
  "prune_relay_identity_cache c now_ms =
     (case prune_cache_loop now_ms (ic_buckets c) (ic_bucket_count c) 0 of
        (bs, n) \<Rightarrow> c\<lparr>ic_buckets := bs, ic_bucket_count := n\<rparr>)"

section \<open>Resolution\<close>

definition abs_diff :: "u16 \<Rightarrow> u16 \<Rightarrow> u16" where
  "abs_diff a b = (if a < b then b - a else a - b)"

fun closest_loop :: "u16 \<Rightarrow> (u32 \<times> u16) list \<Rightarrow> u32 \<Rightarrow> u16 \<Rightarrow> bool \<Rightarrow> u32 \<times> bool" where
  "closest_loop packet_etx [] best best_diff tied = (best, tied)"
| "closest_loop packet_etx ((node, link_etx) # ds) best best_diff tied =
     (let diff = abs_diff packet_etx link_etx in
      if diff < best_diff then closest_loop packet_etx ds node diff False
      else if diff = best_diff \<and> node \<noteq> best then closest_loop packet_etx ds best best_diff True
      else closest_loop packet_etx ds best best_diff tied)"

definition pick_best_direct_candidate :: "(u32 \<times> u16) list \<Rightarrow> int \<Rightarrow> int \<Rightarrow> u8 \<Rightarrow> u32" where
  "pick_best_direct_candidate direct rssi snr modem_preset =
     (case direct of
        [] \<Rightarrow> 0
      | [(node, _)] \<Rightarrow> node
      | (node, _) # _ \<Rightarrow>
          (case normalize_rx_signal rssi snr of
             None \<Rightarrow> 0
           | Some (rssi, snr) \<Rightarrow>
               let packet_etx = calculate_etx rssi (f32_of_int snr) modem_preset;
                   packet_etx_fixed = f32_to_word (f32_clamp (f32_mul packet_etx (Fin 100)) (Fin 1) (Fin 65535))
               in case closest_loop packet_etx_fixed direct node (- 1) False of
                    (best, tied) \<Rightarrow> if tied then 0 else best))"

definition direct_candidates :: "edge_store \<Rightarrow> u32 \<Rightarrow> u8 \<Rightarrow> (u32 \<times> u16) list" where
  "direct_candidates s my_node relay_byte =
     (case find_node s my_node of
        None \<Rightarrow> []
      | Some me \<Rightarrow>
          map (\<lambda>e. (eg_to e, eg_etx_fixed e)) (filter (\<lambda>e. ucast (eg_to e) = relay_byte \<and>
            \<not> is_placeholder_node (eg_to e) \<and> eg_source e = Reported) (live_edges me)))"

fun only_entry :: "u32 \<Rightarrow> identity_entry list \<Rightarrow> u32 option \<Rightarrow> u32 option" where
  "only_entry now_ms [] found = found"
| "only_entry now_ms (e # es) found =
     (if RELAY_ID_CACHE_TTL_MS < now_ms - ie_last_heard_ms e then only_entry now_ms es found
      else if found \<noteq> None \<and> found \<noteq> Some (ie_node_id e) then None
      else only_entry now_ms es (Some (ie_node_id e)))"

definition resolve_relay_identity ::
  "identity_cache \<Rightarrow> u8 \<Rightarrow> int \<Rightarrow> int \<Rightarrow> edge_store \<Rightarrow> u32 \<Rightarrow> u32 \<Rightarrow> u8 \<Rightarrow> u32 option" where
  "resolve_relay_identity c relay_byte rssi snr edges my_node now_ms modem_preset =
     (if relay_byte = 0 then None
      else
        let bucket = find (\<lambda>b. ib_relay_id b = relay_byte) (live_buckets c);
            direct = direct_candidates edges my_node relay_byte
        in if (case Option.bind bucket ib_overflow_at of
                 None \<Rightarrow> False | Some pos \<Rightarrow> now_ms - pos \<le> RELAY_ID_CACHE_TTL_MS) then None
           else if MAX_CANDIDATES_PER_BUCKET < length direct then None
           else if direct \<noteq> [] then
             (let best = pick_best_direct_candidate direct rssi snr modem_preset
              in if best \<noteq> 0 then Some best else None)
           else
             (case bucket of None \<Rightarrow> None | Some b \<Rightarrow> only_entry now_ms (live_entries b) None))"

text \<open>\<open>NeighborGraph::match_relay_placeholder_on_outgoing_edges\<close> of \<open>neighbor_graph.rs\<close>.\<close>

definition match_relay_placeholder_on_outgoing_edges :: "edge_store \<Rightarrow> u32 \<Rightarrow> u8 \<Rightarrow> u32 option" where
  "match_relay_placeholder_on_outgoing_edges s my_node relay_byte =
     (case find_node s my_node of
        None \<Rightarrow> None
      | Some me \<Rightarrow>
          map_option eg_to (find (\<lambda>e. ucast (eg_to e AND 0xFF) = relay_byte \<and> is_placeholder_node (eg_to e))
            (live_edges me)))"

definition resolve_heard_from ::
  "identity_cache \<Rightarrow> u8 \<Rightarrow> u32 \<Rightarrow> int \<Rightarrow> int \<Rightarrow> edge_store \<Rightarrow> u32 \<Rightarrow> u8 \<Rightarrow> u32 \<Rightarrow> u32" where
  "resolve_heard_from c relay_node source rssi snr edges my_node modem_preset now_ms =
     (if relay_node = 0 then source
      else
        (case resolve_relay_identity c relay_node rssi snr edges my_node now_ms modem_preset of
           Some resolved \<Rightarrow> resolved
         | None \<Rightarrow>
             (case match_relay_placeholder_on_outgoing_edges edges my_node relay_node of
                Some placeholder \<Rightarrow> placeholder
              | None \<Rightarrow> placeholder_node_id relay_node)))"

section \<open>Invariant\<close>

definition bucket_inv :: "identity_bucket \<Rightarrow> bool" where
  "bucket_inv b \<longleftrightarrow> length (ib_entries b) = MAX_CANDIDATES_PER_BUCKET \<and>
     ib_entry_count b \<le> MAX_CANDIDATES_PER_BUCKET \<and> distinct (map ie_node_id (live_entries b)) \<and>
     (\<forall>e \<in> set (live_entries b). ucast (ie_node_id e) = ib_relay_id b \<and> ie_node_id e \<noteq> 0 \<and>
        \<not> is_placeholder_node (ie_node_id e))"

definition cache_inv :: "identity_cache \<Rightarrow> bool" where
  "cache_inv c \<longleftrightarrow> length (ic_buckets c) = MAX_RELAY_IDENTITY_ENTRIES \<and>
     ic_bucket_count c \<le> MAX_RELAY_IDENTITY_ENTRIES \<and> distinct (map ib_relay_id (live_buckets c)) \<and>
     (\<forall>b \<in> set (live_buckets c). bucket_inv b)"

interpretation identity_entries: keyed_table bucket_inv live_entries ie_node_id
  by unfold_locales (simp add: bucket_inv_def)

interpretation identity_buckets: keyed_table cache_inv live_buckets ib_relay_id
  by unfold_locales (simp add: cache_inv_def)

text \<open>The entry of a bucket found under a byte belongs to it.\<close>

lemma bucket_default_inv: "bucket_inv (bucket_default\<lparr>ib_relay_id := r\<rparr>)"
  by (simp add: bucket_inv_def bucket_default_def live_entries_def)

lemma prune_bucket_inv:
  assumes "bucket_inv b"
  shows "bucket_inv (prune_bucket_entries b now)" "ib_relay_id (prune_bucket_entries b now) = ib_relay_id b"
    "set (live_entries (prune_bucket_entries b now)) =
      {e \<in> set (live_entries b). now - ie_last_heard_ms e \<le> RELAY_ID_CACHE_TTL_MS}"
proof -
  let ?d = "\<lambda>e. RELAY_ID_CACHE_TTL_MS < now - ie_last_heard_ms e"
  obtain es n where p: "swap_prune ?d (ib_entries b) (ib_entry_count b) 0 = (es, n)"
    by (cases "swap_prune ?d (ib_entries b) (ib_entry_count b) 0")
  have le: "ib_entry_count b \<le> length (ib_entries b)" using assms by (simp add: bucket_inv_def)
  have eq: "prune_bucket_entries b now = b\<lparr>ib_entries := es, ib_entry_count := n\<rparr>"
    by (simp add: prune_bucket_entries_def p)
  show id: "ib_relay_id (prune_bucket_entries b now) = ib_relay_id b" by (simp add: eq)
  show live: "set (live_entries (prune_bucket_entries b now)) =
      {e \<in> set (live_entries b). now - ie_last_heard_ms e \<le> RELAY_ID_CACHE_TTL_MS}"
    using swap_prune_set [OF le p] by (simp add: eq live_entries_def not_less)
  have "distinct (map ie_node_id (live_entries (prune_bucket_entries b now)))"
    using swap_prune_distinct [OF le p, of ie_node_id] assms by (simp add: eq live_entries_def bucket_inv_def)
  then show "bucket_inv (prune_bucket_entries b now)"
    using assms live swap_prune_mset(2,3) [OF le p] unfolding bucket_inv_def id by (auto simp: eq)
qed

lemma remember_in_bucket_inv:
  assumes "bucket_inv b" "ucast node = ib_relay_id b" "node \<noteq> 0" "\<not> is_placeholder_node node"
  shows "bucket_inv (remember_in_bucket b node now)" "ib_relay_id (remember_in_bucket b node now) = ib_relay_id b"
proof -
  define p where "p = prune_bucket_entries b now"
  have p: "bucket_inv p" "ib_relay_id p = ib_relay_id b" using prune_bucket_inv [OF assms(1)] by (simp_all add: p_def)
  have "bucket_inv (remember_in_bucket b node now) \<and> ib_relay_id (remember_in_bucket b node now) = ib_relay_id b"
  proof (cases "position (\<lambda>e. ie_node_id e = node) (live_entries p)")
    case (Some i)
    then have i: "i < length (live_entries p)" "ie_node_id (live_entries p ! i) = node" by (auto dest: position_SomeD)
    let ?e = "(ib_entries p ! i)\<lparr>ie_last_heard_ms := now\<rparr>"
    let ?q = "p\<lparr>ib_entries := (ib_entries p)[i := ?e]\<rparr>"
    have e: "ie_node_id ?e = node" using i by (simp add: live_entries_def)
    have live: "live_entries ?q = (live_entries p)[i := ?e]" by (simp add: live_entries_def take_update_swap)
    have "map ie_node_id (live_entries ?q) = map ie_node_id (live_entries p)"
      using i e by (simp add: live map_update) (metis list_update_id nth_map length_map)
    moreover have "set (live_entries ?q) \<subseteq> insert ?e (set (live_entries p))"
      unfolding live by (rule set_update_subset_insert)
    ultimately have "bucket_inv ?q"
      using p(1) e assms(2-4) p(2) by (auto simp: bucket_inv_def)
    then show ?thesis using Some p(2) by (simp add: remember_in_bucket_def p_def [symmetric])
  next
    case None
    then have new: "node \<notin> ie_node_id ` set (live_entries p)" by (auto simp: position_None_iff)
    show ?thesis
    proof (cases "ib_entry_count p < MAX_CANDIDATES_PER_BUCKET")
      case True
      let ?e = "\<lparr>ie_node_id = node, ie_last_heard_ms = now\<rparr>"
      let ?q = "p\<lparr>ib_entries := (ib_entries p)[ib_entry_count p := ?e], ib_entry_count := ib_entry_count p + 1\<rparr>"
      have "live_entries ?q = live_entries p @ [?e]"
        using True p(1) by (simp add: live_entries_def bucket_inv_def take_snoc_update)
      then have "bucket_inv ?q" using p True new assms(2-4) by (auto simp: bucket_inv_def)
      then show ?thesis using None True p(2) by (simp add: remember_in_bucket_def p_def [symmetric])
    next
      case False
      have "bucket_inv (p\<lparr>ib_overflow_at := Some now\<rparr>)" using p(1) by (simp add: bucket_inv_def live_entries_def)
      then show ?thesis using None False p(2) by (simp add: remember_in_bucket_def p_def [symmetric])
    qed
  qed
  then show "bucket_inv (remember_in_bucket b node now)" "ib_relay_id (remember_in_bucket b node now) = ib_relay_id b"
    by simp_all
qed

lemma cache_set_bucket:
  assumes "cache_inv c" "i < ic_bucket_count c" "bucket_inv b" "ib_relay_id b = ib_relay_id (ic_buckets c ! i)"
  shows "cache_inv (c\<lparr>ic_buckets := (ic_buckets c)[i := b]\<rparr>)"
proof -
  let ?d = "c\<lparr>ic_buckets := (ic_buckets c)[i := b]\<rparr>"
  have len: "i < length (live_buckets c)" using assms(1,2) by (simp add: live_buckets_def cache_inv_def)
  have live: "live_buckets ?d = (live_buckets c)[i := b]" by (simp add: live_buckets_def take_update_swap)
  have "ib_relay_id b = ib_relay_id (live_buckets c ! i)" using assms(2,4) by (simp add: live_buckets_def)
  then have "map ib_relay_id (live_buckets ?d) = map ib_relay_id (live_buckets c)"
    using len by (simp add: live map_update) (metis list_update_id nth_map)
  moreover have "set (live_buckets ?d) \<subseteq> insert b (set (live_buckets c))"
    unfolding live by (rule set_update_subset_insert)
  ultimately show ?thesis using assms(1,3) by (auto simp: cache_inv_def)
qed

lemma remember_relay_identity_inv:
  assumes "cache_inv c"
  shows "cache_inv (remember_relay_identity c node r now)"
proof (cases "r = 0 \<or> node = 0 \<or> is_placeholder_node node \<or> ucast node \<noteq> r")
  case True
  then show ?thesis using assms by (simp add: remember_relay_identity_def)
next
  case False
  have put: "cache_inv (d\<lparr>ic_buckets := (ic_buckets d)[i := remember_in_bucket (ic_buckets d ! i) node now]\<rparr>)"
    if "cache_inv d" "i < ic_bucket_count d" "ib_relay_id (ic_buckets d ! i) = r" for d i
  proof -
    have "i < length (live_buckets d)" "live_buckets d ! i = ic_buckets d ! i"
      using that by (auto simp: live_buckets_def cache_inv_def)
    then have "bucket_inv (ic_buckets d ! i)" using that(1) nth_mem by (metis cache_inv_def)
    from remember_in_bucket_inv [OF this, of node now] False that show ?thesis
      by (intro cache_set_bucket) auto
  qed
  show ?thesis
  proof (cases "find_bucket c r")
    case (Some i)
    then have i: "i < length (live_buckets c)" "ib_relay_id (live_buckets c ! i) = r"
      by (auto simp: find_bucket_def dest: position_SomeD)
    then have "i < ic_bucket_count c" "ib_relay_id (ic_buckets c ! i) = r" by (simp_all add: live_buckets_def)
    then show ?thesis using put [OF assms] Some False by (simp add: remember_relay_identity_def)
  next
    case None
    show ?thesis
    proof (cases "MAX_RELAY_IDENTITY_ENTRIES \<le> ic_bucket_count c")
      case True
      then show ?thesis using None False assms by (simp add: remember_relay_identity_def)
    next
      case room: False
      let ?n = "ic_bucket_count c" and ?b = "bucket_default\<lparr>ib_relay_id := r\<rparr>"
      let ?d = "c\<lparr>ic_buckets := (ic_buckets c)[?n := ?b], ic_bucket_count := ?n + 1\<rparr>"
      have live: "live_buckets ?d = live_buckets c @ [?b]"
        using room assms by (simp add: live_buckets_def cache_inv_def take_snoc_update)
      have "r \<notin> ib_relay_id ` set (live_buckets c)" using None by (auto simp: find_bucket_def position_None_iff)
      then have d: "cache_inv ?d"
        using assms room bucket_default_inv [of r] unfolding cache_inv_def live by auto
      have nth: "ic_buckets ?d ! ?n = ?b" using room assms by (simp add: cache_inv_def)
      show ?thesis using put [OF d, of ?n] nth None room False by (simp add: remember_relay_identity_def)
    qed
  qed
qed

lemma prune_cache_loop_inv:
  assumes "cache_inv \<lparr>ic_buckets = bs, ic_bucket_count = n\<rparr>" "prune_cache_loop now bs n b = (bs', n')"
  shows "cache_inv \<lparr>ic_buckets = bs', ic_bucket_count = n'\<rparr>"
  using assms
proof (induction now bs n b rule: prune_cache_loop.induct)
  case (1 now bs n b)
  let ?c = "\<lambda>bs n. \<lparr>ic_buckets = bs, ic_bucket_count = n\<rparr>"
  show ?case
  proof (cases "b < n")
    case False
    then show ?thesis using 1 by (simp add: prune_cache_loop.simps [of now bs n b])
  next
    case True
    define cs where "cs = bs[b := prune_bucket_entries (bs ! b) now]"
    have len: "n \<le> length bs" using 1(3) by (simp add: cache_inv_def)
    have "bs ! b \<in> set (take n bs)" using True len by (metis in_set_conv_nth length_take min.absorb2 nth_take)
    then have "bucket_inv (bs ! b)" using 1(3) by (simp add: cache_inv_def live_buckets_def)
    note p = prune_bucket_inv [OF this, of now]
    have cs: "cache_inv (?c cs n)"
      using cache_set_bucket [OF 1(3), of b "prune_bucket_entries (bs ! b) now"] p True by (simp add: cs_def)
    define ds where "ds = (if b < n - 1 then cs[b := cs ! (n - 1)] else cs)"
    have ds: "cache_inv (?c ds (n - 1))"
    proof -
      have ms: "add_mset (cs ! b) (mset (take (n - 1) ds)) = mset (take n cs)"
        unfolding ds_def by (rule mset_take_swap_out) (use True len in \<open>simp_all add: cs_def\<close>)
      have "set (take (n - 1) ds) \<subseteq> set (take n cs)"
        using arg_cong [OF ms, of set_mset] by (metis set_mset_mset set_mset_add_mset_insert subset_insertI)
      moreover have "distinct (map ib_relay_id (take n cs))" using cs by (simp add: cache_inv_def live_buckets_def)
      then have "distinct (map ib_relay_id (take (n - 1) ds))"
        using arg_cong [OF ms, of "image_mset ib_relay_id"]
        by (metis (no_types, lifting) distinct.simps(2) image_mset_add_mset mset.simps(2) mset_eq_imp_distinct_iff mset_map)
      ultimately show ?thesis using cs by (auto simp: cache_inv_def live_buckets_def ds_def split: if_splits)
    qed
    have step: "prune_cache_loop now bs n b = (if ib_entry_count (cs ! b) = 0
        then prune_cache_loop now ds (n - 1) b else prune_cache_loop now cs n (b + 1))"
      using True by (simp add: prune_cache_loop.simps [of now bs n b] Let_def cs_def ds_def)
    show ?thesis
    proof (cases "ib_entry_count (cs ! b) = 0")
      case z: True
      show ?thesis
        by (rule 1(1) [OF True cs_def z, folded ds_def, OF ds]) (use step z 1(4) in simp)
    next
      case nz: False
      show ?thesis by (rule 1(2) [OF True cs_def nz cs]) (use step nz 1(4) in simp)
    qed
  qed
qed

lemma prune_cache_inv: "cache_inv c \<Longrightarrow> cache_inv (prune_relay_identity_cache c now)"
  using prune_cache_loop_inv [of "ic_buckets c" "ic_bucket_count c" now 0]
  by (cases c) (auto simp: prune_relay_identity_cache_def split: prod.splits)

section \<open>What a byte resolves to\<close>

lemma closest_loop_member:
  "fst (closest_loop e ds best bd tied) \<in> insert best (fst ` set ds)"
proof (induction e ds best bd tied rule: closest_loop.induct)
  case (2 e node link_etx ds best bd tied)
  show ?case
    using "2.IH"(1) [OF refl] "2.IH"(2,3) [OF refl] by (auto simp: Let_def)
qed simp

lemma pick_best_member:
  assumes "pick_best_direct_candidate direct rssi snr preset \<noteq> 0"
  shows "pick_best_direct_candidate direct rssi snr preset \<in> fst ` set direct"
proof (cases direct)
  case Nil
  then show ?thesis using assms by (simp add: pick_best_direct_candidate_def)
next
  case (Cons d ds)
  obtain node l where d: "d = (node, l)" by (cases d)
  show ?thesis
  proof (cases ds)
    case Nil
    then show ?thesis using Cons d by (simp add: pick_best_direct_candidate_def)
  next
    case (Cons d2 ds2)
    have eq: "direct = (node, l) # d2 # ds2" using Cons d \<open>direct = d # ds\<close> by simp
    obtain e where e: "pick_best_direct_candidate direct rssi snr preset =
        (case closest_loop e direct node (- 1) False of (best, tied) \<Rightarrow> if tied then 0 else best)"
      using assms by (cases "normalize_rx_signal rssi snr") (auto simp: pick_best_direct_candidate_def eq Let_def)
    have "fst (closest_loop e direct node (- 1) False) \<in> fst ` set direct"
      using closest_loop_member [of e direct node "- 1" False] eq by auto
    then show ?thesis using assms e by (cases "closest_loop e direct node (- 1) False") (auto split: if_splits)
  qed
qed

lemma only_entry_member:
  "only_entry now es found = Some i \<Longrightarrow> found = Some i \<or> i \<in> ie_node_id ` set es"
  by (induction now es found rule: only_entry.induct) (auto split: if_splits)

lemma resolve_sound:
  assumes "cache_inv c" "resolve_relay_identity c r rssi snr edges my now preset = Some i"
  shows "ucast i = r \<and> i \<noteq> 0 \<and> \<not> is_placeholder_node i"
proof (cases "direct_candidates edges my r = []")
  case False
  let ?p = "pick_best_direct_candidate (direct_candidates edges my r) rssi snr preset"
  have p: "?p = i" "?p \<noteq> 0"
    using assms(2) False by (auto simp: resolve_relay_identity_def Let_def split: if_splits option.splits)
  then have "i \<in> fst ` set (direct_candidates edges my r)" using pick_best_member by blast
  then show ?thesis using p by (auto simp: direct_candidates_def split: option.splits)
next
  case True
  obtain b where b: "find (\<lambda>b. ib_relay_id b = r) (live_buckets c) = Some b" "only_entry now (live_entries b) None = Some i"
    using assms(2) True by (auto simp: resolve_relay_identity_def Let_def split: if_splits option.splits)
  have "b \<in> set (live_buckets c)" "ib_relay_id b = r" using b(1) by (auto simp: find_Some_iff)
  moreover have "i \<in> ie_node_id ` set (live_entries b)" using only_entry_member [OF b(2)] by simp
  ultimately show ?thesis using assms(1) by (auto simp: cache_inv_def bucket_inv_def)
qed

datatype identity_op = Remember u32 u8 u32 | PruneIdentities u32 | ClearIdentities

fun identity_step :: "identity_op \<Rightarrow> identity_cache \<Rightarrow> identity_cache" where
  "identity_step (Remember node r now) c = remember_relay_identity c node r now"
| "identity_step (PruneIdentities now) c = prune_relay_identity_cache c now"
| "identity_step ClearIdentities c = ic_clear c"

lemma identity_run_inv: "cache_inv (fold identity_step ops ic_new)"
proof -
  have "cache_inv c \<Longrightarrow> cache_inv (identity_step op c)" for op c
    by (cases op) (simp_all add: remember_relay_identity_inv prune_cache_inv,
        simp add: ic_clear_def cache_inv_def live_buckets_def)
  then have "cache_inv c \<Longrightarrow> cache_inv (fold identity_step ops c)" for c
    by (induction ops arbitrary: c) simp_all
  moreover have "cache_inv ic_new" by (simp add: cache_inv_def ic_new_def live_buckets_def)
  ultimately show ?thesis by blast
qed

lemma placeholder_byte: "ucast (placeholder_node_id r) = r"
proof -
  have "(0xFF000000 :: u32) = push_bit 24 (mask 8)" by (simp add: mask_eq_exp_minus_1)
  then show ?thesis by (simp add: placeholder_node_id_def PLACEHOLDER_NODE_PREFIX_def bit_eq_iff bit_simps)
qed

lemma placeholder_is_placeholder: "is_placeholder_node (placeholder_node_id r)"
  by (simp add: is_placeholder_node_def placeholder_node_id_def PLACEHOLDER_NODE_PREFIX_def bit_eq_iff bit_simps)

lemma match_placeholder:
  assumes "match_relay_placeholder_on_outgoing_edges s my r = Some i"
  shows "ucast i = r \<and> is_placeholder_node i"
proof -
  have "ucast (i AND 0xFF) = r" "is_placeholder_node i"
    using assms by (auto simp: match_relay_placeholder_on_outgoing_edges_def find_Some_iff split: option.splits)
  moreover have "ucast (i AND 0xFF) = (ucast i :: u8)"
  proof -
    have "(0xFF :: u32) = mask 8" by (simp add: mask_eq_exp_minus_1)
    then show ?thesis by (simp add: bit_eq_iff bit_simps)
  qed
  ultimately show ?thesis by simp
qed

text \<open>
  C26. A frame is never attributed to a node its header contradicts. Whatever was remembered and
  pruned before, the node that \<open>resolve_heard_from\<close> names for a relay byte ends in this byte,
  be it a direct neighbour, a remembered node or a placeholder; and a real node is named only
  when the byte resolves, never a placeholder in its place.
\<close>

theorem heard_from_matches_byte:
  assumes "relay_node \<noteq> 0"
  shows "ucast (resolve_heard_from (fold identity_step ops ic_new) relay_node source rssi snr edges my_node preset now_ms)
      = relay_node \<and>
    (is_placeholder_node
       (resolve_heard_from (fold identity_step ops ic_new) relay_node source rssi snr edges my_node preset now_ms) \<longleftrightarrow>
     resolve_relay_identity (fold identity_step ops ic_new) relay_node rssi snr edges my_node now_ms preset = None)"
proof (cases "resolve_relay_identity (fold identity_step ops ic_new) relay_node rssi snr edges my_node now_ms preset")
  case None
  then show ?thesis
    using match_placeholder [of edges my_node relay_node] placeholder_byte placeholder_is_placeholder assms
    by (auto simp: resolve_heard_from_def split: option.splits)
next
  case (Some i)
  then show ?thesis using resolve_sound [OF identity_run_inv Some] assms by (simp add: resolve_heard_from_def)
qed

theorem heard_from_matches_byte_witness:
  "ucast (resolve_heard_from (fold identity_step [Remember 0x12340042 0x42 5] ic_new) 0x42 7 (- 60) 8 es_new 1 0 9)
     = (0x42 :: u8) \<and>
   (is_placeholder_node
      (resolve_heard_from (fold identity_step [Remember 0x12340042 0x42 5] ic_new) 0x42 7 (- 60) 8 es_new 1 0 9) \<longleftrightarrow>
    resolve_relay_identity (fold identity_step [Remember 0x12340042 0x42 5] ic_new) 0x42 (- 60) 8 es_new 1 9 0 = None)"
  by (rule heard_from_matches_byte) simp

end
