(* ===== verification/Ranking.thy ===== *)
theory Ranking
  imports Prelude
begin

text \<open>
  The insertion sort with which both relay plans (\<open>broadcast_relay.rs\<close>, \<open>unicast_relay.rs\<close>) rank
  their candidates, and its contract: for a strict order that decides between any two candidates
  with different keys, the candidates before a given one are exactly those better than it.
\<close>

section \<open>The loop\<close>

text \<open>Entry \<open>i\<close> sinks while it is better than the one before it.\<close>

fun sink_loop :: "('a \<Rightarrow> 'a \<Rightarrow> bool) \<Rightarrow> nat \<Rightarrow> 'a list \<Rightarrow> 'a list" where
  "sink_loop better 0 xs = xs"
| "sink_loop better (Suc j) xs =
     (if better (xs ! Suc j) (xs ! j) then sink_loop better j (xs[Suc j := xs ! j, j := xs ! Suc j]) else xs)"

definition sort_entries :: "('a \<Rightarrow> 'a \<Rightarrow> bool) \<Rightarrow> 'a list \<Rightarrow> 'a list" where
  "sort_entries better xs = fold (sink_loop better) [1..<length xs] xs"

section \<open>Insertion into a sorted prefix\<close>

text \<open>The prefix read backwards, worst entry first.\<close>

fun put_back :: "('a \<Rightarrow> 'a \<Rightarrow> bool) \<Rightarrow> 'a \<Rightarrow> 'a list \<Rightarrow> 'a list" where
  "put_back better x [] = [x]"
| "put_back better x (y # ys) = (if better x y then y # put_back better x ys else x # y # ys)"

lemma mset_put_back [simp]: "mset (put_back better x ys) = add_mset x (mset ys)"
  by (induction ys) auto

lemma set_put_back [simp]: "set (put_back better x ys) = insert x (set ys)"
  by (induction ys) auto

lemma sink_loop_put_back:
  "j < length xs \<Longrightarrow> sink_loop better j xs = rev (put_back better (xs ! j) (rev (take j xs))) @ drop (Suc j) xs"
proof (induction j arbitrary: xs)
  case 0
  then show ?case by (simp add: Cons_nth_drop_Suc)
next
  case (Suc j)
  let ?ys = "xs[Suc j := xs ! j, j := xs ! Suc j]"
  have t: "take (Suc j) xs = take j xs @ [xs ! j]" using Suc.prems by (simp add: take_Suc_conv_app_nth)
  show ?case
  proof (cases "better (xs ! Suc j) (xs ! j)")
    case True
    have "drop (Suc j) ?ys = xs ! j # drop (Suc (Suc j)) xs"
      using Suc.prems by (subst Cons_nth_drop_Suc [symmetric]) simp_all
    then show ?thesis using Suc.IH [of ?ys] Suc.prems True t by simp
  next
    case False
    have "xs = take j xs @ xs ! j # xs ! Suc j # drop (Suc (Suc j)) xs"
      using Suc.prems by (metis Cons_nth_drop_Suc Suc_lessD append_take_drop_id)
    then show ?thesis using False t by simp
  qed
qed

section \<open>The contract\<close>

locale ranking_order =
  fixes better :: "'a \<Rightarrow> 'a \<Rightarrow> bool" and key :: "'a \<Rightarrow> 'k"
  assumes better_irrefl: "\<not> better a a"
    and better_trans: "better a b \<Longrightarrow> better b c \<Longrightarrow> better a c"
    and better_total: "key a \<noteq> key b \<Longrightarrow> better a b \<or> better b a"
begin

lemma put_back_sorted:
  assumes "sorted_wrt better (rev ys)" "key x \<notin> key ` set ys"
  shows "sorted_wrt better (rev (put_back better x ys))"
  using assms
proof (induction ys)
  case (Cons y ys)
  show ?case
  proof (cases "better x y")
    case True
    then show ?thesis using Cons by (auto simp: sorted_wrt_append)
  next
    case False
    then have "better y x" using better_total [of x y] Cons.prems(2) by auto
    then show ?thesis using False Cons.prems(1) by (auto simp: sorted_wrt_append intro: better_trans)
  qed
qed simp

lemma sink_loop_sorted:
  assumes "j < length xs" "distinct (map key xs)" "sorted_wrt better (take j xs)"
  shows "sorted_wrt better (take (Suc j) (sink_loop better j xs))" "mset (sink_loop better j xs) = mset xs"
proof -
  have s: "xs = take j xs @ xs ! j # drop (Suc j) xs" by (metis assms(1) id_take_nth_drop)
  have "distinct (map key (take j xs @ xs ! j # drop (Suc j) xs))" using s assms(2) by simp
  then have "key (xs ! j) \<notin> key ` set (rev (take j xs))" by auto
  from put_back_sorted [OF _ this] assms(3)
  have "sorted_wrt better (rev (put_back better (xs ! j) (rev (take j xs))))" by simp
  moreover have l: "length (put_back better (xs ! j) (rev (take j xs))) = Suc j"
    using assms(1) mset_put_back [of better "xs ! j" "rev (take j xs)"]
    by (metis length_rev length_take min.absorb4 size_add_mset size_mset)
  ultimately show "sorted_wrt better (take (Suc j) (sink_loop better j xs))"
    using assms(1) by (simp add: sink_loop_put_back)
  have "mset (take j xs) + add_mset (xs ! j) (mset (drop (Suc j) xs)) = mset xs"
    by (subst (4) s) (simp only: mset_append mset.simps)
  then show "mset (sink_loop better j xs) = mset xs" using assms(1) by (simp add: sink_loop_put_back)
qed

lemma sort_entries_sorted:
  assumes "distinct (map key xs)"
  shows "sorted_wrt better (sort_entries better xs)" "mset (sort_entries better xs) = mset xs"
proof -
  have "sorted_wrt better (take n (fold (sink_loop better) [1..<n] xs)) \<and> mset (fold (sink_loop better) [1..<n] xs) = mset xs"
    if "n \<le> length xs" for n
    using that
  proof (induction n)
    case (Suc n)
    let ?ys = "fold (sink_loop better) [1..<n] xs"
    have ih: "sorted_wrt better (take n ?ys)" "mset ?ys = mset xs" using Suc by auto
    have d: "distinct (map key ?ys)" "n < length ?ys"
      using mset_eq_imp_distinct_iff [of "map key ?ys" "map key xs"] ih(2) assms mset_eq_length [OF ih(2)] Suc.prems by simp_all
    have "fold (sink_loop better) [1..<Suc n] xs = sink_loop better n ?ys" by (cases n) auto
    then show ?case using sink_loop_sorted [OF d(2,1) ih(1)] ih(2) by simp
  qed simp
  from this [of "length xs"] show "sorted_wrt better (sort_entries better xs)" "mset (sort_entries better xs) = mset xs"
    using mset_eq_length [of "fold (sink_loop better) [1..<length xs] xs" xs] by (auto simp: sort_entries_def)
qed

lemma sorted_before:
  assumes "sorted_wrt better (us @ x # vs)"
  shows "set us = {y \<in> set (us @ x # vs). better y x}"
proof -
  have "better u x" if "u \<in> set us" for u using assms that by (auto simp: sorted_wrt_append)
  moreover have "\<not> better v x" if "v \<in> set vs" for v
    using assms that better_irrefl [of x] better_trans [of x v x] by (auto simp: sorted_wrt_append)
  ultimately show ?thesis using better_irrefl by auto
qed

lemma sorted_distinct: "sorted_wrt better xs \<Longrightarrow> distinct xs"
  by (induction xs) (auto simp: better_irrefl)

end

end
