(* ===== verification/BroadcastRelay.thy ===== *)
theory BroadcastRelay
  imports Graph Route RelayTiming Ranking
begin

text \<open>
  Whether and when this node relays a broadcast (\<open>broadcast_relay.rs\<close>): the nodes a transmission
  covers, the greedy ranking of the relays that cover the rest, and the position of this node
  among them. An array with a length is a list of its live elements, cut at its capacity: no dead
  cell is ever read.
\<close>

section \<open>Sets of fixed capacity\<close>

definition BIDI_ETX_CEILING :: f32 where "BIDI_ETX_CEILING = Fin 20"
definition NEIGHBOR_TTL_MS :: u32 where "NEIGHBOR_TTL_MS = 10800000"
definition DOWNSTREAM_TTL_MS :: u32 where "DOWNSTREAM_TTL_MS = NEIGHBOR_TTL_MS"
definition MAX_COVERED :: nat where "MAX_COVERED = MAX_EDGES_PER_NODE + 8"
definition MAX_CANDIDATES :: nat where "MAX_CANDIDATES = MAX_EDGES_PER_NODE + 4"
definition RANKED_LOG :: nat where "RANKED_LOG = 4"
definition UNCOVERED_LOG :: nat where "UNCOVERED_LOG = 6"
definition COST_BUCKET_FIXED :: u16 where "COST_BUCKET_FIXED = 50"

definition push_capped :: "nat \<Rightarrow> 'a list \<Rightarrow> 'a \<Rightarrow> 'a list" where
  "push_capped cap xs x = (if length xs < cap then xs @ [x] else xs)"

definition push_evaluated ::
  "(u32 \<times> nat \<times> nat \<times> u16) list \<Rightarrow> u32 \<Rightarrow> nat \<Rightarrow> nat \<Rightarrow> u16 \<Rightarrow> (u32 \<times> nat \<times> nat \<times> u16) list" where
  "push_evaluated out node coverage all cost = push_capped RANKED_LOG out (node, coverage, all, cost)"

definition push_ranked :: "u32 list \<Rightarrow> u32 \<Rightarrow> u32 list" where
  "push_ranked ranked node = push_capped RANKED_LOG ranked node"

definition push_absorbed :: "(u32 \<times> nat) list \<Rightarrow> u32 \<Rightarrow> nat \<Rightarrow> (u32 \<times> nat) list" where
  "push_absorbed absorbed relay credit = push_capped RANKED_LOG absorbed (relay, credit)"

definition set_insert :: "nat \<Rightarrow> u32 \<Rightarrow> u32 list \<Rightarrow> u32 list" where
  "set_insert cap node ids = (if node = 0 \<or> List.member ids node then ids else push_capped cap ids node)"

definition nodeset_insert :: "u32 \<Rightarrow> u32 list \<Rightarrow> u32 list" where
  "nodeset_insert = set_insert MAX_CANDIDATES"

definition covered_insert :: "u32 \<Rightarrow> u32 list \<Rightarrow> u32 list" where
  "covered_insert = set_insert MAX_COVERED"

definition nodeset_erase :: "u32 \<Rightarrow> u32 list \<Rightarrow> u32 list" where
  "nodeset_erase node ids =
     (case position (\<lambda>i. i = node) ids of None \<Rightarrow> ids | Some i \<Rightarrow> butlast (ids[i := last ids]))"

section \<open>Coverage\<close>

record young_gate =
  yg_active :: bool
  yg_table_full :: bool
  yg_ids :: "u32 list"
  yg_established :: "u32 list"

definition gate_empty :: young_gate where
  "gate_empty = \<lparr>yg_active = False, yg_table_full = False, yg_ids = [], yg_established = []\<rparr>"

definition gate_blocks :: "young_gate \<Rightarrow> u32 \<Rightarrow> bool" where
  "gate_blocks g node_id \<longleftrightarrow>
     (if \<not> yg_active g \<or> node_id = 0 then False
      else if yg_table_full g then \<not> List.member (yg_established g) node_id
      else List.member (yg_ids g) node_id)"

record relay_context =
  bx_my_node :: u32
  bx_my_node_relays :: bool
  bx_edges :: edge_store
  bx_capability :: capability_cache
  bx_downstream :: downstream_table
  bx_dropped_coverage :: young_gate

definition admits_coverage :: "relay_context \<Rightarrow> u32 \<Rightarrow> u32 \<Rightarrow> u32 \<Rightarrow> bool" where
  "admits_coverage ctx relay target now_ms \<longleftrightarrow>
     (if is_silent_publisher (bx_edges ctx) (Some (bx_capability ctx)) target now_ms then False
      else if gate_blocks (bx_dropped_coverage ctx) target then False
      else covers (bx_edges ctx) (Some (bx_capability ctx)) relay target \<or>
           coverage_owner (bx_edges ctx) (bx_capability ctx) (bx_my_node ctx) (bx_my_node_relays ctx) target = relay)"

definition get_coverage_if_relays :: "relay_context \<Rightarrow> u32 \<Rightarrow> u32 \<Rightarrow> u32 list" where
  "get_coverage_if_relays ctx relay now_ms =
     (case find_node (bx_edges ctx) relay of
        None \<Rightarrow> []
      | Some re \<Rightarrow> take MAX_EDGES_PER_NODE (map eg_to (filter (\<lambda>e.
          eg_to e \<noteq> 0 \<and> \<not> is_placeholder_node (eg_to e) \<and>
          \<not> (relay = bx_my_node ctx \<and> eg_source e \<noteq> Reported) \<and> is_measured (eg_source e) \<and>
          admits_coverage ctx relay (eg_to e) now_ms) (live_edges re))))"

definition absorb_relay_coverage :: "relay_context \<Rightarrow> u32 list \<Rightarrow> u32 \<Rightarrow> u32 \<Rightarrow> u32 list \<times> nat" where
  "absorb_relay_coverage ctx covered relay now_ms =
     (let before = length covered; covered = covered_insert relay covered;
          covered = (case find_node (bx_edges ctx) relay of
            None \<Rightarrow> covered
          | Some re \<Rightarrow> fold (\<lambda>e covered.
              if is_measured (eg_source e) \<and> admits_coverage ctx relay (eg_to e) now_ms
              then covered_insert (eg_to e) covered else covered) (live_edges re) covered)
      in (covered, length covered - before))"

definition build_already_covered :: "edge_store \<Rightarrow> capability_cache \<Rightarrow> u32 \<Rightarrow> u32 \<Rightarrow> u32 list" where
  "build_already_covered edges capability source heard_from =
     (let covered = covered_insert heard_from (covered_insert source []) in
      case find_node edges heard_from of
        None \<Rightarrow> covered
      | Some he \<Rightarrow> fold (\<lambda>e covered.
          if eg_to e \<noteq> 0 \<and> covers edges (Some capability) heard_from (eg_to e)
          then covered_insert (eg_to e) covered else covered) (live_edges he) covered)"

definition build_candidates :: "relay_context \<Rightarrow> u32 \<Rightarrow> u32 \<Rightarrow> u32 list" where
  "build_candidates ctx source heard_from =
     (let candidates = nodeset_insert (bx_my_node ctx) [] in
      case find_node (bx_edges ctx) (bx_my_node ctx) of
        None \<Rightarrow> candidates
      | Some me \<Rightarrow> fold (\<lambda>e candidates.
          if eg_to e = 0 \<or> eg_to e = heard_from \<or> eg_to e = source \<or> \<not> eg_hears_us e then candidates
          else if cap_status (bx_capability ctx) (eg_to e) = CapSrActive
            \<or> is_immediate_relay_router (bx_capability ctx) (eg_to e)
          then nodeset_insert (eg_to e) candidates else candidates) (live_edges me) candidates)"

definition stock_can_hear_transmitter :: "edge_store \<Rightarrow> u32 \<Rightarrow> u32 \<Rightarrow> bool" where
  "stock_can_hear_transmitter edges stock heard_from \<longleftrightarrow> edge_of edges stock heard_from \<noteq> None"

section \<open>The best relay of a set\<close>

record relay_candidate =
  rl_node_id :: u32
  rl_coverage_count :: nat
  rl_avg_cost_fixed :: u16
  rl_tier :: nat
  rl_role_rank :: nat
  rl_coverage_for :: u32

definition candidate_default :: relay_candidate where
  "candidate_default = \<lparr>rl_node_id = 0, rl_coverage_count = 0, rl_avg_cost_fixed = 0, rl_tier = 0,
     rl_role_rank = 0, rl_coverage_for = 0\<rparr>"

definition may_take_early_window :: "relay_context \<Rightarrow> u32 \<Rightarrow> bool" where
  "may_take_early_window ctx candidate \<longleftrightarrow> cap_role (bx_capability ctx) candidate = Some DEVICE_ROLE_ROUTER"

definition role_rank :: "relay_context \<Rightarrow> u32 \<Rightarrow> nat" where
  "role_rank ctx candidate = (if may_take_early_window ctx candidate then 1 else 0)"

definition avg_cost_of :: "relay_context \<Rightarrow> u32 \<Rightarrow> u32 list \<Rightarrow> u32 \<Rightarrow> u16" where
  "avg_cost_of ctx candidate unique now_ms =
     (let costs = List.map_filter (\<lambda>target. delivery_hop_cost_fixed (bx_edges ctx) (Some (bx_capability ctx))
            candidate target now_ms (bx_my_node ctx)) unique;
          total_cost = fold (\<lambda>fixed acc. f32_add acc (f32_div (f32_of_nat (unat fixed)) (Fin 100))) costs (Fin 0)
      in if 0 < length costs then
           let fixed = f32_to_word (f32_mul (f32_div total_cost (f32_of_nat (length costs))) (Fin 100))
           in fixed div COST_BUCKET_FIXED * COST_BUCKET_FIXED
         else 0)"

definition tier_of :: "relay_context \<Rightarrow> u32 \<Rightarrow> u32 \<Rightarrow> nat" where
  "tier_of ctx candidate source_node =
     (if source_node = 0 then 0
      else (case edge_of (bx_edges ctx) candidate source_node of
              None \<Rightarrow> 0
            | Some e \<Rightarrow> if eg_hears_us e \<and> f32_less (edge_etx e) BIDI_ETX_CEILING then 1 else 0))"

definition evaluate_candidate ::
  "relay_context \<Rightarrow> u32 list \<Rightarrow> u32 \<Rightarrow> u32 \<Rightarrow> u32 \<Rightarrow> relay_candidate option" where
  "evaluate_candidate ctx already_covered source_node now_ms candidate =
     (let unique = filter (\<lambda>n. \<not> List.member already_covered n) (get_coverage_if_relays ctx candidate now_ms) in
      if unique = [] then None
      else Some \<lparr>rl_node_id = candidate, rl_coverage_count = length unique,
        rl_avg_cost_fixed = avg_cost_of ctx candidate unique now_ms, rl_tier = tier_of ctx candidate source_node,
        rl_role_rank = role_rank ctx candidate, rl_coverage_for = hd unique\<rparr>)"

definition is_better_candidate :: "bool \<Rightarrow> relay_candidate \<Rightarrow> relay_candidate \<Rightarrow> bool" where
  "is_better_candidate prefer_high c best \<longleftrightarrow>
     (let same_rank = (rl_role_rank c = rl_role_rank best); same_tier = (rl_tier c = rl_tier best);
          same_count = (rl_coverage_count c = rl_coverage_count best) in
      rl_node_id best = 0 \<or> rl_role_rank best < rl_role_rank c \<or>
      (same_rank \<and> rl_tier best < rl_tier c) \<or>
      (same_rank \<and> same_tier \<and> rl_coverage_count best < rl_coverage_count c) \<or>
      (same_rank \<and> same_tier \<and> same_count \<and> rl_avg_cost_fixed c < rl_avg_cost_fixed best) \<or>
      (same_rank \<and> same_tier \<and> same_count \<and> rl_avg_cost_fixed c = rl_avg_cost_fixed best \<and>
       (if prefer_high then rl_node_id best < rl_node_id c else rl_node_id c < rl_node_id best)))"

text \<open>The log of the evaluation keeps the first four candidates; the cost is filled in afterwards.\<close>

definition log_candidate ::
  "relay_context \<Rightarrow> u32 list \<Rightarrow> u32 \<Rightarrow> u32 \<Rightarrow> u32 \<Rightarrow> (u32 \<times> nat \<times> nat \<times> u16) list \<Rightarrow> (u32 \<times> nat \<times> nat \<times> u16) list" where
  "log_candidate ctx already_covered source_node now_ms candidate ev =
     (let coverage = get_coverage_if_relays ctx candidate now_ms;
          unique = filter (\<lambda>n. \<not> List.member already_covered n) coverage;
          ev = push_evaluated ev candidate (length unique) (length coverage) 0
      in if unique = [] then ev
         else if ev \<noteq> [] \<and> fst (last ev) = candidate
           then butlast ev @ [(case last ev of (n, u, t, _) \<Rightarrow> (n, u, t, avg_cost_of ctx candidate unique now_ms))]
           else ev)"

fun best_candidate_loop ::
  "relay_context \<Rightarrow> u32 list \<Rightarrow> bool \<Rightarrow> u32 \<Rightarrow> u32 \<Rightarrow> (u32 \<Rightarrow> bool) \<Rightarrow> u32 list \<Rightarrow> relay_candidate \<Rightarrow> relay_candidate" where
  "best_candidate_loop ctx covered prefer_high source now_ms has_transmitted [] best = best"
| "best_candidate_loop ctx covered prefer_high source now_ms has_transmitted (c # cs) best =
     best_candidate_loop ctx covered prefer_high source now_ms has_transmitted cs
       (if has_transmitted c then best
        else (case evaluate_candidate ctx covered source now_ms c of
                None \<Rightarrow> best | Some x \<Rightarrow> if is_better_candidate prefer_high x best then x else best))"

definition find_best_relay_candidate ::
  "relay_context \<Rightarrow> u32 list \<Rightarrow> u32 list \<Rightarrow> bool \<Rightarrow> u32 \<Rightarrow> u32 \<Rightarrow> (u32 \<Rightarrow> bool) \<Rightarrow> relay_candidate" where
  "find_best_relay_candidate ctx candidates already_covered prefer_high source now_ms has_transmitted =
     best_candidate_loop ctx already_covered prefer_high source now_ms has_transmitted candidates candidate_default"

definition log_candidates ::
  "relay_context \<Rightarrow> u32 list \<Rightarrow> u32 list \<Rightarrow> u32 \<Rightarrow> u32 \<Rightarrow> (u32 \<Rightarrow> bool) \<Rightarrow> (u32 \<times> nat \<times> nat \<times> u16) list" where
  "log_candidates ctx candidates already_covered source now_ms has_transmitted =
     fold (log_candidate ctx already_covered source now_ms) (filter (\<lambda>c. \<not> has_transmitted c) candidates) []"

section \<open>Acknowledgement by rebroadcast\<close>

record ack_plan =
  ak_my_delay :: u32
  ak_slots_given :: u8
  ak_ranked :: "u32 list"

definition ack_candidate ::
  "relay_context \<Rightarrow> u32 \<Rightarrow> u32 \<Rightarrow> (u32 \<times> u16) list \<Rightarrow> (u32 \<times> u16) list" where
  "ack_candidate ctx source node entries =
     (if MAX_CANDIDATES \<le> length entries \<or> node = 0 \<or> node = source then entries
      else if node \<noteq> bx_my_node ctx \<and>
        \<not> (cap_status (bx_capability ctx) node = CapSrActive \<or> is_immediate_relay_router (bx_capability ctx) node)
      then entries
      else (case acknowledgement_price_fixed (bx_edges ctx) node source of
              None \<Rightarrow> entries | Some price \<Rightarrow> entries @ [(node, price)]))"

definition ack_better :: "bool \<Rightarrow> u32 \<times> u16 \<Rightarrow> u32 \<times> u16 \<Rightarrow> bool" where
  "ack_better prefer_high a b \<longleftrightarrow>
     (let ba = snd a div COST_BUCKET_FIXED; bb = snd b div COST_BUCKET_FIXED in
      if ba \<noteq> bb then ba < bb else if prefer_high then fst b < fst a else fst a < fst b)"

fun ack_loop :: "u32 \<Rightarrow> u32 \<Rightarrow> (u32 \<times> u16) list \<Rightarrow> u32 \<Rightarrow> u8 \<Rightarrow> u32 list \<Rightarrow> ack_plan option" where
  "ack_loop my_node half [] delay given ranked = None"
| "ack_loop my_node half ((node, price) # es) delay given ranked =
     (let ranked = push_ranked ranked node in
      if node = my_node then Some \<lparr>ak_my_delay = delay, ak_slots_given = given, ak_ranked = ranked\<rparr>
      else ack_loop my_node half es (sat_add delay half) (sat_add given 1) ranked)"

definition plan_acknowledgement ::
  "relay_context \<Rightarrow> u32 \<Rightarrow> u32 \<Rightarrow> u32 \<Rightarrow> u32 \<Rightarrow> u32 \<Rightarrow> ack_plan option" where
  "plan_acknowledgement ctx packet_id source heard_from half slot =
     (if \<not> bx_my_node_relays ctx then None
      else (case find_node (bx_edges ctx) (bx_my_node ctx) of
        None \<Rightarrow> None
      | Some me \<Rightarrow>
          if list_ex (\<lambda>e. eg_to e \<noteq> 0 \<and> eg_to e \<noteq> source \<and>
               will_not_cancel_for_us (bx_capability ctx) (eg_to e) \<and>
               stock_can_hear_transmitter (bx_edges ctx) (eg_to e) heard_from) (live_edges me)
          then None
          else
            let entries = fold (ack_candidate ctx source) (bx_my_node ctx # map eg_to (live_edges me)) [] in
            if entries = [] then None
            else ack_loop (bx_my_node ctx) half (sort_entries (ack_better (packet_id AND 1 \<noteq> 0)) entries)
                   (relay_floor_ms slot) 0 []))"

section \<open>The plan\<close>

datatype relay_reason = NoReason | Ranked | Downstream_reason | Sparse | UnicastCost | Acknowledgement

record broadcast_plan =
  bp_should_relay :: bool
  bp_slot_delay_ms :: u32
  bp_slot_index :: u8
  bp_candidate_count :: nat
  bp_ranked :: "u32 list"
  bp_reason :: relay_reason
  bp_evaluated :: "(u32 \<times> nat \<times> nat \<times> u16) list"
  bp_pre_covered :: nat
  bp_uncovered :: "u32 list"
  bp_slots_given :: u8
  bp_reserved_slots :: u8
  bp_reserved_ranked :: u8
  bp_absorbed :: "(u32 \<times> nat) list"
  bp_coverage_for :: u32
  bp_last_hop_backup :: bool
  bp_nonfinal_flood :: bool
  bp_has_nonfinal_flood_slot :: bool

text \<open>The local variables of \<open>plan_broadcast_relay\<close> that its loops change.\<close>

record plan_state =
  ps_covered :: "u32 list"
  ps_candidates :: "u32 list"
  ps_positions :: position_allocator
  ps_should_relay :: bool
  ps_reason :: relay_reason
  ps_delay :: u32
  ps_slot_index :: u8
  ps_coverage_for :: u32
  ps_slots_given :: u8
  ps_reserved_slots :: u8
  ps_reserved_ranked :: u8
  ps_absorbed :: "(u32 \<times> nat) list"
  ps_ranked :: "u32 list"
  ps_evaluated :: "(u32 \<times> nat \<times> nat \<times> u16) list"
  ps_first_pick :: bool

definition plan_start :: "u32 list \<Rightarrow> u32 list \<Rightarrow> u32 \<Rightarrow> u32 \<Rightarrow> plan_state" where
  "plan_start covered candidates slot half =
     \<lparr>ps_covered = covered, ps_candidates = candidates, ps_positions = allocator_new slot half,
      ps_should_relay = False, ps_reason = NoReason, ps_delay = 0, ps_slot_index = 0,
      ps_coverage_for = 0, ps_slots_given = 0, ps_reserved_slots = 0, ps_reserved_ranked = 0,
      ps_absorbed = [], ps_ranked = [], ps_evaluated = [], ps_first_pick = True\<rparr>"

definition credit_relay :: "relay_context \<Rightarrow> u32 \<Rightarrow> u32 \<Rightarrow> plan_state \<Rightarrow> plan_state" where
  "credit_relay ctx now_ms relay p =
     (case absorb_relay_coverage ctx (ps_covered p) relay now_ms of
        (covered, credit) \<Rightarrow>
          p\<lparr>ps_covered := covered, ps_absorbed := push_absorbed (ps_absorbed p) relay credit\<rparr>)"

definition reserve_neighbor ::
  "relay_context \<Rightarrow> u32 \<Rightarrow> u32 \<Rightarrow> u32 \<Rightarrow> (u32 \<Rightarrow> bool) \<Rightarrow> u32 \<Rightarrow> plan_state \<Rightarrow> plan_state" where
  "reserve_neighbor ctx source heard_from now_ms has_transmitted neighbor p =
     (if neighbor = 0 \<or> neighbor = heard_from \<or> neighbor = source then p
      else if \<not> is_immediate_relay_router (bx_capability ctx) neighbor then p
      else
        let p = p\<lparr>ps_candidates := nodeset_erase neighbor (ps_candidates p)\<rparr> in
        if \<not> stock_can_hear_transmitter (bx_edges ctx) neighbor heard_from then p
        else
          let p = p\<lparr>ps_ranked := push_ranked (ps_ranked p) neighbor,
                    ps_reserved_ranked := sat_add (ps_reserved_ranked p) 1\<rparr>;
              p = (if has_transmitted neighbor then credit_relay ctx now_ms neighbor p
                   else p\<lparr>ps_slots_given := sat_add (ps_slots_given p) 1,
                          ps_reserved_slots := sat_add (ps_reserved_slots p) 1\<rparr>)
          in p\<lparr>ps_positions := fst (take_reserved (ps_positions p))\<rparr>)"

definition reserve_neighbors ::
  "relay_context \<Rightarrow> u32 \<Rightarrow> u32 \<Rightarrow> u32 \<Rightarrow> (u32 \<Rightarrow> bool) \<Rightarrow> plan_state \<Rightarrow> plan_state" where
  "reserve_neighbors ctx source heard_from now_ms has_transmitted p =
     (case find_node (bx_edges ctx) (bx_my_node ctx) of
        None \<Rightarrow> p
      | Some me \<Rightarrow> fold (reserve_neighbor ctx source heard_from now_ms has_transmitted) (map eg_to (live_edges me)) p)"

text \<open>
  The routers stay, the others move to the late candidates. Erasing puts the last candidate in
  the place of the erased one, which is looked at next.
\<close>

function split_loop :: "relay_context \<Rightarrow> nat \<Rightarrow> u32 list \<Rightarrow> u32 list \<Rightarrow> u32 list \<times> u32 list" where
  "split_loop ctx i candidates late =
     (if i < length candidates then
        (if may_take_early_window ctx (candidates ! i) then split_loop ctx (Suc i) candidates late
         else split_loop ctx i (nodeset_erase (candidates ! i) candidates) (nodeset_insert (candidates ! i) late))
      else (candidates, late))"
  by pat_completeness auto
termination
  by (relation "measure (\<lambda>(ctx, i, candidates, late). length candidates - i)")
    (auto simp: nodeset_erase_def position_None_iff split: option.splits)

declare split_loop.simps [simp del]

lemma best_candidate_loop_result:
  "best_candidate_loop ctx covered prefer_high source now_ms has_transmitted cs best = best \<or>
   (\<exists>c \<in> set cs. \<not> has_transmitted c \<and> evaluate_candidate ctx covered source now_ms c =
      Some (best_candidate_loop ctx covered prefer_high source now_ms has_transmitted cs best))"
proof (induction cs arbitrary: best)
  case (Cons c cs)
  show ?case using Cons [of best] Cons [of "the (evaluate_candidate ctx covered source now_ms c)"]
    by (auto split: option.splits)
qed simp

lemma evaluate_candidate_id: "evaluate_candidate ctx covered source now_ms c = Some x \<Longrightarrow> rl_node_id x = c"
  by (auto simp: evaluate_candidate_def Let_def split: if_splits)

lemma find_best_cases:
  assumes "rl_node_id (find_best_relay_candidate ctx pool covered prefer_high source now_ms has_transmitted) \<noteq> 0"
  shows "rl_node_id (find_best_relay_candidate ctx pool covered prefer_high source now_ms has_transmitted) \<in> set pool"
    "\<not> has_transmitted (rl_node_id (find_best_relay_candidate ctx pool covered prefer_high source now_ms has_transmitted))"
  using best_candidate_loop_result [of ctx covered prefer_high source now_ms has_transmitted pool candidate_default]
    assms by (auto simp: find_best_relay_candidate_def candidate_default_def dest: evaluate_candidate_id)

lemma nodeset_erase_shorter:
  assumes "x \<in> set xs"
  shows "length (nodeset_erase x xs) < length xs"
proof -
  from assms have "xs \<noteq> []" by auto
  then show ?thesis using assms by (auto simp: nodeset_erase_def position_None_iff split: option.splits)
qed

text \<open>One pool is ranked until it is empty, no candidate is left that adds coverage, or this node is reached.\<close>

function rank_pool ::
  "relay_context \<Rightarrow> bool \<Rightarrow> bool \<Rightarrow> u32 \<Rightarrow> u32 \<Rightarrow> (u32 \<Rightarrow> bool) \<Rightarrow> u32 list \<Rightarrow> plan_state \<Rightarrow> plan_state" where
  "rank_pool ctx early prefer_high source now_ms has_transmitted pool p =
     (if pool = [] then p
      else
        let best = find_best_relay_candidate ctx pool (ps_covered p) prefer_high source now_ms has_transmitted;
            p = (if ps_first_pick p
                 then p\<lparr>ps_evaluated := log_candidates ctx pool (ps_covered p) source now_ms has_transmitted,
                        ps_first_pick := False\<rparr> else p)
        in if rl_node_id best = 0 then p
           else
             let pool = nodeset_erase (rl_node_id best) pool in
             if has_transmitted (rl_node_id best) then
               rank_pool ctx early prefer_high source now_ms has_transmitted pool
                 (credit_relay ctx now_ms (rl_node_id best) p)
             else
               let p = p\<lparr>ps_ranked := push_ranked (ps_ranked p) (rl_node_id best)\<rparr>;
                   assigned_index = pa_next_index (ps_positions p)
               in (case (if early then take_rung (ps_positions p) else take_late_rung (ps_positions p)) of
                     (positions, delay) \<Rightarrow>
                       let p = p\<lparr>ps_positions := positions\<rparr> in
                       if rl_node_id best = bx_my_node ctx then
                         p\<lparr>ps_should_relay := True, ps_reason := Ranked, ps_slot_index := assigned_index,
                           ps_delay := delay, ps_coverage_for := rl_coverage_for best\<rparr>
                       else
                         rank_pool ctx early prefer_high source now_ms has_transmitted pool
                           (p\<lparr>ps_slots_given := sat_add (ps_slots_given p) 1\<rparr>)))"
  by pat_completeness auto
termination
  by (relation "measure (\<lambda>(ctx, early, prefer_high, source, now_ms, has_transmitted, pool, p). length pool)")
    (auto intro: nodeset_erase_shorter find_best_cases)

declare rank_pool.simps [simp del]

definition rank_pools ::
  "relay_context \<Rightarrow> bool \<Rightarrow> u32 \<Rightarrow> u32 \<Rightarrow> (u32 \<Rightarrow> bool) \<Rightarrow> plan_state \<Rightarrow> plan_state" where
  "rank_pools ctx prefer_high source now_ms has_transmitted p =
     (case split_loop ctx 0 (ps_candidates p) [] of
        (early, late) \<Rightarrow>
          let p = rank_pool ctx True prefer_high source now_ms has_transmitted early p in
          if ps_should_relay p then p else rank_pool ctx False prefer_high source now_ms has_transmitted late p)"

definition relay_free :: "relay_reason \<Rightarrow> plan_state \<Rightarrow> plan_state" where
  "relay_free reason p =
     (case first_free_ms (ps_positions p) of
        (positions, delay) \<Rightarrow>
          p\<lparr>ps_should_relay := True, ps_reason := reason, ps_slot_index := pa_next_index (ps_positions p),
            ps_positions := positions, ps_delay := delay\<rparr>)"

definition relay_downstream :: "relay_context \<Rightarrow> u32 \<Rightarrow> u32 \<Rightarrow> u32 \<Rightarrow> plan_state \<Rightarrow> plan_state" where
  "relay_downstream ctx source broadcast_dest now_ms p =
     (if \<not> ps_should_relay p \<and>
         (get_relay (bx_downstream ctx) source now_ms DOWNSTREAM_TTL_MS = Some (bx_my_node ctx) \<or>
          get_relay (bx_downstream ctx) broadcast_dest now_ms DOWNSTREAM_TTL_MS = Some (bx_my_node ctx))
      then relay_free Downstream_reason p else p)"

definition relay_sparse :: "nat \<Rightarrow> plan_state \<Rightarrow> plan_state" where
  "relay_sparse initial_candidates p =
     (if \<not> ps_should_relay p \<and> initial_candidates \<le> 1 then relay_free Sparse p else p)"

definition relay_acknowledgement ::
  "relay_context \<Rightarrow> u32 \<Rightarrow> u32 \<Rightarrow> u32 \<Rightarrow> u32 \<Rightarrow> u32 \<Rightarrow> bool \<Rightarrow> plan_state \<Rightarrow> plan_state" where
  "relay_acknowledgement ctx packet_id source heard_from half slot ack_eligible p =
     (if \<not> ps_should_relay p \<and> ps_slots_given p = 0 \<and> ack_eligible then
        (case plan_acknowledgement ctx packet_id source heard_from half slot of
           None \<Rightarrow> p
         | Some ack \<Rightarrow>
             p\<lparr>ps_should_relay := True, ps_reason := Acknowledgement, ps_delay := ak_my_delay ack,
               ps_slot_index := ak_slots_given ack, ps_slots_given := ak_slots_given ack,
               ps_ranked := fold (\<lambda>n r. push_ranked r n) (ak_ranked ack) (ps_ranked p)\<rparr>)
      else p)"

definition plan_broadcast_relay ::
  "relay_context \<Rightarrow> u32 \<Rightarrow> u32 \<Rightarrow> u32 \<Rightarrow> u32 \<Rightarrow> u32 \<Rightarrow> u32 \<Rightarrow> u32 \<Rightarrow> (u32 \<Rightarrow> bool) \<Rightarrow> bool \<Rightarrow> broadcast_plan" where
  "plan_broadcast_relay ctx packet_id source heard_from broadcast_dest now_ms half_airtime slot has_transmitted ack_eligible =
     (let half = max half_airtime MIN_RUNG_SPACING_MS;
          prefer_high = (packet_id AND 1 \<noteq> 0);
          already_covered = build_already_covered (bx_edges ctx) (bx_capability ctx) source heard_from;
          uncovered = take UNCOVERED_LOG (filter (\<lambda>n. \<not> List.member already_covered n)
            (get_coverage_if_relays ctx (bx_my_node ctx) now_ms));
          candidates = build_candidates ctx source heard_from;
          p = reserve_neighbors ctx source heard_from now_ms has_transmitted
                (plan_start already_covered candidates slot half);
          p = rank_pools ctx prefer_high source now_ms has_transmitted p;
          p = relay_downstream ctx source broadcast_dest now_ms p;
          p = relay_sparse (length candidates) p;
          p = relay_acknowledgement ctx packet_id source heard_from half slot ack_eligible p
      in \<lparr>bp_should_relay = ps_should_relay p, bp_slot_delay_ms = ps_delay p, bp_slot_index = ps_slot_index p,
          bp_candidate_count = max (length candidates) 1, bp_ranked = ps_ranked p, bp_reason = ps_reason p,
          bp_evaluated = ps_evaluated p, bp_pre_covered = length already_covered, bp_uncovered = uncovered,
          bp_slots_given = ps_slots_given p, bp_reserved_slots = ps_reserved_slots p,
          bp_reserved_ranked = ps_reserved_ranked p, bp_absorbed = ps_absorbed p,
          bp_coverage_for = ps_coverage_for p, bp_last_hop_backup = False, bp_nonfinal_flood = False,
          bp_has_nonfinal_flood_slot = False\<rparr>)"

section \<open>Sets and the split\<close>

lemma nodeset_erase_mset: "x \<in> set xs \<Longrightarrow> add_mset x (mset (nodeset_erase x xs)) = mset xs"
proof -
  assume "x \<in> set xs"
  then obtain i where i: "position (\<lambda>i. i = x) xs = Some i" by (cases "position (\<lambda>i. i = x) xs") (auto simp: position_None_iff)
  then have l: "i < length xs" "xs ! i = x" using position_less position_holds by fastforce+
  have "butlast (xs[i := last xs]) = take (length xs - 1) (if i < length xs - 1 then xs[i := xs ! (length xs - 1)] else xs)"
  proof -
    have "xs \<noteq> []" using l(1) by auto
    then show ?thesis using l(1) by (auto simp: butlast_conv_take last_conv_nth)
  qed
  then show ?thesis using mset_take_swap_out [of i "length xs" xs] l i by (simp add: nodeset_erase_def)
qed

lemma nodeset_erase_set:
  assumes "distinct xs"
  shows "set (nodeset_erase x xs) = set xs - {x}" "distinct (nodeset_erase x xs)"
    "length (nodeset_erase x xs) \<le> length xs"
proof -
  have "set (nodeset_erase x xs) = set xs - {x} \<and> distinct (nodeset_erase x xs) \<and> length (nodeset_erase x xs) \<le> length xs"
  proof (cases "x \<in> set xs")
    case True
    let ?ys = "nodeset_erase x xs"
    have m: "mset (x # ?ys) = mset xs" using nodeset_erase_mset [OF True] by simp
    then have "set (x # ?ys) = set xs" "distinct (x # ?ys)" "length (x # ?ys) = length xs"
      using assms mset_eq_imp_distinct_iff [OF m] mset_eq_setD [OF m] mset_eq_length [OF m] by auto
    then show ?thesis by auto
  next
    case False
    then have "position (\<lambda>i. i = x) xs = None" by (auto simp: position_None_iff)
    then show ?thesis using assms False by (simp add: nodeset_erase_def)
  qed
  then show "set (nodeset_erase x xs) = set xs - {x}" "distinct (nodeset_erase x xs)"
    "length (nodeset_erase x xs) \<le> length xs" by auto
qed

lemma set_insert_set: "set ids \<subseteq> set (set_insert cap node ids)" "set (set_insert cap node ids) \<subseteq> insert node (set ids)"
  "distinct ids \<Longrightarrow> distinct (set_insert cap node ids)" "0 \<notin> set ids \<Longrightarrow> 0 \<notin> set (set_insert cap node ids)"
  "length (set_insert cap node ids) \<le> Suc (length ids)" "length ids \<le> cap \<Longrightarrow> length (set_insert cap node ids) \<le> cap"
  "node \<noteq> 0 \<Longrightarrow> length ids < cap \<Longrightarrow> set (set_insert cap node ids) = insert node (set ids)"
  by (auto simp: set_insert_def push_capped_def List.member_iff)

text \<open>The split keeps every candidate; the routers, and only they, stay early.\<close>

lemma split_loop_sets:
  assumes "split_loop ctx i cs late = (early, late')" "distinct cs" "0 \<notin> set cs \<union> set late"
    "length cs + length late \<le> MAX_CANDIDATES" "\<forall>j < i. j < length cs \<longrightarrow> may_take_early_window ctx (cs ! j)"
    "distinct late"
  shows "set early \<union> set late' = set cs \<union> set late \<and> 0 \<notin> set early \<union> set late' \<and> distinct early \<and> distinct late' \<and>
    (\<forall>c \<in> set early. may_take_early_window ctx c)"
  using assms
proof (induction ctx i cs late rule: split_loop.induct)
  case (1 ctx i cs late)
  show ?case
  proof (cases "i < length cs")
    case False
    then have "early = cs" "late' = late" using 1(3) by (simp_all add: split_loop.simps [of ctx i cs])
    then show ?thesis using 1(4,5,7,8) False by (auto simp: in_set_conv_nth)
  next
    case True
    show ?thesis
    proof (cases "may_take_early_window ctx (cs ! i)")
      case r: True
      have "\<forall>j < Suc i. j < length cs \<longrightarrow> may_take_early_window ctx (cs ! j)" using 1(7) r by (auto simp: less_Suc_eq)
      then show ?thesis using 1(1) [OF True r] 1(3-) True r by (simp add: split_loop.simps [of ctx i cs])
    next
      case r: False
      let ?cs = "nodeset_erase (cs ! i) cs" and ?late = "nodeset_insert (cs ! i) late"
      have m: "cs ! i \<in> set cs" using True by simp
      then have m: "cs ! i \<in> set cs" "cs ! i \<noteq> 0" using 1(5) by (metis UnI1)+
      note e = nodeset_erase_set [OF 1(4), of "cs ! i"] nodeset_erase_shorter [OF m(1)]
      have lt: "length late < MAX_CANDIDATES" using 1(6) True by simp
      note n = set_insert_set [where cap = MAX_CANDIDATES and node = "cs ! i" and ids = late, folded nodeset_insert_def]
      have pre: "\<forall>j < i. j < length ?cs \<longrightarrow> may_take_early_window ctx (?cs ! j)"
      proof (intro allI impI)
        fix j assume j: "j < i" "j < length ?cs"
        have "position (\<lambda>k. k = cs ! i) cs = Some i"
        proof -
          have "position (\<lambda>k. k = cs ! i) cs \<noteq> None" using m(1) by (auto simp: position_None_iff)
          then obtain k where k: "position (\<lambda>k. k = cs ! i) cs = Some k" by auto
          then show ?thesis using position_less [OF k] position_holds [OF k] 1(4) True by (simp add: nth_eq_iff_index_eq)
        qed
        then have "?cs ! j = cs ! j" using j by (simp add: nodeset_erase_def nth_butlast)
        then show "may_take_early_window ctx (?cs ! j)" using 1(7) j True by auto
      qed
      have "split_loop ctx i ?cs ?late = (early, late')" using 1(3) True r by (simp add: split_loop.simps [of ctx i cs])
      from 1(2) [OF True r this e(2) _ _ pre] have
        "set early \<union> set late' = set ?cs \<union> set ?late \<and> 0 \<notin> set early \<union> set late' \<and> distinct early \<and> distinct late' \<and>
         (\<forall>c \<in> set early. may_take_early_window ctx c)"
        using e 1(5,6,8) n(3,4,5) lt m by (auto simp: nodeset_insert_def)
      then show ?thesis using e(1) n(7) [OF m(2) lt] m(1) by (auto simp: nodeset_insert_def)
    qed
  qed
qed

section \<open>The ranking\<close>

lemma best_loop_nonzero:
  assumes "0 \<notin> set cs" "rl_node_id best \<noteq> 0 \<or> (\<exists>c \<in> set cs. \<not> ht c \<and> evaluate_candidate ctx covered source now_ms c \<noteq> None)"
  shows "rl_node_id (best_candidate_loop ctx covered ph source now_ms ht cs best) \<noteq> 0"
  using assms
proof (induction cs arbitrary: best)
  case (Cons c cs)
  let ?b = "if ht c then best else (case evaluate_candidate ctx covered source now_ms c of
      None \<Rightarrow> best | Some x \<Rightarrow> if is_better_candidate ph x best then x else best)"
  have "rl_node_id ?b \<noteq> 0 \<or> (\<exists>c \<in> set cs. \<not> ht c \<and> evaluate_candidate ctx covered source now_ms c \<noteq> None)"
    using Cons.prems by (auto simp: is_better_candidate_def Let_def dest: evaluate_candidate_id split: option.splits)
  with Cons.IH [of ?b] Cons.prems(1) show ?case by simp
qed auto

lemma find_best_nonzero:
  "0 \<notin> set pool \<Longrightarrow> c \<in> set pool \<Longrightarrow> \<not> ht c \<Longrightarrow> evaluate_candidate ctx covered source now_ms c \<noteq> None \<Longrightarrow>
   rl_node_id (find_best_relay_candidate ctx pool covered ph source now_ms ht) \<noteq> 0"
  unfolding find_best_relay_candidate_def by (rule best_loop_nonzero) auto

text \<open>A candidate that has transmitted is never the best one, so coverage is not credited while ranking.\<close>

definition note_pick :: "relay_context \<Rightarrow> u32 list \<Rightarrow> u32 \<Rightarrow> u32 \<Rightarrow> (u32 \<Rightarrow> bool) \<Rightarrow> plan_state \<Rightarrow> plan_state" where
  "note_pick ctx pool source now_ms ht p =
     (if ps_first_pick p
      then p\<lparr>ps_evaluated := log_candidates ctx pool (ps_covered p) source now_ms ht, ps_first_pick := False\<rparr> else p)"

lemma note_pick_fields [simp]:
  "ps_covered (note_pick ctx pool source now_ms ht p) = ps_covered p"
  "ps_positions (note_pick ctx pool source now_ms ht p) = ps_positions p"
  "ps_should_relay (note_pick ctx pool source now_ms ht p) = ps_should_relay p"
  by (simp_all add: note_pick_def)

lemma rank_pool_step:
  "rank_pool ctx early ph source now_ms ht pool p =
     (if pool = [] then p
      else
        let best = find_best_relay_candidate ctx pool (ps_covered p) ph source now_ms ht;
            q = note_pick ctx pool source now_ms ht p
        in if rl_node_id best = 0 then q
           else (case (if early then take_rung (ps_positions q) else take_late_rung (ps_positions q)) of
             (positions, delay) \<Rightarrow>
               let q' = q\<lparr>ps_ranked := push_ranked (ps_ranked q) (rl_node_id best), ps_positions := positions\<rparr> in
               if rl_node_id best = bx_my_node ctx then
                 q'\<lparr>ps_should_relay := True, ps_reason := Ranked, ps_slot_index := pa_next_index (ps_positions q),
                    ps_delay := delay, ps_coverage_for := rl_coverage_for best\<rparr>
               else rank_pool ctx early ph source now_ms ht (nodeset_erase (rl_node_id best) pool)
                      (q'\<lparr>ps_slots_given := sat_add (ps_slots_given q) 1\<rparr>)))"
  using find_best_cases(2) [of ctx pool "ps_covered p" ph source now_ms ht]
  by (subst rank_pool.simps) (auto simp: Let_def note_pick_def split: prod.split)

text \<open>
  No position past the window lies before the floor: neither the rungs already taken nor the free
  one.
\<close>

definition floor_ok :: "u32 \<Rightarrow> position_allocator \<Rightarrow> bool" where
  "floor_ok slot a \<longleftrightarrow> wl_slot_time_ms (pa_window a) = slot \<and>
     (\<forall>s. pa_ladder_start_ms a = Some s \<longrightarrow> relay_floor_ms slot \<le> s)"

lemma floor_ok_new: "floor_ok slot (allocator_new slot half)"
  by (simp add: floor_ok_def allocator_new_def window_new_def)

lemma first_rung_floor: "wl_slot_time_ms w = slot \<Longrightarrow> relay_floor_ms slot \<le> first_rung_ms w"
  by (auto simp: first_rung_ms_def Let_def split: option.split)

lemma place_slot: "wl_slot_time_ms (fst (place w x)) = wl_slot_time_ms w"
  by (auto simp: place_def Let_def)

lemma spill_floor:
  assumes "floor_ok slot a"
  shows "floor_ok slot (fst (spill a))" "relay_floor_ms slot \<le> snd (spill a)"
proof -
  let ?s = "case pa_ladder_start_ms a of Some s \<Rightarrow> s | None \<Rightarrow> first_rung_ms (pa_window a)"
  have s: "relay_floor_ms slot \<le> ?s"
    using assms first_rung_floor by (auto simp: floor_ok_def split: option.split)
  then show "floor_ok slot (fst (spill a))" using assms by (simp add: spill_def Let_def floor_ok_def)
  show "relay_floor_ms slot \<le> snd (spill a)"
    using order_trans [OF s sat_add_ge] by (simp add: spill_def Let_def)
qed

lemma take_placed_floor:
  assumes "floor_ok slot a"
  shows "floor_ok slot (fst (take_placed (place (pa_window a) x) a))"
proof (cases "place (pa_window a) x")
  case (Pair w pos)
  then have "wl_slot_time_ms w = slot" using place_slot [of "pa_window a" x] assms by (simp add: floor_ok_def)
  then have w: "floor_ok slot (a\<lparr>pa_window := w\<rparr>)" using assms by (simp add: floor_ok_def)
  then show ?thesis using Pair spill_floor(1) [OF w]
    by (auto simp: take_placed_def floor_ok_def split: option.split prod.split)
qed

lemma take_floor:
  assumes "floor_ok slot a"
  shows "floor_ok slot (fst (take_reserved a))" "floor_ok slot (fst (take_rung a))"
    "floor_ok slot (fst (take_late_rung a))" "relay_floor_ms slot \<le> snd (take_late_rung a)"
    "relay_floor_ms slot \<le> snd (first_free_ms a)"
proof -
  show "floor_ok slot (fst (take_reserved a))" "floor_ok slot (fst (take_rung a))"
    using take_placed_floor [OF assms]
    by (simp_all add: take_reserved_def take_rung_def place_reserved_def place_ranked_def)
  show "floor_ok slot (fst (take_late_rung a))" "relay_floor_ms slot \<le> snd (take_late_rung a)"
    using spill_floor [OF assms] by (auto simp: take_late_rung_def floor_ok_def split: prod.splits)
  show "relay_floor_ms slot \<le> snd (first_free_ms a)"
    using spill_floor(2) [OF assms] first_rung_floor [of "pa_window a" slot] assms
    by (auto simp: first_free_ms_def floor_ok_def)
qed

lemma evaluate_candidate_iff:
  "evaluate_candidate ctx covered source now_ms c \<noteq> None \<longleftrightarrow> \<not> set (get_coverage_if_relays ctx c now_ms) \<subseteq> set covered"
  by (auto simp: evaluate_candidate_def Let_def filter_empty_conv)

lemma evaluate_candidate_for:
  assumes "evaluate_candidate ctx covered source now_ms c = Some x"
  shows "rl_coverage_for x \<in> set (get_coverage_if_relays ctx c now_ms) - set covered"
proof -
  let ?u = "filter (\<lambda>n. n \<notin> set covered) (get_coverage_if_relays ctx c now_ms)"
  have "?u \<noteq> []" "rl_coverage_for x = hd ?u"
    using assms by (auto simp: evaluate_candidate_def Let_def split: if_splits)
  then have "rl_coverage_for x \<in> set ?u" by (metis hd_in_set)
  then show ?thesis by auto
qed

lemma find_best_for:
  assumes "rl_node_id (find_best_relay_candidate ctx pool covered ph source now_ms ht) = c" "c \<noteq> 0"
  shows "rl_coverage_for (find_best_relay_candidate ctx pool covered ph source now_ms ht)
    \<in> set (get_coverage_if_relays ctx c now_ms) - set covered"
  using best_candidate_loop_result [of ctx covered ph source now_ms ht pool candidate_default] assms
  by (auto simp: find_best_relay_candidate_def candidate_default_def
      dest: evaluate_candidate_id evaluate_candidate_for)

definition ranked_well :: "relay_context \<Rightarrow> bool \<Rightarrow> u32 \<Rightarrow> u32 \<Rightarrow> (u32 \<Rightarrow> bool) \<Rightarrow> u32 list \<Rightarrow> u32 list \<Rightarrow> plan_state \<Rightarrow> bool" where
  "ranked_well ctx early slot now_ms ht pool covered r \<longleftrightarrow>
     ps_covered r = covered \<and> floor_ok slot (ps_positions r) \<and>
     (if ps_should_relay r then bx_my_node ctx \<in> set pool \<and> ps_reason r = Ranked \<and>
        (early \<or> relay_floor_ms slot \<le> ps_delay r) \<and>
        ps_coverage_for r \<in> set (get_coverage_if_relays ctx (bx_my_node ctx) now_ms) - set covered
      else bx_my_node ctx \<in> set pool \<and> \<not> ht (bx_my_node ctx) \<longrightarrow>
        set (get_coverage_if_relays ctx (bx_my_node ctx) now_ms) \<subseteq> set covered)"

lemma rank_pool_outcome:
  assumes "floor_ok slot (ps_positions p)" "\<not> ps_should_relay p" "distinct pool" "0 \<notin> set pool"
  shows "ranked_well ctx early slot now_ms ht pool (ps_covered p) (rank_pool ctx early ph source now_ms ht pool p)"
  using assms
proof (induction pool arbitrary: p rule: length_induct)
  case (1 pool)
  let ?best = "find_best_relay_candidate ctx pool (ps_covered p) ph source now_ms ht"
  let ?q = "note_pick ctx pool source now_ms ht p"
  show ?case
  proof (cases "pool = [] \<or> rl_node_id ?best = 0")
    case True
    have "set (get_coverage_if_relays ctx (bx_my_node ctx) now_ms) \<subseteq> set (ps_covered p)"
      if m: "bx_my_node ctx \<in> set pool" "\<not> ht (bx_my_node ctx)"
      using find_best_nonzero [where ht = ht, OF 1(5) m, of ctx "ps_covered p" source now_ms ph] True m(1)
      unfolding evaluate_candidate_iff by auto
    moreover have "rank_pool ctx early ph source now_ms ht pool p \<in> {p, ?q}"
      by (rule disjE [OF True]; subst rank_pool_step; simp add: Let_def)
    ultimately show ?thesis using 1(2,3) by (auto simp: ranked_well_def)
  next
    case False
    note b = find_best_cases [OF conjunct2 [OF False [unfolded de_Morgan_disj]]]
    obtain positions delay where t:
      "(if early then take_rung (ps_positions ?q) else take_late_rung (ps_positions ?q)) = (positions, delay)"
      by (cases "if early then take_rung (ps_positions ?q) else take_late_rung (ps_positions ?q)")
    have fl: "floor_ok slot positions" "early \<or> relay_floor_ms slot \<le> delay"
      using take_floor [OF 1(2)] t by (auto split: if_splits)
    let ?p' = "?q\<lparr>ps_ranked := push_ranked (ps_ranked ?q) (rl_node_id ?best), ps_positions := positions\<rparr>"
    show ?thesis
    proof (cases "rl_node_id ?best = bx_my_node ctx")
      case True
      have "rank_pool ctx early ph source now_ms ht pool p =
          ?p'\<lparr>ps_should_relay := True, ps_reason := Ranked, ps_slot_index := pa_next_index (ps_positions ?q),
             ps_delay := delay, ps_coverage_for := rl_coverage_for ?best\<rparr>"
        using False True t by (subst rank_pool_step) (simp add: Let_def)
      then show ?thesis using fl b(1) find_best_for [OF True] False True by (simp add: ranked_well_def)
    next
      case other: False
      let ?pool = "nodeset_erase (rl_node_id ?best) pool" and ?r = "?p'\<lparr>ps_slots_given := sat_add (ps_slots_given ?q) 1\<rparr>"
      have "ranked_well ctx early slot now_ms ht ?pool (ps_covered ?r) (rank_pool ctx early ph source now_ms ht ?pool ?r)"
        using nodeset_erase_shorter [OF b(1)] fl 1(3,5) nodeset_erase_set [OF 1(4)]
        by (intro 1(1) [rule_format]) simp_all
      moreover have "rank_pool ctx early ph source now_ms ht pool p = rank_pool ctx early ph source now_ms ht ?pool ?r"
        using False other t by (subst rank_pool_step) (simp add: Let_def)
      ultimately show ?thesis
        using nodeset_erase_set(1) [OF 1(4)] other by (auto simp: ranked_well_def split: if_splits)
    qed
  qed
qed

section \<open>The whole plan\<close>

definition my_neighbors :: "relay_context \<Rightarrow> u32 list" where
  "my_neighbors ctx =
     (case find_node (bx_edges ctx) (bx_my_node ctx) of None \<Rightarrow> [] | Some me \<Rightarrow> map eg_to (live_edges me))"

text \<open>
  The nodes this node may take for served: the source, the transmitter, what the transmitter
  covers, and the neighbouring routers heard sending the packet with what they cover.
\<close>

definition served :: "relay_context \<Rightarrow> u32 \<Rightarrow> u32 \<Rightarrow> u32 \<Rightarrow> (u32 \<Rightarrow> bool) \<Rightarrow> u32 \<Rightarrow> bool" where
  "served ctx source heard_from now_ms ht t \<longleftrightarrow>
     t = source \<or> t = heard_from \<or> covers (bx_edges ctx) (Some (bx_capability ctx)) heard_from t \<or>
     list_ex (\<lambda>n. n \<noteq> source \<and> n \<noteq> heard_from \<and> is_immediate_relay_router (bx_capability ctx) n \<and> ht n \<and>
       (t = n \<or> admits_coverage ctx n t now_ms)) (my_neighbors ctx)"

definition plan_ready :: "relay_context \<Rightarrow> u32 \<Rightarrow> (u32 \<Rightarrow> bool) \<Rightarrow> plan_state \<Rightarrow> bool" where
  "plan_ready ctx slot P p \<longleftrightarrow> floor_ok slot (ps_positions p) \<and> \<not> ps_should_relay p \<and>
     distinct (ps_candidates p) \<and> 0 \<notin> set (ps_candidates p) \<and> length (ps_candidates p) \<le> MAX_CANDIDATES \<and>
     bx_my_node ctx \<in> set (ps_candidates p) \<and> (\<forall>t \<in> set (ps_covered p). P t)"

lemma covered_insert_subset: "set (covered_insert node covered) \<subseteq> insert node (set covered)"
  unfolding covered_insert_def by (rule set_insert_set(2))

lemma fold_insert_subset:
  "set (fold (\<lambda>e covered. if B e then covered_insert (f e) covered else covered) es covered) \<subseteq>
     set covered \<union> f ` {e \<in> set es. B e}"
proof (induction es arbitrary: covered)
  case (Cons e es)
  let ?c = "if B e then covered_insert (f e) covered else covered"
  have "set ?c \<subseteq> set covered \<union> f ` {x \<in> {e}. B x}" using covered_insert_subset [of "f e" covered] by auto
  with Cons [of ?c] show ?case by fastforce
qed simp

lemma build_already_covered_served:
  "set (build_already_covered (bx_edges ctx) (bx_capability ctx) source heard_from) \<subseteq>
     {t. served ctx source heard_from now_ms ht t}"
proof -
  let ?c = "covered_insert heard_from (covered_insert source [])"
  have c: "set ?c \<subseteq> {source, heard_from}"
    using covered_insert_subset [of heard_from "covered_insert source []"] covered_insert_subset [of source "[]"] by auto
  show ?thesis
  proof (cases "find_node (bx_edges ctx) heard_from")
    case None
    then show ?thesis using c by (auto simp: build_already_covered_def served_def)
  next
    case (Some he)
    let ?B = "\<lambda>e. eg_to e \<noteq> 0 \<and> covers (bx_edges ctx) (Some (bx_capability ctx)) heard_from (eg_to e)"
    have "set (build_already_covered (bx_edges ctx) (bx_capability ctx) source heard_from) \<subseteq>
        set ?c \<union> eg_to ` {e \<in> set (live_edges he). ?B e}"
      using Some fold_insert_subset [of ?B eg_to "live_edges he" ?c] by (simp add: build_already_covered_def)
    then show ?thesis using c by (auto simp: served_def)
  qed
qed

lemma absorb_relay_coverage_subset:
  "set (fst (absorb_relay_coverage ctx covered relay now_ms)) \<subseteq>
     set covered \<union> {relay} \<union> {t. admits_coverage ctx relay t now_ms}"
proof (cases "find_node (bx_edges ctx) relay")
  case None
  then show ?thesis using covered_insert_subset [of relay covered] by (auto simp: absorb_relay_coverage_def Let_def)
next
  case (Some re)
  let ?B = "\<lambda>e. is_measured (eg_source e) \<and> admits_coverage ctx relay (eg_to e) now_ms"
  have "set (fst (absorb_relay_coverage ctx covered relay now_ms)) \<subseteq> set (covered_insert relay covered) \<union>
      eg_to ` {e \<in> set (live_edges re). ?B e}"
    using Some fold_insert_subset [of ?B eg_to "live_edges re" "covered_insert relay covered"]
    by (simp add: absorb_relay_coverage_def Let_def)
  then show ?thesis using covered_insert_subset [of relay covered] by auto
qed

lemma credit_relay_fields:
  "ps_positions (credit_relay ctx now_ms n p) = ps_positions p"
  "ps_candidates (credit_relay ctx now_ms n p) = ps_candidates p"
  "ps_should_relay (credit_relay ctx now_ms n p) = ps_should_relay p"
  "set (ps_covered (credit_relay ctx now_ms n p)) \<subseteq> set (ps_covered p) \<union> {n} \<union> {t. admits_coverage ctx n t now_ms}"
  using absorb_relay_coverage_subset [of ctx "ps_covered p" n now_ms]
  by (auto simp: credit_relay_def split: prod.splits)

lemma reserve_neighbor_ready:
  assumes "plan_ready ctx slot (served ctx source heard_from now_ms ht) p" "n \<in> set (my_neighbors ctx)" "n \<noteq> bx_my_node ctx"
  shows "plan_ready ctx slot (served ctx source heard_from now_ms ht) (reserve_neighbor ctx source heard_from now_ms ht n p)"
proof -
  let ?P = "served ctx source heard_from now_ms ht"
  let ?p = "p\<lparr>ps_candidates := nodeset_erase n (ps_candidates p)\<rparr>"
  have d: "distinct (ps_candidates p)" using assms(1) by (simp add: plan_ready_def)
  have e: "plan_ready ctx slot ?P ?p"
    using assms(1,3) nodeset_erase_set [OF d, of n] by (auto simp: plan_ready_def)
  have mark: "plan_ready ctx slot ?P (q\<lparr>ps_ranked := r, ps_reserved_ranked := k\<rparr>)"
    "plan_ready ctx slot ?P (q\<lparr>ps_slots_given := k, ps_reserved_slots := m\<rparr>)"
    "plan_ready ctx slot ?P (q\<lparr>ps_positions := fst (take_reserved (ps_positions q))\<rparr>)"
    if "plan_ready ctx slot ?P q" for q r k m
    using that take_floor(1) by (auto simp: plan_ready_def)
  have credit: "plan_ready ctx slot ?P (credit_relay ctx now_ms n q)"
    if "plan_ready ctx slot ?P q" "is_immediate_relay_router (bx_capability ctx) n" "ht n" "n \<noteq> source" "n \<noteq> heard_from" for q
  proof -
    have "t = n \<or> admits_coverage ctx n t now_ms \<Longrightarrow> ?P t" for t
      using that(2-) assms(2) by (auto simp: served_def list_ex_iff)
    then show ?thesis using that(1) credit_relay_fields [of ctx now_ms n q] by (auto simp: plan_ready_def)
  qed
  show ?thesis
    using assms(1) e mark credit by (simp add: reserve_neighbor_def Let_def)
qed

lemma my_neighbors_others:
  assumes "es_inv (bx_edges ctx)" "n \<in> set (my_neighbors ctx)"
  shows "n \<noteq> bx_my_node ctx"
proof -
  obtain me where me: "find_node (bx_edges ctx) (bx_my_node ctx) = Some me" "n \<in> eg_to ` set (live_edges me)"
    using assms(2) by (cases "find_node (bx_edges ctx) (bx_my_node ctx)") (auto simp: my_neighbors_def)
  have "ne_inv me" "ne_node_id me = bx_my_node ctx" using find_node_D [OF me(1)] es_inv_node [OF assms(1)] by auto
  then show ?thesis using me(2) unfolding ne_inv_def by metis
qed

lemma reserve_neighbors_ready:
  assumes "es_inv (bx_edges ctx)" "plan_ready ctx slot (served ctx source heard_from now_ms ht) p"
  shows "plan_ready ctx slot (served ctx source heard_from now_ms ht) (reserve_neighbors ctx source heard_from now_ms ht p)"
proof -
  have "plan_ready ctx slot (served ctx source heard_from now_ms ht)
      (fold (reserve_neighbor ctx source heard_from now_ms ht) ns p)"
    if "set ns \<subseteq> set (my_neighbors ctx)" for ns
    using that assms(2)
  proof (induction ns arbitrary: p)
    case (Cons n ns)
    have "n \<in> set (my_neighbors ctx)" using Cons.prems(1) by simp
    then show ?case using reserve_neighbor_ready [OF Cons.prems(2)] my_neighbors_others [OF assms(1)]
        Cons.IH [of "reserve_neighbor ctx source heard_from now_ms ht n p"] Cons.prems(1) by simp
  qed simp
  from this [of "my_neighbors ctx"] show ?thesis using assms(2)
    by (simp add: reserve_neighbors_def my_neighbors_def split: option.splits)
qed

definition candidates_ok :: "u32 \<Rightarrow> u32 list \<Rightarrow> bool" where
  "candidates_ok me cs \<longleftrightarrow> distinct cs \<and> 0 \<notin> set cs \<and> length cs \<le> MAX_CANDIDATES \<and> me \<in> set cs"

lemma candidates_ok_insert: "candidates_ok me cs \<Longrightarrow> candidates_ok me (nodeset_insert n cs)"
  using set_insert_set [where cap = MAX_CANDIDATES and node = n and ids = cs]
  by (auto simp: candidates_ok_def nodeset_insert_def)

lemma build_candidates_ok:
  assumes "bx_my_node ctx \<noteq> 0"
  shows "candidates_ok (bx_my_node ctx) (build_candidates ctx source heard_from)"
proof -
  have base: "candidates_ok (bx_my_node ctx) (nodeset_insert (bx_my_node ctx) [])"
    using assms by (simp add: candidates_ok_def nodeset_insert_def set_insert_def push_capped_def
        MAX_CANDIDATES_def MAX_EDGES_PER_NODE_def)
  have "candidates_ok (bx_my_node ctx) (fold (\<lambda>e cs. if A e then cs else if B e then nodeset_insert (eg_to e) cs else cs) es cs)"
    if "candidates_ok (bx_my_node ctx) cs" for A B es cs
    using that by (induction es arbitrary: cs) (auto intro: candidates_ok_insert)
  from this [OF base, of "\<lambda>e. eg_to e = 0 \<or> eg_to e = heard_from \<or> eg_to e = source \<or> \<not> eg_hears_us e"] show ?thesis
    using base by (auto simp: build_candidates_def Let_def split: option.split)
qed

lemma rank_pools_outcome:
  assumes "plan_ready ctx slot P p" "r = rank_pools ctx ph source now_ms ht p"
  shows "floor_ok slot (ps_positions r) \<and>
    (if ps_should_relay r then ps_reason r = Ranked \<and>
       (may_take_early_window ctx (bx_my_node ctx) \<or> relay_floor_ms slot \<le> ps_delay r) \<and>
       ps_coverage_for r \<in> set (get_coverage_if_relays ctx (bx_my_node ctx) now_ms) - set (ps_covered p)
     else \<not> ht (bx_my_node ctx) \<longrightarrow> set (get_coverage_if_relays ctx (bx_my_node ctx) now_ms) \<subseteq> set (ps_covered p))"
proof -
  note a = assms(1) [unfolded plan_ready_def]
  obtain early late where s: "split_loop ctx 0 (ps_candidates p) [] = (early, late)" by fastforce
  have sets: "set early \<union> set late = set (ps_candidates p)" "0 \<notin> set early" "0 \<notin> set late" "distinct early"
    "distinct late" "\<forall>c \<in> set early. may_take_early_window ctx c"
    using split_loop_sets [OF s] a by auto
  let ?e = "rank_pool ctx True ph source now_ms ht early p"
  let ?l = "rank_pool ctx False ph source now_ms ht late ?e"
  have e: "ranked_well ctx True slot now_ms ht early (ps_covered p) ?e"
    using rank_pool_outcome [of slot p early] sets a by blast
  have r: "r = (if ps_should_relay ?e then ?e else ?l)" by (simp add: assms(2) rank_pools_def s Let_def)
  show ?thesis
  proof (cases "ps_should_relay ?e")
    case True
    then show ?thesis using e sets(6) by (auto simp: r ranked_well_def)
  next
    case False
    have "ranked_well ctx False slot now_ms ht late (ps_covered p) ?l"
      using rank_pool_outcome [of slot ?e late ctx False now_ms ht ph source] e False sets by (auto simp: ranked_well_def)
    moreover have "bx_my_node ctx \<in> set early \<or> bx_my_node ctx \<in> set late" using sets(1) a by blast
    ultimately show ?thesis using False e by (auto simp: r ranked_well_def split: if_splits)
  qed
qed

lemma plan_start_ready:
  assumes "bx_my_node ctx \<noteq> 0"
  shows "plan_ready ctx slot (served ctx source heard_from now_ms ht)
    (plan_start (build_already_covered (bx_edges ctx) (bx_capability ctx) source heard_from)
       (build_candidates ctx source heard_from) slot half)"
  using build_candidates_ok [OF assms] build_already_covered_served [of ctx source heard_from now_ms ht] floor_ok_new
  by (auto simp: plan_ready_def plan_start_def candidates_ok_def)

definition ranking :: "relay_context \<Rightarrow> u32 \<Rightarrow> u32 \<Rightarrow> u32 \<Rightarrow> u32 \<Rightarrow> u32 \<Rightarrow> u32 \<Rightarrow> (u32 \<Rightarrow> bool) \<Rightarrow> plan_state" where
  "ranking ctx packet_id source heard_from now_ms half slot ht =
     rank_pools ctx (packet_id AND 1 \<noteq> 0) source now_ms ht (reserve_neighbors ctx source heard_from now_ms ht
       (plan_start (build_already_covered (bx_edges ctx) (bx_capability ctx) source heard_from)
          (build_candidates ctx source heard_from) slot half))"

lemma ranking_outcome:
  assumes "es_inv (bx_edges ctx)" "bx_my_node ctx \<noteq> 0" "r = ranking ctx packet_id source heard_from now_ms half slot ht"
  shows "floor_ok slot (ps_positions r) \<and>
    (if ps_should_relay r then ps_reason r = Ranked \<and>
       (may_take_early_window ctx (bx_my_node ctx) \<or> relay_floor_ms slot \<le> ps_delay r) \<and>
       ps_coverage_for r \<in> set (get_coverage_if_relays ctx (bx_my_node ctx) now_ms)
     else \<not> ht (bx_my_node ctx) \<longrightarrow>
       (\<forall>t \<in> set (get_coverage_if_relays ctx (bx_my_node ctx) now_ms). served ctx source heard_from now_ms ht t))"
proof -
  let ?p = "reserve_neighbors ctx source heard_from now_ms ht
       (plan_start (build_already_covered (bx_edges ctx) (bx_capability ctx) source heard_from)
          (build_candidates ctx source heard_from) slot half)"
  have p: "plan_ready ctx slot (served ctx source heard_from now_ms ht) ?p"
    by (rule reserve_neighbors_ready [OF assms(1) plan_start_ready [OF assms(2)]])
  then have "\<forall>t \<in> set (ps_covered ?p). served ctx source heard_from now_ms ht t" by (simp add: plan_ready_def)
  then show ?thesis using rank_pools_outcome [OF p assms(3) [unfolded ranking_def]]
    by (meson DiffE subsetD)
qed

lemma ack_loop_floor: "ack_loop me half es delay given ranked = Some a \<Longrightarrow> delay \<le> ak_my_delay a"
proof (induction me half es delay given ranked rule: ack_loop.induct)
  case (2 me half node price es delay given ranked)
  then show ?case using sat_add_ge [of delay half] by (auto simp: Let_def split: if_splits intro: order_trans)
qed simp

text \<open>What follows the ranking changes nothing when this node already relays, and else adds no early position.\<close>

lemma after_ranking:
  assumes "floor_ok slot (ps_positions r)"
    "q = relay_acknowledgement ctx packet_id source heard_from half slot ack (relay_sparse k (relay_downstream ctx source dest now_ms r))"
  shows "ps_should_relay r \<Longrightarrow> q = r"
    "\<not> ps_should_relay r \<Longrightarrow> ps_should_relay q \<Longrightarrow> relay_floor_ms slot \<le> ps_delay q"
proof -
  have free: "ps_should_relay (relay_free reason r)" "relay_floor_ms slot \<le> ps_delay (relay_free reason r)" for reason
    using take_floor(5) [OF assms(1)] by (auto simp: relay_free_def split: prod.splits)
  show "ps_should_relay r \<Longrightarrow> q = r"
    by (simp add: assms(2) relay_acknowledgement_def relay_sparse_def relay_downstream_def)
  assume r: "\<not> ps_should_relay r" and q: "ps_should_relay q"
  let ?d = "relay_downstream ctx source dest now_ms r" and ?s = "relay_sparse k (relay_downstream ctx source dest now_ms r)"
  have "?s = r \<or> (ps_should_relay ?s \<and> relay_floor_ms slot \<le> ps_delay ?s)"
    using free by (auto simp: relay_sparse_def relay_downstream_def)
  then show "relay_floor_ms slot \<le> ps_delay q"
  proof
    assume s: "?s = r"
    then obtain a where "plan_acknowledgement ctx packet_id source heard_from half slot = Some a" "ps_delay q = ak_my_delay a"
      using r q by (auto simp: assms(2) relay_acknowledgement_def split: if_splits option.splits)
    then show ?thesis by (auto simp: plan_acknowledgement_def Let_def dest: ack_loop_floor split: if_splits option.splits)
  next
    assume "ps_should_relay ?s \<and> relay_floor_ms slot \<le> ps_delay ?s"
    then show ?thesis by (simp add: assms(2) relay_acknowledgement_def)
  qed
qed

lemma plan_fields:
  assumes "r = ranking ctx packet_id source heard_from now_ms (max half_airtime MIN_RUNG_SPACING_MS) slot ht"
  obtains q where
    "q = relay_acknowledgement ctx packet_id source heard_from (max half_airtime MIN_RUNG_SPACING_MS) slot ack
       (relay_sparse (length (build_candidates ctx source heard_from)) (relay_downstream ctx source dest now_ms r))"
    "bp_should_relay (plan_broadcast_relay ctx packet_id source heard_from dest now_ms half_airtime slot ht ack) = ps_should_relay q"
    "bp_reason (plan_broadcast_relay ctx packet_id source heard_from dest now_ms half_airtime slot ht ack) = ps_reason q"
    "bp_slot_delay_ms (plan_broadcast_relay ctx packet_id source heard_from dest now_ms half_airtime slot ht ack) = ps_delay q"
    "bp_coverage_for (plan_broadcast_relay ctx packet_id source heard_from dest now_ms half_airtime slot ht ack) = ps_coverage_for q"
  using assms by (simp add: plan_broadcast_relay_def ranking_def Let_def)

text \<open>
  C2. A broadcast leaves nobody behind. When this node has not sent the packet yet and would
  reach a node that neither the transmitter nor a router heard sending it serves, it relays: it
  takes a rank of its own, on behalf of a node it would reach. Peers that are only expected to
  relay never silence it.
\<close>

theorem broadcast_leaves_none_behind:
  assumes "es_inv (bx_edges ctx)" "bx_my_node ctx \<noteq> 0" "\<not> ht (bx_my_node ctx)"
    "t \<in> set (get_coverage_if_relays ctx (bx_my_node ctx) now_ms)" "\<not> served ctx source heard_from now_ms ht t"
    "plan = plan_broadcast_relay ctx packet_id source heard_from dest now_ms half_airtime slot ht ack"
  shows "bp_should_relay plan \<and> bp_reason plan = Ranked \<and>
    bp_coverage_for plan \<in> set (get_coverage_if_relays ctx (bx_my_node ctx) now_ms)"
proof -
  obtain r where r: "r = ranking ctx packet_id source heard_from now_ms (max half_airtime MIN_RUNG_SPACING_MS) slot ht" by simp
  note o = ranking_outcome [OF assms(1,2) r]
  with assms(3-5) have s: "ps_should_relay r" by (auto split: if_splits)
  obtain q where q: "q = relay_acknowledgement ctx packet_id source heard_from (max half_airtime MIN_RUNG_SPACING_MS) slot ack
       (relay_sparse (length (build_candidates ctx source heard_from)) (relay_downstream ctx source dest now_ms r))"
    "bp_should_relay plan = ps_should_relay q" "bp_reason plan = ps_reason q" "bp_coverage_for plan = ps_coverage_for q"
    unfolding assms(6) by (rule plan_fields [OF r, of ack dest])
  have "q = r" using after_ranking(1) [OF _ q(1) s] o by blast
  then show ?thesis using o s q(2-) by simp
qed

text \<open>Node 1 of the island graph, a router: node 2 is its only neighbour, and node 9 sent the packet.\<close>

definition island_context :: relay_context where
  "island_context = \<lparr>bx_my_node = 1, bx_my_node_relays = True, bx_edges = island_graph,
     bx_capability = track_role cap_new 1 DEVICE_ROLE_ROUTER 0, bx_downstream = ds_new, bx_dropped_coverage = gate_empty\<rparr>"

lemma island_capability:
  "cap_role (track_role cap_new 1 DEVICE_ROLE_ROUTER 0) 1 = Some DEVICE_ROLE_ROUTER"
  "cap_status (track_role cap_new 1 DEVICE_ROLE_ROUTER 0) 2 = CapUnknown"
  "\<not> is_immediate_relay_router (track_role cap_new 1 DEVICE_ROLE_ROUTER 0) 2"
  by code_simp+

lemma island_context_coverage:
  "get_coverage_if_relays island_context 1 5 = [2]" "\<not> served island_context 9 9 5 (\<lambda>_. False) 2"
proof -
  have e: "edge_of island_graph 1 2 = Some (edge_fresh 2 (Fin 2) 5 Reported 0)" "edge_of island_graph 2 1 = None"
    "edge_of island_graph 9 2 = None" "edge_of island_graph 2 9 = None"
    by (simp_all add: island_graph_def edge_of_def find_edge_def edge_fresh_def)
  have c: "covers island_graph (Some (track_role cap_new 1 DEVICE_ROLE_ROUTER 0)) 1 2"
    "\<not> covers island_graph (Some (track_role cap_new 1 DEVICE_ROLE_ROUTER 0)) 9 2"
    using etx_to_fixed_two
    by (simp_all add: covers_def peer_publishes_topology_def island_capability known_to_hear_def hop_cost_fixed_def
        measured_etx_def measured_edge_def e edge_fresh_def COVERAGE_ETX_CEILING_FIXED_def is_measured_def)
  show "get_coverage_if_relays island_context 1 5 = [2]"
    using c by (simp add: get_coverage_if_relays_def island_context_def island_graph_def edge_fresh_def admits_coverage_def
      is_placeholder_node_def is_silent_publisher_def peer_publishes_topology_def island_capability gate_blocks_def gate_empty_def
      MAX_EDGES_PER_NODE_def is_measured_def PLACEHOLDER_NODE_PREFIX_def)
  show "\<not> served island_context 9 9 5 (\<lambda>_. False) 2"
    using c by (simp add: served_def island_context_def list_ex_iff)
qed

theorem broadcast_leaves_none_behind_witness:
  "bp_should_relay (plan_broadcast_relay island_context 6 9 9 NODENUM_BROADCAST 5 100 20 (\<lambda>_. False) False)"
proof -
  have "es_inv (bx_edges island_context)" "bx_my_node island_context \<noteq> 0" by (simp_all add: island_context_def island_graph_inv)
  moreover have "2 \<in> set (get_coverage_if_relays island_context (bx_my_node island_context) 5)"
    using island_context_coverage(1) by (simp add: island_context_def)
  ultimately show ?thesis
    using broadcast_leaves_none_behind [where ht = "\<lambda>_. False", OF _ _ _ _ island_context_coverage(2) refl] by simp
qed

text \<open>
  C7. The early window belongs to routers. Whatever the reason this node relays a broadcast for,
  a delay below the relay floor is given to it only when its own role is ROUTER and it was ranked.
\<close>

theorem early_window_for_routers:
  assumes "es_inv (bx_edges ctx)" "bx_my_node ctx \<noteq> 0"
    "plan = plan_broadcast_relay ctx packet_id source heard_from dest now_ms half_airtime slot ht ack"
    "bp_should_relay plan" "bp_slot_delay_ms plan < relay_floor_ms slot"
  shows "cap_role (bx_capability ctx) (bx_my_node ctx) = Some DEVICE_ROLE_ROUTER \<and> bp_reason plan = Ranked"
proof -
  obtain r where r: "r = ranking ctx packet_id source heard_from now_ms (max half_airtime MIN_RUNG_SPACING_MS) slot ht" by simp
  note o = ranking_outcome [OF assms(1,2) r]
  obtain q where q: "q = relay_acknowledgement ctx packet_id source heard_from (max half_airtime MIN_RUNG_SPACING_MS) slot ack
       (relay_sparse (length (build_candidates ctx source heard_from)) (relay_downstream ctx source dest now_ms r))"
    "bp_should_relay plan = ps_should_relay q" "bp_reason plan = ps_reason q" "bp_slot_delay_ms plan = ps_delay q"
    unfolding assms(3) by (rule plan_fields [OF r, of ack dest])
  note a = after_ranking [OF conjunct1 [OF o] q(1)]
  have s: "ps_should_relay r" using a(2) assms(4,5) q(2,4) by fastforce
  then show ?thesis using o a(1) q assms(5) by (auto simp: may_take_early_window_def)
qed

text \<open>In the island graph node 1, a router, relays at once.\<close>

lemma island_plan:
  "ps_delay (ranking island_context 6 9 9 5 100 20 (\<lambda>_. False)) = 0"
  "ps_should_relay (ranking island_context 6 9 9 5 100 20 (\<lambda>_. False))"
proof -
  let ?c = "build_already_covered (bx_edges island_context) (bx_capability island_context) 9 9"
  have c: "?c = [9]"
    by (simp add: build_already_covered_def covered_insert_def set_insert_def push_capped_def island_context_def
        island_graph_def MAX_COVERED_def)
  have b: "build_candidates island_context 9 9 = [1]"
    by (simp add: build_candidates_def island_context_def island_graph_def edge_fresh_def nodeset_insert_def
        set_insert_def push_capped_def MAX_CANDIDATES_def MAX_EDGES_PER_NODE_def)
  have s: "split_loop island_context 0 [1] [] = ([1], [])"
    by (simp add: split_loop.simps may_take_early_window_def island_context_def island_capability)
  have "evaluate_candidate island_context [9] 9 5 1 \<noteq> None"
    using island_context_coverage(1) by (simp only: evaluate_candidate_iff) simp
  then have f: "rl_node_id (find_best_relay_candidate island_context [1] [9] False 9 5 (\<lambda>_. False)) = 1"
    using find_best_nonzero [of "[1]" 1 "\<lambda>_. False" island_context "[9]" 9 5 False]
      find_best_cases(1) [of island_context "[1]" "[9]" False 9 5 "\<lambda>_. False"] by auto
  have n: "reserve_neighbors island_context 9 9 5 (\<lambda>_. False) p = p" for p
    by (simp add: reserve_neighbors_def reserve_neighbor_def island_context_def island_graph_def edge_fresh_def
        island_capability)
  have "bx_my_node island_context = 1" by (simp add: island_context_def)
  then show "ps_delay (ranking island_context 6 9 9 5 100 20 (\<lambda>_. False)) = 0"
    "ps_should_relay (ranking island_context 6 9 9 5 100 20 (\<lambda>_. False))"
    using f by (simp_all add: ranking_def c b n rank_pools_def plan_start_def s rank_pool_step [of _ True] note_pick_def Let_def
        take_rung_def take_placed_def place_ranked_def place_def allocator_new_def window_new_def window_width_ms_def
        WINDOW_POSITIONS_def CW_MAX_def sat_mul_def split: prod.split)
qed

theorem early_window_for_routers_witness:
  "cap_role (bx_capability island_context) (bx_my_node island_context) = Some DEVICE_ROLE_ROUTER \<and>
   bp_slot_delay_ms (plan_broadcast_relay island_context 6 9 9 NODENUM_BROADCAST 5 100 20 (\<lambda>_. False) False) <
     relay_floor_ms 20"
proof -
  let ?r = "ranking island_context 6 9 9 5 (max 100 MIN_RUNG_SPACING_MS) 20 (\<lambda>_. False)"
  have e: "es_inv (bx_edges island_context)" "bx_my_node island_context \<noteq> 0" by (simp_all add: island_context_def island_graph_inv)
  have r: "ps_delay ?r = 0" "ps_should_relay ?r" using island_plan by (simp_all add: MIN_RUNG_SPACING_MS_def)
  obtain q where q: "q = relay_acknowledgement island_context 6 9 9 (max 100 MIN_RUNG_SPACING_MS) 20 False
       (relay_sparse (length (build_candidates island_context 9 9)) (relay_downstream island_context 9 NODENUM_BROADCAST 5 ?r))"
    "bp_should_relay (plan_broadcast_relay island_context 6 9 9 NODENUM_BROADCAST 5 100 20 (\<lambda>_. False) False) = ps_should_relay q"
    "bp_slot_delay_ms (plan_broadcast_relay island_context 6 9 9 NODENUM_BROADCAST 5 100 20 (\<lambda>_. False) False) = ps_delay q"
    by (rule plan_fields [OF refl, where ack = False and dest = NODENUM_BROADCAST])
  have "q = ?r" using after_ranking(1) [OF _ q(1) r(2)] ranking_outcome [OF e refl] by blast
  then have "bp_slot_delay_ms (plan_broadcast_relay island_context 6 9 9 NODENUM_BROADCAST 5 100 20 (\<lambda>_. False) False) < relay_floor_ms 20"
    "bp_should_relay (plan_broadcast_relay island_context 6 9 9 NODENUM_BROADCAST 5 100 20 (\<lambda>_. False) False)"
    using q r by (simp_all add: relay_floor_ms_def CW_MAX_def)
  then show ?thesis using early_window_for_routers [OF e refl] by blast
qed

text \<open>
  C38. The assertion in the evaluation of candidates cannot fail: in a well-formed graph every node
  that a relay is credited with has a delivery price, so the average cost of a candidate with
  uncovered nodes is that of all of them.
\<close>

theorem credited_nodes_priced:
  assumes "es_inv (bx_edges ctx)" "relay \<noteq> 0" "t \<in> set (get_coverage_if_relays ctx relay now_ms)"
  shows "delivery_hop_cost_fixed (bx_edges ctx) (Some (bx_capability ctx)) relay t now_ms (bx_my_node ctx) \<noteq> None"
proof -
  obtain re e where e: "find_node (bx_edges ctx) relay = Some re" "e \<in> set (live_edges re)" "eg_to e = t"
    "is_measured (eg_source e)" "admits_coverage ctx relay t now_ms"
    using assms(3) by (cases "find_node (bx_edges ctx) relay") (auto simp: get_coverage_if_relays_def dest!: in_set_takeD)
  have "ne_inv re" using find_node_D [OF e(1)] es_inv_node [OF assms(1)] by auto
  then have "edge_of (bx_edges ctx) relay t = Some e"
    using e(1,2,3) by (simp add: edge_of_def find_edge_Some_iff)
  then have m: "measured_edge (bx_edges ctx) relay t = Some e" "edge_of (bx_edges ctx) relay t \<noteq> None"
    using e(4) by (simp_all add: measured_edge_def)
  have "can_deliver (bx_edges ctx) (Some (bx_capability ctx)) relay t"
    using e(5) assms(2) by (auto simp: admits_coverage_def covers_def can_deliver_def coverage_owner_def split: if_splits)
  then show ?thesis using m by (auto simp: delivery_hop_cost_fixed_def delivery_direction_cost_fixed_def split: option.splits)
qed

theorem credited_nodes_priced_witness:
  "delivery_hop_cost_fixed island_graph (Some (bx_capability island_context)) 1 2 5 1 \<noteq> None"
  using credited_nodes_priced [of island_context 1 2 5] island_context_coverage(1) island_graph_inv
  by (simp add: island_context_def)

end
