(* ===== verification/UnicastRelay.thy ===== *)
theory UnicastRelay
  imports BroadcastRelay
begin

text \<open>
  Which of the nodes that hold a unicast packet relays it, and in which order
  (\<open>unicast_relay.rs\<close>): the candidates with their costs, their ranking, the slots they take, and
  when a copy heard from another node cancels the slot of this one.
\<close>

section \<open>Costs\<close>

definition MAX_UNICAST_CANDIDATES :: nat where "MAX_UNICAST_CANDIDATES = MAX_EDGES_PER_NODE + 1"
definition DOWNSTREAM_TIER_COST :: u16 where "DOWNSTREAM_TIER_COST = 0x7FFF"
definition INDIRECT_TIER :: u16 where "INDIRECT_TIER = 0x8000"
definition BEST_EFFORT_SELF_COST :: u16 where "BEST_EFFORT_SELF_COST = 0xFFFE"
definition NO_PATH :: u16 where "NO_PATH = - 1"

definition bucket :: "u16 \<Rightarrow> u16" where
  "bucket etx_fixed = etx_fixed div COST_BUCKET_FIXED * COST_BUCKET_FIXED"

record unicast_context =
  ux_my_node :: u32
  ux_edges :: edge_store
  ux_capability :: capability_cache
  ux_downstream :: downstream_table
  ux_downstream_ttl_ms :: u32

record unicast_candidate =
  uc_node_id :: u32
  uc_cost :: u16

record slot_flags =
  sf_last_hop_backup :: bool
  sf_nonfinal_flood :: bool
  sf_nominated_next_hop :: u32
  sf_designated_next_hop :: u8
  sf_armed_hop_limit :: u8

definition slot_flags_empty :: slot_flags where
  "slot_flags_empty = \<lparr>sf_last_hop_backup = False, sf_nonfinal_flood = False, sf_nominated_next_hop = 0,
     sf_designated_next_hop = 0, sf_armed_hop_limit = 0\<rparr>"

datatype skip_reason =
    WireGate | Qos | Duplicate_skip | RateLimited | OwnRebroadcast | UnknownDestination | BetterNeighbor
  | RouterExpected | NextHopIsRelayer | DeadEndHop | UnicastCovered | NoRelayPath | ReplyRetracesLink
  | AlreadyCovered | UnverifiedBacktrack | LastHopReserved

definition ranked_ahead :: "u32 \<Rightarrow> unicast_candidate \<Rightarrow> unicast_candidate \<Rightarrow> bool" where
  "ranked_ahead packet_id a b \<longleftrightarrow>
     (let prefer_high_id = (packet_id AND 1 \<noteq> 0) in
      uc_cost a < uc_cost b \<or>
      (uc_cost a = uc_cost b \<and>
       (if prefer_high_id then uc_node_id b < uc_node_id a else uc_node_id a < uc_node_id b)))"

definition downstream_relay :: "unicast_context \<Rightarrow> u32 \<Rightarrow> u32 \<Rightarrow> u32 option" where
  "downstream_relay ctx destination now_ms = get_relay (ux_downstream ctx) destination now_ms (ux_downstream_ttl_ms ctx)"

definition unicast_chain_egress :: "unicast_context \<Rightarrow> u32 \<Rightarrow> u32 \<Rightarrow> u32 option" where
  "unicast_chain_egress ctx destination now_ms =
     map_option ce_node (chain_egress_of (ux_downstream ctx) destination now_ms (ux_downstream_ttl_ms ctx)
       (\<lambda>n. n \<noteq> 0 \<and> n \<noteq> ux_my_node ctx \<and> edge_of (ux_edges ctx) (ux_my_node ctx) n \<noteq> None))"

definition can_finish :: "unicast_context \<Rightarrow> u32 \<Rightarrow> u32 \<Rightarrow> u32 \<Rightarrow> bool" where
  "can_finish ctx node destination now_ms \<longleftrightarrow>
     delivery_hop_cost_fixed (ux_edges ctx) (Some (ux_capability ctx)) node destination now_ms (ux_my_node ctx) \<noteq> None \<or>
     downstream_relay ctx destination now_ms = Some node"

definition reaches :: "unicast_context \<Rightarrow> u32 \<Rightarrow> u32 \<Rightarrow> u32 \<Rightarrow> bool" where
  "reaches ctx node destination now_ms \<longleftrightarrow> can_finish ctx node destination now_ms"

definition heard_this_copy :: "unicast_context \<Rightarrow> u32 \<Rightarrow> u32 \<Rightarrow> bool" where
  "heard_this_copy ctx heard_from node \<longleftrightarrow>
     heard_from = 0 \<or> node = ux_my_node ctx \<or> known_to_hear (ux_edges ctx) heard_from node"

definition candidate_cost :: "unicast_context \<Rightarrow> u32 \<Rightarrow> u32 \<Rightarrow> u32 \<Rightarrow> u32 \<Rightarrow> u16" where
  "candidate_cost ctx node destination my_next_hop now_ms =
     (case delivery_hop_cost_fixed (ux_edges ctx) (Some (ux_capability ctx)) node destination now_ms (ux_my_node ctx) of
        Some cost \<Rightarrow> bucket (min cost (DOWNSTREAM_TIER_COST - 1))
      | None \<Rightarrow>
          if downstream_relay ctx destination now_ms = Some node then DOWNSTREAM_TIER_COST
          else if unicast_chain_egress ctx destination now_ms = Some node then DOWNSTREAM_TIER_COST
          else if my_next_hop \<noteq> 0 \<and> my_next_hop \<noteq> destination \<and> my_next_hop \<noteq> node \<and> my_next_hop \<noteq> ux_my_node ctx \<and>
                  can_deliver (ux_edges ctx) (Some (ux_capability ctx)) node my_next_hop
          then (case hop_cost_fixed (ux_edges ctx) node my_next_hop of
                  Some cost \<Rightarrow> bucket (min cost (INDIRECT_TIER - 1)) OR INDIRECT_TIER
                | None \<Rightarrow> NO_PATH)
          else NO_PATH)"

definition better_positioned_neighbor :: "unicast_context \<Rightarrow> u32 \<Rightarrow> u32 \<Rightarrow> u32 \<Rightarrow> (u32 \<Rightarrow> bool) \<Rightarrow> bool" where
  "better_positioned_neighbor ctx heard_from destination now_ms has_transmitted \<longleftrightarrow>
     (case find_node (ux_edges ctx) (ux_my_node ctx) of
        None \<Rightarrow> False
      | Some mine \<Rightarrow> list_ex (\<lambda>e. let n = eg_to e in
          n \<noteq> heard_from \<and> n \<noteq> ux_my_node ctx \<and> \<not> is_placeholder_node n \<and>
          cap_status (ux_capability ctx) n = CapSrActive \<and> has_transmitted n \<and>
          can_deliver (ux_edges ctx) (Some (ux_capability ctx)) heard_from n \<and>
          reaches ctx n destination now_ms) (live_edges mine))"

section \<open>The plan\<close>

text \<open>The early returns: somebody else already carries the packet on.\<close>

definition unicast_covered :: "unicast_context \<Rightarrow> u32 \<Rightarrow> u32 \<Rightarrow> u32 \<Rightarrow> u32 \<Rightarrow> (u32 \<Rightarrow> bool) \<Rightarrow> bool" where
  "unicast_covered ctx source heard_from destination now_ms has_transmitted \<longleftrightarrow>
     (case downstream_relay ctx source now_ms of
        None \<Rightarrow> False
      | Some relay \<Rightarrow>
          downstream_relay ctx source now_ms = downstream_relay ctx destination now_ms \<and> relay \<noteq> ux_my_node ctx \<and>
          (relay = heard_from \<or> has_transmitted relay)) \<or>
     (heard_from \<noteq> 0 \<and> heard_from \<noteq> ux_my_node ctx \<and> heard_from \<noteq> source \<and>
      (reaches ctx heard_from destination now_ms \<or>
       better_positioned_neighbor ctx heard_from destination now_ms has_transmitted))"

definition own_candidate :: "unicast_context \<Rightarrow> u32 \<Rightarrow> u32 \<Rightarrow> u32 \<Rightarrow> unicast_candidate list" where
  "own_candidate ctx destination my_next_hop now_ms =
     (let me = ux_my_node ctx; my_cost = candidate_cost ctx me destination my_next_hop now_ms;
          my_cost = (if my_cost = NO_PATH \<and> my_next_hop = me then BEST_EFFORT_SELF_COST else my_cost)
      in if my_cost \<noteq> NO_PATH then [\<lparr>uc_node_id = me, uc_cost = my_cost\<rparr>] else [])"

definition add_candidate ::
  "unicast_context \<Rightarrow> u32 \<Rightarrow> u32 \<Rightarrow> u32 \<Rightarrow> u32 \<Rightarrow> u32 \<Rightarrow> u32 \<Rightarrow> unicast_candidate list \<Rightarrow> unicast_candidate list" where
  "add_candidate ctx source heard_from destination my_next_hop now_ms n cs =
     (if n = heard_from \<or> n = source \<or> n = ux_my_node ctx \<or> is_placeholder_node n then cs
      else if is_legacy_router (ux_capability ctx) n \<or> cap_status (ux_capability ctx) n \<noteq> CapSrActive then cs
      else if \<not> heard_this_copy ctx heard_from n then cs
      else
        let cost = candidate_cost ctx n destination my_next_hop now_ms in
        if cost \<noteq> NO_PATH \<and> length cs < MAX_UNICAST_CANDIDATES
        then cs @ [\<lparr>uc_node_id = n, uc_cost = cost\<rparr>] else cs)"

definition unicast_candidates ::
  "unicast_context \<Rightarrow> u32 \<Rightarrow> u32 \<Rightarrow> u32 \<Rightarrow> u32 \<Rightarrow> u32 \<Rightarrow> unicast_candidate list" where
  "unicast_candidates ctx source heard_from destination my_next_hop now_ms =
     (let cs = own_candidate ctx destination my_next_hop now_ms in
      case find_node (ux_edges ctx) (ux_my_node ctx) of
        None \<Rightarrow> cs
      | Some mine \<Rightarrow>
          fold (add_candidate ctx source heard_from destination my_next_hop now_ms) (map eg_to (live_edges mine)) cs)"

definition is_direct :: "unicast_candidate \<Rightarrow> bool" where
  "is_direct c \<longleftrightarrow> uc_cost c < DOWNSTREAM_TIER_COST"

fun keep_loop :: "nat \<Rightarrow> nat \<Rightarrow> unicast_candidate list \<Rightarrow> unicast_candidate list" where
  "keep_loop max_directs kept_directs [] = []"
| "keep_loop max_directs kept_directs (c # cs) =
     (if is_direct c then
        (if max_directs \<le> kept_directs then keep_loop max_directs kept_directs cs
         else c # keep_loop max_directs (Suc kept_directs) cs)
      else c # keep_loop max_directs kept_directs cs)"

record slot_state =
  ss_slot :: u8
  ss_my_slot :: "u8 option"
  ss_my_direct :: bool
  ss_last_non_direct_slot :: "u8 option"
  ss_non_direct_slots :: u8
  ss_ranked :: "u32 list"

definition slot_start :: slot_state where
  "slot_start = \<lparr>ss_slot = 0, ss_my_slot = None, ss_my_direct = False, ss_last_non_direct_slot = None,
     ss_non_direct_slots = 0, ss_ranked = []\<rparr>"

definition give_slot :: "u32 \<Rightarrow> (u32 \<Rightarrow> bool) \<Rightarrow> unicast_candidate \<Rightarrow> slot_state \<Rightarrow> slot_state" where
  "give_slot me has_transmitted c s =
     (if has_transmitted (uc_node_id c) then s
      else
        let s = (if is_direct c then s
                 else s\<lparr>ss_last_non_direct_slot := Some (ss_slot s), ss_non_direct_slots := sat_add (ss_non_direct_slots s) 1\<rparr>);
            s = s\<lparr>ss_ranked := push_ranked (ss_ranked s) (uc_node_id c)\<rparr>;
            s = (if uc_node_id c = me then s\<lparr>ss_my_slot := Some (ss_slot s), ss_my_direct := is_direct c\<rparr> else s)
        in s\<lparr>ss_slot := sat_add (ss_slot s) 1\<rparr>)"

definition plan_slots ::
  "u32 \<Rightarrow> bool \<Rightarrow> (u32 \<Rightarrow> bool) \<Rightarrow> unicast_candidate list \<Rightarrow> skip_reason + broadcast_plan" where
  "plan_slots me dest_sr has_transmitted cs =
     (let s = fold (give_slot me has_transmitted) cs slot_start in
      case ss_my_slot s of
        None \<Rightarrow> Inl NoRelayPath
      | Some my_slot \<Rightarrow>
          Inr \<lparr>bp_should_relay = True, bp_slot_delay_ms = 0, bp_slot_index = my_slot,
            bp_candidate_count = unat (max (ss_slot s) 1), bp_ranked = ss_ranked s, bp_reason = UnicastCost,
            bp_evaluated = fold (\<lambda>c ev. push_evaluated ev (uc_node_id c) 0 0 (uc_cost c)) cs [],
            bp_pre_covered = 0, bp_uncovered = [], bp_slots_given = 0, bp_reserved_slots = 0,
            bp_reserved_ranked = 0, bp_absorbed = [], bp_coverage_for = 0,
            bp_last_hop_backup = (ss_my_direct s \<and> dest_sr \<and> my_slot = 1),
            bp_nonfinal_flood = (\<not> ss_my_direct s \<and> 2 \<le> ss_non_direct_slots s \<and>
              ss_last_non_direct_slot s = Some my_slot),
            bp_has_nonfinal_flood_slot = (2 \<le> ss_non_direct_slots s)\<rparr>)"

definition plan_ranked :: "u32 \<Rightarrow> u32 \<Rightarrow> bool \<Rightarrow> (u32 \<Rightarrow> bool) \<Rightarrow> unicast_candidate list \<Rightarrow> skip_reason + broadcast_plan" where
  "plan_ranked packet_id me dest_sr has_transmitted candidates =
     (let cs = sort_entries (ranked_ahead packet_id) candidates;
          i_am_direct = list_ex (\<lambda>c. uc_node_id c = me \<and> is_direct c) cs
      in if cs \<noteq> [] \<and> is_direct (hd cs) then
           let cs = keep_loop (if dest_sr then 2 else 1) 0 cs in
           if i_am_direct \<and> \<not> list_ex (\<lambda>c. uc_node_id c = me) cs then Inl LastHopReserved
           else plan_slots me dest_sr has_transmitted cs
         else plan_slots me dest_sr has_transmitted cs)"

definition plan_unicast_relay ::
  "unicast_context \<Rightarrow> u32 \<Rightarrow> u32 \<Rightarrow> u32 \<Rightarrow> u32 \<Rightarrow> u32 \<Rightarrow> u32 \<Rightarrow> (u32 \<Rightarrow> bool) \<Rightarrow> skip_reason + broadcast_plan" where
  "plan_unicast_relay ctx packet_id source heard_from destination my_next_hop now_ms has_transmitted =
     (if unicast_covered ctx source heard_from destination now_ms has_transmitted then Inl UnicastCovered
      else plan_ranked packet_id (ux_my_node ctx) (is_signal_routing (cap_status (ux_capability ctx) destination))
             has_transmitted (unicast_candidates ctx source heard_from destination my_next_hop now_ms))"

section \<open>Cancellation by a copy\<close>

definition from_designated :: "slot_flags \<Rightarrow> u32 option \<Rightarrow> u8 \<Rightarrow> bool" where
  "from_designated flags dupe_relayer dupe_relay_byte \<longleftrightarrow>
     dupe_relay_byte = sf_designated_next_hop flags \<or>
     (case dupe_relayer of
        None \<Rightarrow> False
      | Some relayer \<Rightarrow> relayer \<noteq> 0 \<and> \<not> is_placeholder_node relayer \<and>
          ucast (relayer AND 0xFF) = sf_designated_next_hop flags)"

definition cost_cancels :: "unicast_context \<Rightarrow> u32 \<Rightarrow> u32 \<Rightarrow> u32 \<Rightarrow> u32 \<Rightarrow> u32 \<Rightarrow> bool" where
  "cost_cancels ctx packet_id destination my_next_hop now_ms relayer \<longleftrightarrow>
     (let me = ux_my_node ctx in
      if can_finish ctx relayer destination now_ms then True
      else if can_finish ctx me destination now_ms then False
      else
        let their_cost = candidate_cost ctx relayer destination my_next_hop now_ms in
        if their_cost = NO_PATH then False
        else
          let my_cost = candidate_cost ctx me destination my_next_hop now_ms;
              my_cost = (if my_cost = NO_PATH then BEST_EFFORT_SELF_COST else my_cost)
          in ranked_ahead packet_id \<lparr>uc_node_id = relayer, uc_cost = their_cost\<rparr> \<lparr>uc_node_id = me, uc_cost = my_cost\<rparr>)"

definition unicast_dupe_cancels_for ::
  "unicast_context \<Rightarrow> u32 \<Rightarrow> u32 \<Rightarrow> u32 \<Rightarrow> u32 \<Rightarrow> u32 option \<Rightarrow> slot_flags \<Rightarrow> u8 \<Rightarrow> u8 \<Rightarrow> u8 \<Rightarrow> bool" where
  "unicast_dupe_cancels_for ctx packet_id destination my_next_hop now_ms dupe_relayer flags
     dupe_next_hop dupe_relay_byte dupe_hop_limit \<longleftrightarrow>
     (let designated = (sf_designated_next_hop flags \<noteq> 0);
          from = from_designated flags dupe_relayer dupe_relay_byte;
          me = ux_my_node ctx
      in if designated \<and> from \<and> dupe_next_hop \<noteq> 0 then True
         else if designated \<and> dupe_next_hop = sf_designated_next_hop flags \<and> sf_armed_hop_limit flags \<noteq> 0 \<and>
                 dupe_hop_limit < sf_armed_hop_limit flags then True
         else if designated \<and> from then False
         else
           (case dupe_relayer of
              None \<Rightarrow> \<not> can_finish ctx me destination now_ms
            | Some relayer \<Rightarrow>
                if \<not> (relayer \<noteq> 0 \<and> relayer \<noteq> me \<and> \<not> is_placeholder_node relayer)
                then \<not> can_finish ctx me destination now_ms
                else if sf_last_hop_backup flags then relayer = destination
                else if sf_nonfinal_flood flags then
                  relayer = destination \<or> can_finish ctx relayer destination now_ms \<or>
                  (sf_nominated_next_hop flags \<noteq> 0 \<and>
                   (relayer = sf_nominated_next_hop flags \<or>
                    (ucast (sf_nominated_next_hop flags AND 0xFF) :: u8) = ucast (relayer AND 0xFF))) \<or>
                  dupe_next_hop = 0
                else cost_cancels ctx packet_id destination my_next_hop now_ms relayer))"

definition unicast_dupe_cancels ::
  "unicast_context \<Rightarrow> u32 \<Rightarrow> u32 \<Rightarrow> u32 \<Rightarrow> u32 \<Rightarrow> u32 option \<Rightarrow> bool" where
  "unicast_dupe_cancels ctx packet_id destination my_next_hop now_ms dupe_relayer \<longleftrightarrow>
     unicast_dupe_cancels_for ctx packet_id destination my_next_hop now_ms dupe_relayer slot_flags_empty 0 0 0"

section \<open>Ranks and slots\<close>

interpretation unicast_rank: ranking_order "ranked_ahead packet_id" uc_node_id for packet_id
proof
  show "\<not> ranked_ahead packet_id a a" for a by (simp add: ranked_ahead_def Let_def)
  show "ranked_ahead packet_id a c" if "ranked_ahead packet_id a b" "ranked_ahead packet_id b c" for a b c
    using that by (auto simp: ranked_ahead_def Let_def split: if_splits)
  show "ranked_ahead packet_id a b \<or> ranked_ahead packet_id b a" if "uc_node_id a \<noteq> uc_node_id b" for a b
    using that by (auto simp: ranked_ahead_def Let_def neq_iff)
qed

interpretation ack_rank: ranking_order "ack_better prefer_high" fst for prefer_high
proof
  show "\<not> ack_better prefer_high a a" for a by (simp add: ack_better_def Let_def)
  show "ack_better prefer_high a c" if "ack_better prefer_high a b" "ack_better prefer_high b c" for a b c
    using that by (auto simp: ack_better_def Let_def split: if_splits)
  show "ack_better prefer_high a b \<or> ack_better prefer_high b a" if "fst a \<noteq> fst b" for a b
    using that by (auto simp: ack_better_def Let_def neq_iff)
qed

text \<open>The candidates are distinct nodes, and few.\<close>

lemma unicast_candidates_distinct:
  assumes "es_inv (ux_edges ctx)"
  shows "distinct (map uc_node_id (unicast_candidates ctx source heard_from destination my_next_hop now_ms))"
    "length (unicast_candidates ctx source heard_from destination my_next_hop now_ms) \<le> MAX_UNICAST_CANDIDATES"
proof -
  let ?add = "add_candidate ctx source heard_from destination my_next_hop now_ms"
  let ?own = "own_candidate ctx destination my_next_hop now_ms"
  have add: "distinct (map uc_node_id (fold ?add ns cs)) \<and> length (fold ?add ns cs) \<le> MAX_UNICAST_CANDIDATES"
    if "distinct ns" "distinct (map uc_node_id cs)" "uc_node_id ` set cs \<inter> set ns = {}" "length cs \<le> MAX_UNICAST_CANDIDATES"
    for ns cs
    using that
  proof (induction ns arbitrary: cs)
    case (Cons n ns)
    have "?add n cs = cs \<or> (\<exists>k. ?add n cs = cs @ [\<lparr>uc_node_id = n, uc_cost = k\<rparr>] \<and> length cs < MAX_UNICAST_CANDIDATES)"
      by (auto simp: add_candidate_def Let_def)
    then show ?case
    proof
      assume e: "?add n cs = cs"
      show ?thesis using Cons.IH [of cs] Cons.prems by (auto simp: e)
    next
      assume "\<exists>k. ?add n cs = cs @ [\<lparr>uc_node_id = n, uc_cost = k\<rparr>] \<and> length cs < MAX_UNICAST_CANDIDATES"
      then obtain k where e: "?add n cs = cs @ [\<lparr>uc_node_id = n, uc_cost = k\<rparr>]" "length cs < MAX_UNICAST_CANDIDATES" by auto
      show ?thesis using Cons.IH [of "?add n cs"] Cons.prems e(2) by (auto simp: e(1))
    qed
  qed simp
  have own: "distinct (map uc_node_id ?own)" "uc_node_id ` set ?own \<subseteq> {ux_my_node ctx}" "length ?own \<le> MAX_UNICAST_CANDIDATES"
    by (auto simp: own_candidate_def Let_def MAX_UNICAST_CANDIDATES_def)
  have "distinct (map uc_node_id (unicast_candidates ctx source heard_from destination my_next_hop now_ms)) \<and>
    length (unicast_candidates ctx source heard_from destination my_next_hop now_ms) \<le> MAX_UNICAST_CANDIDATES"
  proof (cases "find_node (ux_edges ctx) (ux_my_node ctx)")
    case None
    then show ?thesis using own by (simp add: unicast_candidates_def)
  next
    case (Some mine)
    have "ne_inv mine" "ne_node_id mine = ux_my_node ctx" using find_node_D [OF Some] es_inv_node [OF assms] by auto
    then have d: "distinct (map eg_to (live_edges mine))" "ux_my_node ctx \<notin> set (map eg_to (live_edges mine))"
      unfolding ne_inv_def set_map by metis+
    have "A \<subseteq> {m} \<Longrightarrow> m \<notin> B \<Longrightarrow> A \<inter> B = {}" for m :: u32 and A B by auto
    from add [OF d(1) own(1) this [OF own(2) d(2)] own(3)] show ?thesis using Some
      by (simp only: unicast_candidates_def Let_def option.case)
  qed
  then show "distinct (map uc_node_id (unicast_candidates ctx source heard_from destination my_next_hop now_ms))"
    "length (unicast_candidates ctx source heard_from destination my_next_hop now_ms) \<le> MAX_UNICAST_CANDIDATES" by auto
qed

lemma keep_loop_prefix:
  assumes "\<forall>c \<in> set ds. is_direct c" "\<forall>c \<in> set es. \<not> is_direct c"
  shows "keep_loop m k (ds @ es) = take (m - k) ds @ es"
proof -
  have e: "keep_loop m k es = es" for k using assms(2) by (induction es) auto
  show ?thesis using assms(1)
  proof (induction ds arbitrary: k)
    case (Cons d ds)
    then show ?case by (cases "m - k") (auto simp: Suc_diff_Suc diff_Suc split: nat.splits)
  qed (simp add: e)
qed

lemma give_slots:
  assumes "length cs + unat (ss_slot s) < 255"
  shows "unat (ss_slot (fold (give_slot me ht) cs s)) = unat (ss_slot s) + length (filter (\<lambda>c. \<not> ht (uc_node_id c)) cs)"
    "me \<notin> uc_node_id ` {c \<in> set cs. \<not> ht (uc_node_id c)} \<Longrightarrow>
       ss_my_slot (fold (give_slot me ht) cs s) = ss_my_slot s"
proof -
  have slot: "ss_slot (give_slot me ht c s) = (if ht (uc_node_id c) then ss_slot s else sat_add (ss_slot s) 1)"
    "ss_my_slot (give_slot me ht c s) =
      (if uc_node_id c = me \<and> \<not> ht (uc_node_id c) then Some (ss_slot s) else ss_my_slot s)" for c s
    by (auto simp: give_slot_def Let_def)
  show "unat (ss_slot (fold (give_slot me ht) cs s)) = unat (ss_slot s) + length (filter (\<lambda>c. \<not> ht (uc_node_id c)) cs)"
    using assms by (induction cs arbitrary: s) (auto simp: slot rust_arith)
  show "ss_my_slot (fold (give_slot me ht) cs s) = ss_my_slot s"
    if "me \<notin> uc_node_id ` {c \<in> set cs. \<not> ht (uc_node_id c)}"
    using that
  proof (induction cs arbitrary: s)
    case (Cons c cs)
    have "uc_node_id c = me \<Longrightarrow> ht (uc_node_id c)" using Cons.prems by auto
    moreover have "me \<notin> uc_node_id ` {c \<in> set cs. \<not> ht (uc_node_id c)}" using Cons.prems by auto
    ultimately show ?case using Cons.IH [of "give_slot me ht c s"] by (auto simp: slot)
  qed simp
qed

lemma plan_slots_index:
  assumes "length cs < 255" "distinct (map uc_node_id cs)"
  shows "me \<notin> uc_node_id ` {c \<in> set cs. \<not> ht (uc_node_id c)} \<Longrightarrow> plan_slots me dest_sr ht cs = Inl NoRelayPath"
    "cs = us @ mine # vs \<Longrightarrow> uc_node_id mine = me \<Longrightarrow> \<not> ht me \<Longrightarrow>
      \<exists>p. plan_slots me dest_sr ht cs = Inr p \<and> unat (bp_slot_index p) = length (filter (\<lambda>c. \<not> ht (uc_node_id c)) us)"
proof -
  have start: "ss_slot slot_start = 0" "ss_my_slot slot_start = None" by (simp_all add: slot_start_def)
  show "plan_slots me dest_sr ht cs = Inl NoRelayPath" if "me \<notin> uc_node_id ` {c \<in> set cs. \<not> ht (uc_node_id c)}"
    using give_slots(2) [of cs slot_start me ht] that assms(1) by (simp add: plan_slots_def start Let_def)
  assume c: "cs = us @ mine # vs" and m: "uc_node_id mine = me" "\<not> ht me"
  let ?u = "fold (give_slot me ht) us slot_start"
  have l: "length us + unat (ss_slot slot_start) < 255" "length vs + length us < 254" using assms(1) by (simp_all add: c start)
  note g = give_slots(1) [OF l(1), of me ht]
  have "ss_my_slot (give_slot me ht mine ?u) = Some (ss_slot ?u)" using m by (simp add: give_slot_def Let_def)
  moreover have "unat (ss_slot (give_slot me ht mine ?u)) = Suc (unat (ss_slot ?u))"
    using m g l order_trans [OF length_filter_le [of "\<lambda>c. \<not> ht (uc_node_id c)" us], of 253]
    by (simp add: give_slot_def Let_def rust_arith start min_def)
  moreover have "me \<notin> uc_node_id ` {c \<in> set vs. \<not> ht (uc_node_id c)}" using assms(2) m(1) by (auto simp: c)
  ultimately have "ss_my_slot (fold (give_slot me ht) cs slot_start) = Some (ss_slot ?u)"
    using give_slots(2) [of vs "give_slot me ht mine ?u" me ht] g l length_filter_le [of "\<lambda>c. \<not> ht (uc_node_id c)" us]
    by (simp add: c start)
  then show "\<exists>p. plan_slots me dest_sr ht cs = Inr p \<and> unat (bp_slot_index p) = length (filter (\<lambda>c. \<not> ht (uc_node_id c)) us)"
    using g by (simp add: plan_slots_def start Let_def)
qed

section \<open>The plan refines the ranking\<close>

text \<open>
  Direct candidates are those that reach the destination in one hop. A direct candidate is admitted
  while fewer than \<open>m\<close> are ranked ahead of it; the others always are.
\<close>

definition admitted :: "u32 \<Rightarrow> nat \<Rightarrow> unicast_candidate set \<Rightarrow> unicast_candidate \<Rightarrow> bool" where
  "admitted packet_id m cs c \<longleftrightarrow> (if is_direct c then card {d \<in> cs. ranked_ahead packet_id d c} < m else True)"

lemma ahead_direct: "ranked_ahead packet_id a b \<Longrightarrow> is_direct b \<Longrightarrow> is_direct a"
  by (auto simp: ranked_ahead_def is_direct_def Let_def split: if_splits)

lemma sorted_directs:
  assumes "sorted_wrt (ranked_ahead packet_id) xs"
  shows "\<forall>c \<in> set (dropWhile is_direct xs). \<not> is_direct c"
  using assms
proof (induction xs)
  case (Cons x xs)
  show ?case
  proof (cases "is_direct x")
    case True
    then have "dropWhile is_direct (x # xs) = dropWhile is_direct xs" by simp
    moreover have "sorted_wrt (ranked_ahead packet_id) xs" using Cons.prems by simp
    ultimately show ?thesis using Cons.IH by metis
  next
    case False
    moreover have "\<forall>c \<in> set xs. ranked_ahead packet_id x c" using Cons.prems by simp
    ultimately have "\<forall>c \<in> set xs. \<not> is_direct c" using ahead_direct by blast
    then show ?thesis using False by simp
  qed
qed simp

lemma kept_admitted:
  assumes "sorted_wrt (ranked_ahead packet_id) xs"
    "ks = (if xs \<noteq> [] \<and> is_direct (hd xs) then keep_loop m 0 xs else xs)"
  shows "set ks = {c \<in> set xs. admitted packet_id m (set xs) c}" "sorted_wrt (ranked_ahead packet_id) ks"
proof -
  let ?ds = "takeWhile is_direct xs" and ?es = "dropWhile is_direct xs"
  have "keep_loop m 0 (?ds @ ?es) = take m ?ds @ ?es"
    using keep_loop_prefix [of ?ds ?es m 0] sorted_directs [OF assms(1)] by (auto dest: set_takeWhileD)
  then have "keep_loop m 0 xs = take m ?ds @ ?es" by simp
  moreover have "\<not> (xs \<noteq> [] \<and> is_direct (hd xs)) \<Longrightarrow> ?ds = []" by (cases xs) auto
  ultimately have ks: "ks = take m ?ds @ ?es" using assms(2) by (metis append_Nil take_Nil takeWhile_dropWhile_id)
  have "take m ?ds @ drop m ?ds @ ?es = xs" by (metis append_assoc append_take_drop_id takeWhile_dropWhile_id)
  with assms(1) have "sorted_wrt (ranked_ahead packet_id) (take m ?ds @ drop m ?ds @ ?es)" by simp
  then show "sorted_wrt (ranked_ahead packet_id) ks" unfolding ks by (auto simp: sorted_wrt_append)
  have d: "admitted packet_id m (set xs) (?ds ! i) \<longleftrightarrow> i < m" if "i < length ?ds" for i
  proof -
    have "xs = take i ?ds @ ?ds ! i # drop (Suc i) ?ds @ ?es"
      using id_take_nth_drop [OF that] by (metis append_Cons append_assoc takeWhile_dropWhile_id)
    then have "{d \<in> set xs. ranked_ahead packet_id d (?ds ! i)} = set (take i ?ds)"
      using unicast_rank.sorted_before assms(1) by metis
    moreover have "distinct (take i ?ds)"
      using unicast_rank.sorted_distinct [OF assms(1)] distinct_takeWhile by (blast intro: distinct_take)
    moreover have "is_direct (?ds ! i)" using set_takeWhileD [OF nth_mem [OF that]] by simp
    ultimately show ?thesis using that by (simp add: admitted_def distinct_card)
  qed
  have "{c \<in> set ?ds. admitted packet_id m (set xs) c} = set (take m ?ds)"
    using d by (force simp: in_set_conv_nth)
  moreover have "{c \<in> set ?es. admitted packet_id m (set xs) c} = set ?es"
    using sorted_directs [OF assms(1)] by (auto simp: admitted_def)
  moreover have "set xs = set ?ds \<union> set ?es" by (metis set_append takeWhile_dropWhile_id)
  ultimately show "set ks = {c \<in> set xs. admitted packet_id m (set xs) c}" unfolding ks by auto
qed

lemma plan_ranked_slots:
  assumes "distinct (map uc_node_id cs)" "length cs < 255" "m = (if dest_sr then 2 else 1)"
    "plan = plan_ranked packet_id me dest_sr ht cs"
  shows "(plan = Inl LastHopReserved \<and>
      (\<exists>mine \<in> set cs. uc_node_id mine = me \<and> \<not> admitted packet_id m (set cs) mine)) \<or>
    (plan = Inl NoRelayPath \<and> (ht me \<or> me \<notin> uc_node_id ` set cs)) \<or>
    (\<exists>p. \<exists>mine \<in> set cs. plan = Inr p \<and> uc_node_id mine = me \<and> \<not> ht me \<and> admitted packet_id m (set cs) mine \<and>
      unat (bp_slot_index p) =
        card {d \<in> set cs. ranked_ahead packet_id d mine \<and> admitted packet_id m (set cs) d \<and> \<not> ht (uc_node_id d)})"
proof -
  let ?xs = "sort_entries (ranked_ahead packet_id) cs"
  define ks where "ks = (if ?xs \<noteq> [] \<and> is_direct (hd ?xs) then keep_loop m 0 ?xs else ?xs)"
  note s = unicast_rank.sort_entries_sorted [OF assms(1)]
  have xs: "set ?xs = set cs" "distinct (map uc_node_id ?xs)" "length ?xs = length cs"
    using mset_eq_setD [OF s(2)] assms(1) mset_eq_imp_distinct_iff [of "map uc_node_id ?xs" "map uc_node_id cs"] s(2)
      mset_eq_length [OF s(2)] by auto
  note k = kept_admitted [OF s(1) ks_def, unfolded xs(1)]
  have kd: "distinct ks" by (rule unicast_rank.sorted_distinct [OF k(2)])
  have inj: "a = b" if "a \<in> set cs" "b \<in> set cs" "uc_node_id a = uc_node_id b" for a b
    using assms(1) that by (auto simp: distinct_map inj_on_def)
  have ids: "distinct (map uc_node_id ks)" using kd inj k(1) by (auto simp: distinct_map inj_on_def)
  have "card (set ks) \<le> card (set cs)" unfolding k(1) by (intro card_mono) auto
  then have len: "length ks < 255" using assms(2) card_length [of cs] distinct_card [OF kd] by simp
  have plan: "plan = (if ?xs \<noteq> [] \<and> is_direct (hd ?xs) \<and> list_ex (\<lambda>c. uc_node_id c = me \<and> is_direct c) ?xs \<and>
      \<not> list_ex (\<lambda>c. uc_node_id c = me) ks then Inl LastHopReserved else plan_slots me dest_sr ht ks)"
    unfolding assms(3,4) plan_ranked_def Let_def ks_def by auto
  show ?thesis
  proof (cases "\<exists>mine \<in> set ks. uc_node_id mine = me \<and> \<not> ht me")
    case True
    then obtain mine us vs where m: "mine \<in> set ks" "uc_node_id mine = me" "\<not> ht me" "ks = us @ mine # vs"
      by (metis split_list)
    obtain p where p: "plan_slots me dest_sr ht ks = Inr p" "unat (bp_slot_index p) = length (filter (\<lambda>c. \<not> ht (uc_node_id c)) us)"
      using plan_slots_index(2) [where ht = ht, OF len ids m(4,2,3), of dest_sr] by blast
    have "set us = {d \<in> set ks. ranked_ahead packet_id d mine}" using unicast_rank.sorted_before k(2) m(4) by metis
    then have "set (filter (\<lambda>c. \<not> ht (uc_node_id c)) us) =
        {d \<in> set cs. ranked_ahead packet_id d mine \<and> admitted packet_id m (set cs) d \<and> \<not> ht (uc_node_id d)}"
      using k(1) by auto
    moreover have "distinct (filter (\<lambda>c. \<not> ht (uc_node_id c)) us)" using kd m(4) by simp
    moreover have "plan = Inr p" using plan p(1) m by (auto simp: list_ex_iff)
    ultimately show ?thesis using m(1,2,3) k(1) p(2) distinct_card by (metis (mono_tags, lifting) mem_Collect_eq)
  next
    case False
    have np: "plan_slots me dest_sr ht ks = Inl NoRelayPath"
      by (rule plan_slots_index(1) [OF len ids]) (use False in auto)
    show ?thesis
    proof (cases "plan = Inl LastHopReserved")
      case True
      then have "list_ex (\<lambda>c. uc_node_id c = me \<and> is_direct c) ?xs" "\<not> list_ex (\<lambda>c. uc_node_id c = me) ks"
        using plan np by (auto split: if_splits)
      then show ?thesis using True k(1) xs(1) by (auto simp: list_ex_iff)
    next
      case other: False
      then have "plan = Inl NoRelayPath" using plan np by (auto split: if_splits)
      moreover have "ht me \<or> me \<notin> uc_node_id ` set cs"
      proof (rule ccontr)
        assume "\<not> (ht me \<or> me \<notin> uc_node_id ` set cs)"
        then obtain mine where m: "mine \<in> set cs" "uc_node_id mine = me" "\<not> ht me" by auto
        then have "mine \<notin> set ks" using False by auto
        then have d: "is_direct mine" "mine \<in> set ?xs" using m(1) k(1) xs(1) by (auto simp: admitted_def split: if_splits)
        moreover from d(2) obtain x xs' where x: "?xs = x # xs'" by (cases ?xs) auto
        moreover have "mine = x \<or> ranked_ahead packet_id x mine" using s(1) [of packet_id] d(2) unfolding x by auto
        ultimately have "is_direct (hd ?xs)" "?xs \<noteq> []" using ahead_direct by auto
        moreover have "\<not> list_ex (\<lambda>c. uc_node_id c = me) ks" using False m(3) by (auto simp: list_ex_iff)
        moreover have "list_ex (\<lambda>c. uc_node_id c = me \<and> is_direct c) ?xs" using d m(2) by (auto simp: list_ex_iff)
        ultimately show False using plan other by simp
      qed
      ultimately show ?thesis by blast
    qed
  qed
qed

text \<open>
  C3. A unicast slot is a rank. Unless somebody else is seen to carry the packet on, the outcome is
  fixed by the candidates this node knows: it leaves the last hop to others exactly when it would
  deliver directly and one (for a destination that speaks the protocol two) direct candidates are
  ahead of it; it has no path when it is no candidate or has sent already; and else its slot is the
  number of admitted candidates ahead of it that have not sent. Nodes with the same view thus never
  share a slot.
\<close>

theorem unicast_slot_is_rank:
  assumes "es_inv (ux_edges ctx)" "\<not> unicast_covered ctx source heard_from destination now_ms ht"
    "cs = set (unicast_candidates ctx source heard_from destination my_next_hop now_ms)"
    "m = (if is_signal_routing (cap_status (ux_capability ctx) destination) then 2 else 1)"
    "plan = plan_unicast_relay ctx packet_id source heard_from destination my_next_hop now_ms ht"
  shows "(plan = Inl LastHopReserved \<and>
      (\<exists>mine \<in> cs. uc_node_id mine = ux_my_node ctx \<and> \<not> admitted packet_id m cs mine)) \<or>
    (plan = Inl NoRelayPath \<and> (ht (ux_my_node ctx) \<or> ux_my_node ctx \<notin> uc_node_id ` cs)) \<or>
    (\<exists>p. \<exists>mine \<in> cs. plan = Inr p \<and> uc_node_id mine = ux_my_node ctx \<and> \<not> ht (ux_my_node ctx) \<and>
      admitted packet_id m cs mine \<and>
      unat (bp_slot_index p) =
        card {d \<in> cs. ranked_ahead packet_id d mine \<and> admitted packet_id m cs d \<and> \<not> ht (uc_node_id d)})"
proof -
  note c = unicast_candidates_distinct [OF assms(1), of source heard_from destination my_next_hop now_ms]
  have "length (unicast_candidates ctx source heard_from destination my_next_hop now_ms) < 255"
    using c(2) by (simp add: MAX_UNICAST_CANDIDATES_def MAX_EDGES_PER_NODE_def)
  from plan_ranked_slots [OF c(1) this assms(4)] show ?thesis
    using assms(2,3,5) by (simp add: plan_unicast_relay_def)
qed

text \<open>In the island graph node 1 delivers to its neighbour 2 itself, in the first slot.\<close>

definition island_unicast :: unicast_context where
  "island_unicast = \<lparr>ux_my_node = 1, ux_edges = island_graph, ux_capability = cap_new, ux_downstream = ds_new,
     ux_downstream_ttl_ms = 100\<rparr>"

lemma island_unicast_status: "cap_status cap_new n = CapUnknown" "cap_role cap_new n = None"
  by (simp_all add: cap_status_def status_at_def cap_role_def cap_find_def cap_live_def cap_new_def)

lemma island_relays: "get_relay ds_new d now_ms ttl = None"
  by (simp add: get_relay_def relay_and_cost_def ds_new_def ds_live_def)

lemma bucket_le: "bucket x \<le> x"
proof -
  have "unat (x div 50) * 50 \<le> unat x" by (simp add: unat_div div_times_less_eq_dividend)
  moreover have "unat (x div 50 * 50) = unat (x div 50) * 50"
    using calculation unsigned_less [of x, where ?'a = nat] by (subst unat_mult_lem [THEN iffD1]) auto
  ultimately show ?thesis by (simp add: bucket_def COST_BUCKET_FIXED_def word_le_nat_alt)
qed

lemma island_unicast_candidates:
  "\<exists>k. unicast_candidates island_unicast 9 9 2 2 5 = [\<lparr>uc_node_id = 1, uc_cost = k\<rparr>]"
proof -
  have e: "edge_of island_graph 1 2 = Some (edge_fresh 2 (Fin 2) 5 Reported 0)" "edge_of island_graph 2 1 = None"
    by (simp_all add: island_graph_def edge_of_def find_edge_def edge_fresh_def)
  obtain c where c: "delivery_hop_cost_fixed island_graph (Some cap_new) 1 2 5 1 = Some c"
    using e by (simp add: delivery_hop_cost_fixed_def can_deliver_def peer_publishes_topology_def island_unicast_status
        delivery_direction_cost_fixed_def measured_edge_def edge_fresh_def is_measured_def)
  have "bucket (min c (DOWNSTREAM_TIER_COST - 1)) \<le> DOWNSTREAM_TIER_COST - 1"
    using bucket_le order_trans min.cobounded2 by blast
  then have "bucket (min c (DOWNSTREAM_TIER_COST - 1)) \<noteq> NO_PATH" by (auto simp: DOWNSTREAM_TIER_COST_def NO_PATH_def word_le_nat_alt rust_arith)
  then have "\<exists>k. own_candidate island_unicast 2 2 5 = [\<lparr>uc_node_id = 1, uc_cost = k\<rparr>]"
    using c by (simp add: own_candidate_def candidate_cost_def island_unicast_def Let_def)
  moreover have "add_candidate island_unicast 9 9 2 2 5 2 cs = cs" for cs
    by (simp add: add_candidate_def island_unicast_def island_unicast_status)
  ultimately show ?thesis
    by (auto simp: unicast_candidates_def Let_def island_unicast_def island_graph_def edge_fresh_def)
qed

theorem unicast_slot_is_rank_witness:
  "\<exists>p. plan_unicast_relay island_unicast 6 9 9 2 2 5 (\<lambda>_. False) = Inr p \<and> bp_slot_index p = 0"
proof -
  obtain k where k: "unicast_candidates island_unicast 9 9 2 2 5 = [\<lparr>uc_node_id = 1, uc_cost = k\<rparr>]"
    using island_unicast_candidates by blast
  have "es_inv (ux_edges island_unicast)" "ux_my_node island_unicast = 1"
    by (simp_all add: island_unicast_def island_graph_inv)
  moreover have "\<not> unicast_covered island_unicast 9 9 2 5 (\<lambda>_. False)"
    by (simp add: unicast_covered_def downstream_relay_def island_unicast_def island_relays)
  moreover have emp: "{d. d = c \<and> ranked_ahead 6 d c} = {}" "{d. d = c \<and> ranked_ahead 6 d c \<and> P d} = {}" for c P
    using unicast_rank.better_irrefl by auto
  ultimately show ?thesis
    using unicast_slot_is_rank [where ht = "\<lambda>_. False" and ctx = island_unicast and source = 9 and heard_from = 9 and
        destination = 2 and now_ms = 5 and my_next_hop = 2 and packet_id = 6, OF _ _ refl refl refl, unfolded k list.set bex_simps]
    by (auto simp: admitted_def unsigned_eq_0_iff emp split: if_splits)
qed

end
