(* ===== verification/Crypto.thy ===== *)
theory Crypto
  imports Wire RadioConfig
begin

unbundle bit_operations_syntax

text \<open>
  The package \<open>mesh-crypto\<close> around the third-party primitives: keys and nonces, the counter mode of
  channel packets, authenticated encryption of direct messages (CCM), the key agreement around it,
  and the channel hashes. The block cipher (\<open>aes\<close>), the digest (\<open>sha256\<close>) and the Diffie-Hellman
  functions (\<open>dh\<close>, \<open>pub\<close>) are parameters; what is assumed of them is stated where it is used. A
  buffer is a list of bytes; a panic is \<open>None\<close>.
\<close>

type_synonym cipher = "u8 list \<Rightarrow> u8 list \<Rightarrow> u8 list"

section \<open>Keys, nonces and hashes\<close>

record crypto_key =
  ck_bytes :: "u8 list"
  ck_length :: int

definition key_none :: crypto_key where
  "key_none = \<lparr>ck_bytes = replicate 32 0, ck_length = 0\<rparr>"

definition key_from_bytes :: "u8 list \<Rightarrow> crypto_key" where
  "key_from_bytes bytes =
     (let len = length bytes in
      if len = 16 \<or> len = 32
      then \<lparr>ck_bytes = bytes @ drop len (ck_bytes key_none), ck_length = int len\<rparr> else key_none)"

definition key_len :: "crypto_key \<Rightarrow> nat" where
  "key_len k = nat (ck_length k)"

definition key_is_empty :: "crypto_key \<Rightarrow> bool" where
  "key_is_empty k \<longleftrightarrow> ck_length k = 0"

definition key_is_enabled :: "crypto_key \<Rightarrow> bool" where
  "key_is_enabled k \<longleftrightarrow> 0 < ck_length k"

definition to_le_bytes64 :: "u64 \<Rightarrow> u8 list" where
  "to_le_bytes64 w = map (\<lambda>i. ucast (drop_bit (8 * i) w)) [0..<8]"

definition init_nonce :: "u32 \<Rightarrow> u64 \<Rightarrow> u32 \<Rightarrow> u8 list" where
  "init_nonce from_node packet_id extra_nonce =
     (let id = to_le_bytes64 packet_id;
          id = (if extra_nonce \<noteq> 0 then take 4 id @ to_le_bytes32 extra_nonce else id)
      in id @ to_le_bytes32 from_node @ replicate 4 0)"

definition xor_hash :: "u8 list \<Rightarrow> u8" where
  "xor_hash data = fold (\<lambda>b code. code XOR b) data 0"

definition str_bytes :: "string \<Rightarrow> u8 list" where
  "str_bytes s = map (\<lambda>c. of_nat (of_char c)) s"

definition channel_hash :: "string \<Rightarrow> u8 list \<Rightarrow> u8" where
  "channel_hash name psk = xor_hash (str_bytes name) XOR xor_hash psk"

definition DEFAULT_PSK :: "u8 list" where
  "DEFAULT_PSK = [0xd4, 0xf1, 0xbb, 0x3a, 0x20, 0x29, 0x07, 0x59, 0xf0, 0xbc, 0xff, 0xab, 0xcf, 0x4e, 0x69, 0x01]"

definition default_primary_channel_hash :: u8 where
  "default_primary_channel_hash = xor_hash DEFAULT_PSK"

definition SHORT_SLOW_CHANNEL_NAME :: string where "SHORT_SLOW_CHANNEL_NAME = ''ShortSlow''"

definition short_slow_channel_hash :: u8 where
  "short_slow_channel_hash = channel_hash SHORT_SLOW_CHANNEL_NAME DEFAULT_PSK"

definition primary_channel_hash :: "string \<Rightarrow> u8 \<Rightarrow> bool \<Rightarrow> u8 list \<Rightarrow> u8" where
  "primary_channel_hash stored_name modem_preset use_preset psk =
     (if stored_name \<noteq> [] then channel_hash stored_name psk
      else channel_hash (if use_preset then modem_preset_channel_name modem_preset else ''Custom'') psk)"

definition zeroize :: "u8 list \<Rightarrow> u8 list" where
  "zeroize buf = map (\<lambda>_. 0) buf"

definition sha256_in_place :: "(u8 list \<Rightarrow> u8 list) \<Rightarrow> u8 list \<Rightarrow> nat \<Rightarrow> u8 list \<times> bool" where
  "sha256_in_place sha256 data input_len =
     (if length data < 32 \<or> length data < input_len then (data, False)
      else (sha256 (take input_len data) @ drop 32 data, True))"

definition engine_hash :: "(u8 list \<Rightarrow> u8 list) \<Rightarrow> u8 list \<Rightarrow> u8 list \<times> bool" where
  "engine_hash sha256 bytes = sha256_in_place sha256 bytes (length bytes)"

section \<open>Counter mode\<close>

definition aes_ecb_encrypt_block :: "cipher \<Rightarrow> u8 list \<Rightarrow> u8 list \<Rightarrow> u8 list option" where
  "aes_ecb_encrypt_block aes key input = (if length key = 16 \<or> length key = 32 then Some (aes key input) else None)"

definition xor_bytes :: "u8 list \<Rightarrow> u8 list \<Rightarrow> u8 list" where
  "xor_bytes = map2 (\<lambda>a b. a XOR b)"

text \<open>The counter is the last four bytes of the vector, most significant first.\<close>

fun bump_counter :: "nat list \<Rightarrow> u8 list \<Rightarrow> u8 list" where
  "bump_counter [] iv = iv"
| "bump_counter (i # is) iv =
     (let b = iv ! i + 1; iv = iv[i := b] in if b \<noteq> 0 then iv else bump_counter is iv)"

function ctr_loop :: "cipher \<Rightarrow> u8 list \<Rightarrow> u8 list \<Rightarrow> u8 list \<Rightarrow> u8 list option" where
  "ctr_loop aes key iv data =
     (if data = [] then Some []
      else
        Option.bind (aes_ecb_encrypt_block aes key iv) (\<lambda>keystream.
          let chunk = min (length data) 16 in
          map_option (\<lambda>rest. xor_bytes (take chunk data) keystream @ rest)
            (ctr_loop aes key (bump_counter [15, 14, 13, 12] iv) (drop chunk data))))"
  by pat_completeness auto
termination
  by (relation "measure (\<lambda>(aes, key, iv, data). length data)") auto

declare ctr_loop.simps [simp del]

definition aes_ctr_crypt :: "cipher \<Rightarrow> crypto_key \<Rightarrow> u8 list \<Rightarrow> u8 list \<Rightarrow> u8 list option" where
  "aes_ctr_crypt aes key nonce data =
     (if ck_length key \<le> 0 then Some data
      else ctr_loop aes (take (nat (ck_length key)) (ck_bytes key)) nonce data)"

definition MAX_BLOCKSIZE :: nat where "MAX_BLOCKSIZE = 256"

definition encrypt_packet :: "cipher \<Rightarrow> crypto_key \<Rightarrow> u32 \<Rightarrow> u64 \<Rightarrow> u8 list \<Rightarrow> u8 list option" where
  "encrypt_packet aes key from_node packet_id bytes =
     (if \<not> key_is_enabled key \<or> bytes = [] then Some bytes
      else if MAX_BLOCKSIZE < length bytes then Some bytes
      else aes_ctr_crypt aes key (init_nonce from_node packet_id 0) bytes)"

definition decrypt_packet :: "cipher \<Rightarrow> crypto_key \<Rightarrow> u32 \<Rightarrow> u64 \<Rightarrow> u8 list \<Rightarrow> u8 list option" where
  "decrypt_packet aes key from_node packet_id bytes = encrypt_packet aes key from_node packet_id bytes"

section \<open>Authenticated encryption\<close>

definition AES_BLOCK_SIZE :: nat where "AES_BLOCK_SIZE = 16"
definition MAX_CCM_PAYLOAD :: nat where "MAX_CCM_PAYLOAD = 227"

definition put_be16 :: "u16 \<Rightarrow> u8 list" where
  "put_be16 val = [ucast (drop_bit 8 val), ucast (val AND 0xFF)]"

text \<open>
  The first block, for \<open>l\<close> bytes of length: flags, nonce and the length, which \<open>put_be16\<close> writes into
  the first two of the last \<open>l\<close> bytes. The counter of a counter block stands in its last two.
\<close>

definition ccm_block :: "u8 \<Rightarrow> nat \<Rightarrow> u8 list \<Rightarrow> u16 \<Rightarrow> u8 list" where
  "ccm_block flags l nonce val = flags # take (15 - l) nonce @ put_be16 val @ replicate (l - 2) 0"

definition constant_time_compare :: "u8 list \<Rightarrow> u8 list \<Rightarrow> bool" where
  "constant_time_compare a b \<longleftrightarrow>
     (if length a \<noteq> length b then False
      else fold (\<lambda>(x, y) diff. diff OR (x XOR y)) (zip a b) 0 = 0)"

definition auth_start :: "cipher \<Rightarrow> nat \<Rightarrow> nat \<Rightarrow> u8 list \<Rightarrow> u8 list \<Rightarrow> nat \<Rightarrow> u8 list \<Rightarrow> u8 list" where
  "auth_start aes m l nonce aad plain_len key =
     (let flags = (if aad = [] then 0 else 0x40) OR of_nat ((m - 2) div 2 * 8) OR of_nat (l - 1);
          x = aes key (ccm_block flags l nonce (of_nat plain_len))
      in if aad = [] then x
         else
           let buf = put_be16 (of_nat (length aad)) @ aad;
               buf = buf @ replicate (32 - length buf) 0;
               x = aes key (xor_bytes (take 16 buf) x)
           in if 14 < length aad then aes key (xor_bytes (take 16 (drop 16 buf)) x) else x)"

text \<open>The full blocks and then the rest, if any; the bytes beyond the rest stay.\<close>

function auth_blocks :: "cipher \<Rightarrow> u8 list \<Rightarrow> u8 list \<Rightarrow> u8 list \<Rightarrow> u8 list" where
  "auth_blocks aes key data x =
     (if 16 \<le> length data then auth_blocks aes key (drop 16 data) (aes key (xor_bytes (take 16 data) x))
      else if data \<noteq> [] then aes key (xor_bytes data x @ drop (length data) x)
      else x)"
  by pat_completeness auto
termination
  by (relation "measure (\<lambda>(aes, key, data, x). length data)") auto

declare auth_blocks.simps [simp del]

function encr :: "cipher \<Rightarrow> u8 list \<Rightarrow> (u16 \<Rightarrow> u8 list) \<Rightarrow> nat \<Rightarrow> u8 list \<Rightarrow> u8 list" where
  "encr aes key a i input =
     (if 16 \<le> length input then xor_bytes (take 16 input) (aes key (a (of_nat i))) @ encr aes key a (Suc i) (drop 16 input)
      else if input \<noteq> [] then xor_bytes input (aes key (a (of_nat i)))
      else [])"
  by pat_completeness auto
termination
  by (relation "measure (\<lambda>(aes, key, a, i, input). length input)") auto

declare encr.simps [simp del]

definition encr_start :: "nat \<Rightarrow> u8 list \<Rightarrow> u16 \<Rightarrow> u8 list" where
  "encr_start l nonce counter = of_nat (l - 1) # take (15 - l) nonce @ replicate (l - 2) 0 @ put_be16 counter"

definition encr_auth :: "cipher \<Rightarrow> nat \<Rightarrow> u8 list \<Rightarrow> (u16 \<Rightarrow> u8 list) \<Rightarrow> u8 list \<Rightarrow> u8 list" where
  "encr_auth aes m x a key = take m (xor_bytes x (aes key (a 0)))"

definition decr_auth :: "cipher \<Rightarrow> nat \<Rightarrow> (u16 \<Rightarrow> u8 list) \<Rightarrow> u8 list \<Rightarrow> u8 list \<Rightarrow> u8 list" where
  "decr_auth aes m a tag key = take m (xor_bytes tag (aes key (a 0)))"

definition valid_parameters :: "u8 list \<Rightarrow> u8 list \<Rightarrow> nat \<Rightarrow> nat \<Rightarrow> u8 list \<Rightarrow> nat \<Rightarrow> bool" where
  "valid_parameters key nonce tag_len len aad tag_capacity \<longleftrightarrow>
     (length key = 16 \<or> length key = 32) \<and> 13 \<le> length nonce \<and> 4 \<le> tag_len \<and> tag_len \<le> 16 \<and> even tag_len \<and>
     tag_len \<le> tag_capacity \<and> len \<le> 65535 \<and> length aad \<le> 30"

text \<open>The output buffers are updated in place; on failure they are returned as they were.\<close>

definition aes_ccm_ae ::
  "cipher \<Rightarrow> u8 list \<Rightarrow> u8 list \<Rightarrow> nat \<Rightarrow> u8 list \<Rightarrow> u8 list \<Rightarrow> u8 list \<Rightarrow> u8 list \<Rightarrow> (u8 list \<times> u8 list) \<times> bool" where
  "aes_ccm_ae aes key nonce tag_len plain aad crypt tag =
     (if \<not> valid_parameters key nonce tag_len (length plain) aad (length tag) \<or> length crypt < length plain
      then ((crypt, tag), False)
      else
        let x = auth_blocks aes key plain (auth_start aes tag_len 2 nonce aad (length plain) key);
            a = encr_start 2 nonce
        in ((encr aes key a 1 plain @ drop (length plain) crypt, encr_auth aes tag_len x a key @ drop tag_len tag), True))"

definition aes_ccm_ad ::
  "cipher \<Rightarrow> u8 list \<Rightarrow> u8 list \<Rightarrow> nat \<Rightarrow> u8 list \<Rightarrow> u8 list \<Rightarrow> u8 list \<Rightarrow> u8 list \<Rightarrow> u8 list \<times> bool" where
  "aes_ccm_ad aes key nonce tag_len crypt aad tag plain =
     (if \<not> valid_parameters key nonce tag_len (length crypt) aad (length tag) \<or> length plain < length crypt \<or>
         MAX_CCM_PAYLOAD < length crypt
      then (plain, False)
      else
        let a = encr_start 2 nonce;
            t = decr_auth aes tag_len a tag key;
            scratch = encr aes key a 1 crypt;
            x = auth_blocks aes key scratch (auth_start aes tag_len 2 nonce aad (length crypt) key)
        in if constant_time_compare (take tag_len x) t
           then (scratch @ drop (length crypt) plain, True) else (plain, False))"

section \<open>Direct messages\<close>

record crypto_engine =
  en_key :: crypto_key
  en_nonce :: "u8 list"
  en_private_key :: "u8 list"
  en_shared_key :: "u8 list"

definition engine_new :: crypto_engine where
  "engine_new = \<lparr>en_key = key_none, en_nonce = replicate 16 0, en_private_key = replicate 32 0,
     en_shared_key = replicate 32 0\<rparr>"

definition set_key :: "crypto_key \<Rightarrow> crypto_engine \<Rightarrow> crypto_engine" where
  "set_key k e = e\<lparr>en_key := k\<rparr>"

definition set_dh_private_key :: "u8 list \<Rightarrow> crypto_engine \<Rightarrow> crypto_engine" where
  "set_dh_private_key k e = e\<lparr>en_private_key := k\<rparr>"

definition engine_drop :: "crypto_engine \<Rightarrow> crypto_engine" where
  "engine_drop e = e\<lparr>en_private_key := zeroize (en_private_key e), en_shared_key := zeroize (en_shared_key e),
     en_nonce := zeroize (en_nonce e), en_key := (en_key e)\<lparr>ck_bytes := zeroize (ck_bytes (en_key e))\<rparr>\<rparr>"

definition all_zero :: "u8 list \<Rightarrow> bool" where
  "all_zero bs \<longleftrightarrow> list_all (\<lambda>b. b = 0) bs"

definition set_dh_public_key :: "cipher \<Rightarrow> u8 list \<Rightarrow> crypto_engine \<Rightarrow> crypto_engine \<times> bool" where
  "set_dh_public_key dh pub_key e =
     (if all_zero (en_private_key e) \<or> all_zero pub_key
      then (e\<lparr>en_shared_key := map (\<lambda>_. 0) (en_shared_key e)\<rparr>, False)
      else
        let shared = dh (en_private_key e) pub_key
        in (e\<lparr>en_shared_key := shared\<rparr>, \<not> all_zero shared))"

definition hash_shared :: "(u8 list \<Rightarrow> u8 list) \<Rightarrow> crypto_engine \<Rightarrow> crypto_engine" where
  "hash_shared sha256 e = e\<lparr>en_shared_key := fst (sha256_in_place sha256 (en_shared_key e) 32)\<rparr>"

definition decrypt_curve25519 ::
  "cipher \<Rightarrow> (u8 list \<Rightarrow> u8 list) \<Rightarrow> cipher \<Rightarrow> u32 \<Rightarrow> u8 list \<Rightarrow> u64 \<Rightarrow> u8 list \<Rightarrow> u8 list \<Rightarrow> crypto_engine \<Rightarrow>
   crypto_engine \<times> u8 list \<times> bool" where
  "decrypt_curve25519 aes sha256 dh from_node remote_public packet_num bytes bytes_out e =
     (if length bytes < 12 then (e, bytes_out, False)
      else
        let crypt_len = length bytes - 12;
            auth = drop crypt_len bytes;
            extra_nonce = from_le_bytes32 (auth ! 8) (auth ! 9) (auth ! 10) (auth ! 11)
        in (case set_dh_public_key dh remote_public e of
              (e, False) \<Rightarrow> (e, bytes_out, False)
            | (e, True) \<Rightarrow>
                let e = hash_shared sha256 e;
                    e = e\<lparr>en_nonce := init_nonce from_node packet_num extra_nonce\<rparr>
                in if length bytes_out < crypt_len then (e, bytes_out, False)
                   else (e, aes_ccm_ad aes (en_shared_key e) (en_nonce e) 8 (take crypt_len bytes) []
                              (take 8 auth) bytes_out)))"

definition encrypt_curve25519 ::
  "cipher \<Rightarrow> (u8 list \<Rightarrow> u8 list) \<Rightarrow> cipher \<Rightarrow> u8 list \<Rightarrow> u32 \<Rightarrow> u64 \<Rightarrow> u32 \<Rightarrow> u8 list \<Rightarrow> u8 list \<Rightarrow> crypto_engine \<Rightarrow>
   crypto_engine \<times> u8 list \<times> bool" where
  "encrypt_curve25519 aes sha256 dh remote_public from_node packet_num extra_nonce plain bytes_out e =
     (if length bytes_out < length plain + 12 then (e, bytes_out, False)
      else (case set_dh_public_key dh remote_public e of
              (e, False) \<Rightarrow> (e, bytes_out, False)
            | (e, True) \<Rightarrow>
                let e = hash_shared sha256 e;
                    e = e\<lparr>en_nonce := init_nonce from_node packet_num extra_nonce\<rparr>;
                    n = length plain
                in (case aes_ccm_ae aes (en_shared_key e) (en_nonce e) 8 plain [] (take n bytes_out)
                           (take 8 (drop n bytes_out)) of
                      (_, False) \<Rightarrow> (e, bytes_out, False)
                    | ((crypt, tag), True) \<Rightarrow>
                        (e, crypt @ tag @ to_le_bytes32 extra_nonce @ drop (n + 12) bytes_out, True))))"

section \<open>Keys of the device\<close>

definition generate_keypair ::
  "(u8 list \<Rightarrow> u8 list) \<Rightarrow> (u8 list \<Rightarrow> u8 list) \<Rightarrow> u8 list \<Rightarrow> u8 list \<Rightarrow> u8 list \<times> u8 list" where
  "generate_keypair sha256 pub seed device_id =
     (case sha256_in_place sha256 (seed @ device_id) (length (seed @ device_id)) of
        (material, ok) \<Rightarrow>
          let key = (if ok then take 32 material else seed);
              key = key[0 := key ! 0 AND 248];
              key = key[31 := (key ! 31 AND 127) OR 64]
          in (key, pub key))"

definition public_from_private :: "(u8 list \<Rightarrow> u8 list) \<Rightarrow> u8 list \<Rightarrow> u8 list option" where
  "public_from_private pub private_key =
     (if all_zero private_key then None
      else let p = pub private_key in if all_zero p then None else Some p)"

definition EMPTY_ADMIN_KEY :: "u8 list" where "EMPTY_ADMIN_KEY = replicate 32 0"

definition BUILTIN_ADMIN_PUBLIC_KEYS :: "u8 list list" where
  "BUILTIN_ADMIN_PUBLIC_KEYS =
     [[0x9d, 0x37, 0xec, 0x73, 0x30, 0xca, 0x6e, 0xd0, 0x6d, 0x5b, 0xad, 0x4f, 0xa0, 0xa1, 0x9c,
       0xa3, 0x55, 0x04, 0xb6, 0x56, 0xe7, 0x4b, 0x6f, 0xf0, 0x15, 0xbd, 0x89, 0x9e, 0x31, 0xcc,
       0x44, 0x43],
      [0x6b, 0x8e, 0x2a, 0x78, 0x8e, 0xef, 0x6b, 0x05, 0x87, 0x63, 0x6c, 0x48, 0x29, 0x6f, 0x1c,
       0x08, 0x24, 0x44, 0xce, 0xc1, 0x5d, 0x04, 0x27, 0x24, 0x61, 0x9e, 0xbc, 0x84, 0x04, 0x8c,
       0x2e, 0x61]]"

definition is_admin_authorized :: "u8 list \<Rightarrow> u8 list list \<Rightarrow> bool" where
  "is_admin_authorized remote_pk flash \<longleftrightarrow>
     list_ex (\<lambda>k. k = remote_pk) BUILTIN_ADMIN_PUBLIC_KEYS \<or>
     list_ex (\<lambda>k. k \<noteq> EMPTY_ADMIN_KEY \<and> k = remote_pk) flash"

section \<open>Keystreams cancel\<close>

text \<open>What the block cipher promises: a block for a block.\<close>

definition block_cipher :: "cipher \<Rightarrow> bool" where
  "block_cipher aes \<longleftrightarrow> (\<forall>key block. length (aes key block) = 16)"

lemma length_xor_bytes [simp]: "length (xor_bytes a b) = min (length a) (length b)"
  by (simp add: xor_bytes_def)

lemma xor_bytes_twice: "length d \<le> length ks \<Longrightarrow> xor_bytes (xor_bytes d ks) ks = d"
  by (rule nth_equalityI) (simp_all add: xor_bytes_def xor.assoc)

lemma xor_bytes_take:
  "xor_bytes (take n a) b = take n (xor_bytes a b)" "xor_bytes a (take n b) = take n (xor_bytes a b)"
  by (rule nth_equalityI; simp add: xor_bytes_def)+

lemma ctr_loop_length: "block_cipher aes \<Longrightarrow> ctr_loop aes key iv data = Some out \<Longrightarrow> length out = length data"
proof (induction aes key iv data arbitrary: out rule: ctr_loop.induct)
  case (1 aes key iv data)
  show ?case
  proof (cases "data = []")
    case False
    obtain ks rest where k: "aes_ecb_encrypt_block aes key iv = Some ks"
      "ctr_loop aes key (bump_counter [15, 14, 13, 12] iv) (drop (min (length data) 16) data) = Some rest"
      "out = xor_bytes (take (min (length data) 16) data) ks @ rest"
      using 1(3) False by (subst (asm) ctr_loop.simps) (auto simp: bind_eq_Some_conv Let_def)
    have "length ks = 16" using k(1) 1(2) by (auto simp: aes_ecb_encrypt_block_def block_cipher_def split: if_splits)
    then show ?thesis using 1(1) [OF False k(1) refl 1(2) k(2)] k(3) by simp
  qed (use 1(3) in \<open>simp add: ctr_loop.simps\<close>)
qed

lemma ctr_loop_twice:
  "block_cipher aes \<Longrightarrow> length key = 16 \<or> length key = 32 \<Longrightarrow>
   \<exists>out. ctr_loop aes key iv data = Some out \<and> ctr_loop aes key iv out = Some data"
proof (induction aes key iv data rule: ctr_loop.induct)
  case (1 aes key iv data)
  show ?case
  proof (cases "data = []")
    case True
    then show ?thesis by (simp add: ctr_loop.simps)
  next
    case False
    let ?n = "min (length data) 16" and ?iv = "bump_counter [15, 14, 13, 12] iv"
    have k: "aes_ecb_encrypt_block aes key iv = Some (aes key iv)" using 1(3) by (auto simp: aes_ecb_encrypt_block_def)
    have l: "length (aes key iv) = 16" using 1(2) by (simp add: block_cipher_def)
    obtain rest where r: "ctr_loop aes key ?iv (drop ?n data) = Some rest" "ctr_loop aes key ?iv rest = Some (drop ?n data)"
      using 1(1) [OF False k refl 1(2,3)] by blast
    let ?first = "xor_bytes (take ?n data) (aes key iv)"
    have out: "ctr_loop aes key iv data = Some (?first @ rest)"
      using False k r(1) by (subst ctr_loop.simps) (simp add: Let_def)
    have len: "length rest = length data - ?n" "length ?first = ?n"
      using ctr_loop_length [OF 1(2) r(1)] l by simp_all
    then have ne: "?first \<noteq> []" using False by (metis length_0_conv length_greater_0_conv min_less_iff_conj zero_less_numeral)
    have "min (length (?first @ rest)) 16 = ?n" "take ?n (?first @ rest) = ?first" "drop ?n (?first @ rest) = rest"
      using len by auto
    then have "ctr_loop aes key iv (?first @ rest) = Some (xor_bytes ?first (aes key iv) @ drop ?n data)"
      using ne k r(2) by (subst ctr_loop.simps) (simp add: Let_def)
    moreover have "xor_bytes ?first (aes key iv) = take ?n data" by (rule xor_bytes_twice) (simp add: l)
    ultimately show ?thesis using out by simp
  qed
qed

lemma encr_length: "block_cipher aes \<Longrightarrow> length (encr aes key a i input) = length input"
proof (induction aes key a i input rule: encr.induct)
  case (1 aes key a i input)
  then show ?case by (subst encr.simps) (auto simp: block_cipher_def)
qed

lemma encr_twice: "block_cipher aes \<Longrightarrow> encr aes key a i (encr aes key a i input) = input"
proof (induction aes key a i input rule: encr.induct)
  case (1 aes key a i input)
  let ?ks = "aes key (a (of_nat i))"
  have l: "length ?ks = 16" using 1(2) by (simp add: block_cipher_def)
  show ?case
  proof (cases "16 \<le> length input")
    case True
    let ?rest = "encr aes key a (Suc i) (drop 16 input)"
    have e: "encr aes key a i input = xor_bytes (take 16 input) ?ks @ ?rest" using True by (subst encr.simps) simp
    have "length (xor_bytes (take 16 input) ?ks) = 16" using True l by simp
    then have "encr aes key a i (encr aes key a i input) =
        xor_bytes (xor_bytes (take 16 input) ?ks) ?ks @ encr aes key a (Suc i) ?rest"
      unfolding e by (subst encr.simps) simp
    then show ?thesis using 1(1) [OF True 1(2)] xor_bytes_twice [of "take 16 input" ?ks] l by simp
  next
    case False
    have e: "encr aes key a i input = xor_bytes input ?ks"
      using False by (subst encr.simps) (auto simp: xor_bytes_def)
    have "length (xor_bytes input ?ks) = length input" using False l by simp
    then have "encr aes key a i (xor_bytes input ?ks) = xor_bytes (xor_bytes input ?ks) ?ks"
      using False by (subst encr.simps) (auto simp: xor_bytes_def)
    then show ?thesis unfolding e using xor_bytes_twice [of input ?ks] False l by simp
  qed
qed

section \<open>What is accepted\<close>

lemma constant_time_compare_iff: "constant_time_compare a b \<longleftrightarrow> a = b"
proof -
  have "fold (\<lambda>(x, y) diff. diff OR (x XOR y)) (zip a b) d = 0 \<longleftrightarrow> d = 0 \<and> a = b" if "length a = length b" for d
    using that
  proof (induction a b arbitrary: d rule: list_induct2)
    case (Cons x xs y ys)
    have "d OR (x XOR y) = 0 \<longleftrightarrow> d = 0 \<and> x = y" by (metis or_eq_0_iff xor_self_eq xor.left_neutral xor.assoc)
    then show ?case using Cons.IH [of "d OR (x XOR y)"] by auto
  qed simp
  from this [of 0] show ?thesis by (auto simp: constant_time_compare_def)
qed

lemma auth_blocks_length: "block_cipher aes \<Longrightarrow> length x = 16 \<Longrightarrow> length (auth_blocks aes key data x) = 16"
proof (induction aes key data x rule: auth_blocks.induct)
  case (1 aes key data x)
  then show ?case by (subst auth_blocks.simps) (auto simp: block_cipher_def)
qed

lemma auth_start_length: "block_cipher aes \<Longrightarrow> length (auth_start aes m l nonce aad n key) = 16"
  by (simp add: auth_start_def block_cipher_def Let_def)

lemma ccm_exact:
  assumes "block_cipher aes" "valid_parameters key nonce m (length crypt) aad (length tag)" "length tag = m"
    "length crypt \<le> MAX_CCM_PAYLOAD" "length crypt \<le> length buf" "length p = length crypt"
    "length out = length crypt" "length tag_out = m"
  shows "(aes_ccm_ad aes key nonce m crypt aad tag buf = (p @ drop (length crypt) buf, True) \<longleftrightarrow>
      aes_ccm_ae aes key nonce m p aad out tag_out = ((crypt, tag), True)) \<and>
    (\<not> snd (aes_ccm_ad aes key nonce m crypt aad tag buf) \<longrightarrow> fst (aes_ccm_ad aes key nonce m crypt aad tag buf) = buf)"
proof -
  let ?a = "encr_start 2 nonce" and ?n = "length crypt"
  let ?x = "\<lambda>q. auth_blocks aes key q (auth_start aes m 2 nonce aad ?n key)" and ?ks = "aes key (encr_start 2 nonce 0)"
  have ks: "length ?ks = 16" "length (?x q) = 16" for q
    using assms(1) auth_blocks_length [OF assms(1) auth_start_length [OF assms(1)]] by (auto simp: block_cipher_def)
  have m: "m \<le> 16" using assms(2) by (simp add: valid_parameters_def)
  let ?q = "encr aes key ?a 1 crypt"
  have ae: "aes_ccm_ae aes key nonce m p aad out tag_out = ((encr aes key ?a 1 p, take m (xor_bytes (?x p) ?ks)), True)"
    using assms by (simp add: aes_ccm_ae_def encr_auth_def Let_def encr_length)
  have ad: "aes_ccm_ad aes key nonce m crypt aad tag buf =
      (if take m (?x ?q) = take m (xor_bytes tag ?ks) then (?q @ drop ?n buf, True) else (buf, False))"
    using assms by (simp add: aes_ccm_ad_def decr_auth_def Let_def constant_time_compare_iff)
  have tag: "take m (?x q) = take m (xor_bytes tag ?ks) \<longleftrightarrow> tag = take m (xor_bytes (?x q) ?ks)" for q
  proof
    assume h: "take m (?x q) = take m (xor_bytes tag ?ks)"
    have "take m (xor_bytes (?x q) ?ks) = xor_bytes (xor_bytes tag ?ks) ?ks"
      using h assms(3) m ks by (metis length_xor_bytes min.absorb1 order_refl take_all xor_bytes_take(1))
    then show "tag = take m (xor_bytes (?x q) ?ks)" using xor_bytes_twice [of tag ?ks] assms(3) m ks by simp
  next
    assume h: "tag = take m (xor_bytes (?x q) ?ks)"
    have "xor_bytes tag ?ks = take m (xor_bytes (xor_bytes (?x q) ?ks) ?ks)" by (subst h) (rule xor_bytes_take(1))
    then show "take m (?x q) = take m (xor_bytes tag ?ks)" using xor_bytes_twice [of "?x q" ?ks] ks by simp
  qed
  have "encr aes key ?a 1 p = crypt \<longleftrightarrow> ?q = p" using encr_twice [OF assms(1)] by metis
  moreover have "?q @ drop ?n buf = p @ drop ?n buf \<longleftrightarrow> ?q = p" by simp
  ultimately show ?thesis unfolding ad ae tag by auto
qed

text \<open>
  C4. Authenticated decryption accepts exactly the honest ciphertexts. For a block cipher, valid
  parameters and buffers of the right size, \<open>aes_ccm_ad\<close> accepts a ciphertext with its tag, and
  writes the plaintext \<open>p\<close>, exactly when \<open>aes_ccm_ae\<close> produces this ciphertext and tag from \<open>p\<close>; when
  it refuses, the caller's buffer is as it was.
\<close>

theorem ccm_accepts_exactly:
  assumes "block_cipher aes" "valid_parameters key nonce m (length crypt) aad (length tag)" "length tag = m"
    "length crypt \<le> MAX_CCM_PAYLOAD" "length crypt \<le> length buf" "length p = length crypt"
    "length out = length crypt" "length tag_out = m"
  shows "(aes_ccm_ad aes key nonce m crypt aad tag buf = (p @ drop (length crypt) buf, True) \<longleftrightarrow>
      aes_ccm_ae aes key nonce m p aad out tag_out = ((crypt, tag), True)) \<and>
    (\<not> snd (aes_ccm_ad aes key nonce m crypt aad tag buf) \<longrightarrow> fst (aes_ccm_ad aes key nonce m crypt aad tag buf) = buf)"
  by (rule ccm_exact [OF assms])

text \<open>A cipher for examples: the block itself.\<close>

definition plain_cipher :: cipher where
  "plain_cipher key block = take 16 (block @ replicate 16 0)"

lemma plain_cipher_blocks: "block_cipher plain_cipher"
  by (auto simp: block_cipher_def plain_cipher_def)

theorem ccm_accepts_exactly_witness:
  "aes_ccm_ad plain_cipher (replicate 16 5) (replicate 16 6) 8 [0, 4, 5] [] [25, 2, 3, 0, 0, 0, 0, 0] [9, 9, 9, 9] =
     ([1, 2, 3, 9], True)"
proof -
  have "aes_ccm_ae plain_cipher (replicate 16 5) (replicate 16 6) 8 [1, 2, 3] [] [0, 0, 0] [0, 0, 0, 0, 0, 0, 0, 0] =
     (([0, 4, 5], [25, 2, 3, 0, 0, 0, 0, 0]), True)"
    by (simp add: aes_ccm_ae_def valid_parameters_def auth_blocks.simps auth_start_def ccm_block_def encr.simps encr_start_def
        encr_auth_def plain_cipher_def xor_bytes_def put_be16_def Let_def)
      (simp add: numeral_eq_Suc)
  then show ?thesis
    using ccm_accepts_exactly [OF plain_cipher_blocks, where key = "replicate 16 5" and nonce = "replicate 16 6" and m = 8 and
        crypt = "[0, 4, 5]" and aad = "[]" and tag = "[25, 2, 3, 0, 0, 0, 0, 0]" and buf = "[9, 9, 9, 9]" and p = "[1, 2, 3]" and
        out = "[0, 0, 0]" and tag_out = "[0, 0, 0, 0, 0, 0, 0, 0]"]
    by (simp add: valid_parameters_def MAX_CCM_PAYLOAD_def)
qed

section \<open>Round trips\<close>

text \<open>
  Counter mode, byte for byte: block \<open>k\<close> of the key stream is the cipher of the nonce with \<open>k\<close> in its
  last byte, as long as the counter stays in that byte.
\<close>

definition ctr_byte :: "cipher \<Rightarrow> u8 list \<Rightarrow> u8 list \<Rightarrow> nat \<Rightarrow> nat \<Rightarrow> u8" where
  "ctr_byte aes key prefix k i = aes key (prefix @ [0, 0, 0, of_nat (k + i div 16)]) ! (i mod 16)"

lemma bump_last: "length prefix = 12 \<Longrightarrow> k < 255 \<Longrightarrow>
  bump_counter [15, 14, 13, 12] (prefix @ [0, 0, 0, of_nat k]) = prefix @ [0, 0, 0, of_nat (Suc k)]"
proof -
  assume a: "length prefix = 12" "k < 255"
  have "unat (of_nat (Suc k) :: u8) = Suc k" using a(2) by (simp add: unsigned_of_nat take_bit_nat_eq_self del: of_nat_Suc)
  then have "(of_nat (Suc k) :: u8) \<noteq> 0" by (metis nat.distinct(1) unsigned_0)
  then show ?thesis using a(1) by (simp add: nth_append list_update_append numeral_eq_Suc add.commute)
qed

lemma ctr_loop_bytes:
  assumes "block_cipher aes" "length key = 16 \<or> length key = 32" "length prefix = 12" "16 * k + length data \<le> 4096"
  shows "ctr_loop aes key (prefix @ [0, 0, 0, of_nat k]) data =
    Some (map (\<lambda>i. data ! i XOR ctr_byte aes key prefix k i) [0..<length data])"
  using assms(4)
proof (induction "length data" arbitrary: data k rule: less_induct)
  case less
  show ?case
  proof (cases "data = []")
    case True
    then show ?thesis by (simp add: ctr_loop.simps)
  next
    case False
    let ?n = "min (length data) 16" and ?iv = "prefix @ [0, 0, 0, of_nat k]"
    let ?ks = "aes key ?iv"
    have ks: "aes_ecb_encrypt_block aes key ?iv = Some ?ks" "length ?ks = 16"
      using assms(1,2) by (auto simp: aes_ecb_encrypt_block_def block_cipher_def)
    have rest: "ctr_loop aes key (bump_counter [15, 14, 13, 12] ?iv) (drop ?n data) =
        Some (map (\<lambda>i. drop ?n data ! i XOR ctr_byte aes key prefix (Suc k) i) [0..<length (drop ?n data)])"
    proof (cases "length data \<le> 16")
      case True
      then show ?thesis by (simp add: ctr_loop.simps)
    next
      case long: False
      then have "k < 255" using less.prems by simp
      then show ?thesis
        using less.hyps [of "drop ?n data" "Suc k"] less.prems long False by (simp only: bump_last [OF assms(3)]) simp
    qed
    have "xor_bytes (take ?n data) ?ks @
        map (\<lambda>i. drop ?n data ! i XOR ctr_byte aes key prefix (Suc k) i) [0..<length (drop ?n data)] =
      map (\<lambda>i. data ! i XOR ctr_byte aes key prefix k i) [0..<length data]" (is "?l = ?r")
    proof (rule nth_equalityI)
      show "length ?l = length ?r" using ks(2) by simp
      show "?l ! i = ?r ! i" if "i < length ?l" for i
      proof (cases "i < ?n")
        case True
        then show ?thesis using ks(2) by (simp add: nth_append xor_bytes_def ctr_byte_def)
      next
        case False
        then have i: "16 \<le> i" "i < length data" "?n = 16" using that ks(2) by auto
        then have "i div 16 = Suc ((i - 16) div 16)" "i mod 16 = (i - 16) mod 16"
          by (simp_all add: le_div_geq le_mod_geq)
        then show ?thesis using i ks(2) False by (simp add: nth_append ctr_byte_def add.left_commute)
      qed
    qed
    then show ?thesis using False ks(1) rest by (subst ctr_loop.simps) (simp add: Let_def)
  qed
qed

text \<open>
  C39. What goes on the air for a channel packet, byte for byte. With a key of 16 or 32 bytes, byte
  \<open>i\<close> of a payload of at most 256 bytes is combined with byte \<open>i mod 16\<close> of the block cipher of the
  counter block that holds the packet identifier, the sender and the block number \<open>i div 16\<close>;
  without a key, or above that length, the payload is left as it is. Decryption with the same
  key, sender and identifier gives the payload back.
\<close>

theorem packet_is_ctr_encrypted:
  assumes "block_cipher aes"
    "cipher_bytes = (if (length psk = 16 \<or> length psk = 32) \<and> length plain \<le> 256
       then map (\<lambda>i. plain ! i XOR aes psk (to_le_bytes64 packet_id @ to_le_bytes32 from_node @
              [0, 0, 0, of_nat (i div 16)]) ! (i mod 16)) [0..<length plain]
       else plain)"
  shows "encrypt_packet aes (key_from_bytes psk) from_node packet_id plain = Some cipher_bytes \<and>
    decrypt_packet aes (key_from_bytes psk) from_node packet_id cipher_bytes = Some plain"
proof (cases "(length psk = 16 \<or> length psk = 32) \<and> length plain \<le> 256")
  case True
  let ?prefix = "to_le_bytes64 packet_id @ to_le_bytes32 from_node"
  have key: "key_is_enabled (key_from_bytes psk)" "0 < ck_length (key_from_bytes psk)"
    "take (nat (ck_length (key_from_bytes psk))) (ck_bytes (key_from_bytes psk)) = psk"
    using True by (auto simp: key_is_enabled_def key_from_bytes_def Let_def)
  have nonce: "init_nonce from_node packet_id 0 = ?prefix @ [0, 0, 0, of_nat 0]"
    by (simp add: init_nonce_def Let_def numeral_eq_Suc)
  have ctr: "ctr_loop aes psk (init_nonce from_node packet_id 0) plain = Some cipher_bytes"
    using ctr_loop_bytes [OF assms(1), of psk ?prefix 0 plain] True assms(2) nonce
    by (simp add: ctr_byte_def to_le_bytes64_def length_to_le_bytes32)
  moreover have "ctr_loop aes psk (init_nonce from_node packet_id 0) cipher_bytes = Some plain"
    using ctr_loop_twice [OF assms(1), of psk "init_nonce from_node packet_id 0" plain] True ctr by simp
  moreover have "length cipher_bytes = length plain" using assms(2) by simp
  moreover have "cipher_bytes = [] \<longleftrightarrow> plain = []" using calculation(3) by auto
  ultimately show ?thesis
    using key True by (auto simp: encrypt_packet_def decrypt_packet_def aes_ctr_crypt_def MAX_BLOCKSIZE_def)
next
  case False
  then have "cipher_bytes = plain" using assms(2) by auto
  moreover have "\<not> key_is_enabled (key_from_bytes psk) \<or> MAX_BLOCKSIZE < length plain"
    using False by (auto simp: key_is_enabled_def key_from_bytes_def key_none_def MAX_BLOCKSIZE_def Let_def)
  ultimately show ?thesis by (auto simp: encrypt_packet_def decrypt_packet_def)
qed

theorem packet_is_ctr_encrypted_witness:
  "encrypt_packet plain_cipher (key_from_bytes DEFAULT_PSK) 7 99 (replicate 18 1) =
     Some [98, 1, 1, 1, 1, 1, 1, 1, 6, 1, 1, 1, 1, 1, 1, 1, 98, 1] \<and>
   decrypt_packet plain_cipher (key_from_bytes DEFAULT_PSK) 7 99
     [98, 1, 1, 1, 1, 1, 1, 1, 6, 1, 1, 1, 1, 1, 1, 1, 98, 1] = Some (replicate 18 1)"
proof (rule packet_is_ctr_encrypted [OF plain_cipher_blocks])
  show "[98, 1, 1, 1, 1, 1, 1, 1, 6, 1, 1, 1, 1, 1, 1, 1, 98, 1] =
    (if (length DEFAULT_PSK = 16 \<or> length DEFAULT_PSK = 32) \<and> length (replicate 18 (1 :: u8)) \<le> 256
     then map (\<lambda>i. replicate 18 1 ! i XOR plain_cipher DEFAULT_PSK (to_le_bytes64 99 @ to_le_bytes32 7 @
            [0, 0, 0, of_nat (i div 16)]) ! (i mod 16)) [0..<length (replicate 18 (1 :: u8))]
     else replicate 18 1)"
    by code_simp
qed

text \<open>What the key agreement promises: both ends compute the same 32 bytes, and the digest has 32.\<close>

definition key_agreement :: "cipher \<Rightarrow> (u8 list \<Rightarrow> u8 list) \<Rightarrow> bool" where
  "key_agreement dh pub \<longleftrightarrow> (\<forall>a b. dh a (pub b) = dh b (pub a) \<and> length (dh a b) = 32)"

definition digest32 :: "(u8 list \<Rightarrow> u8 list) \<Rightarrow> bool" where
  "digest32 sha256 \<longleftrightarrow> (\<forall>bs. length (sha256 bs) = 32)"

lemma length_init_nonce: "length (init_nonce from_node packet_id extra) = 16"
  by (simp add: init_nonce_def to_le_bytes64_def length_to_le_bytes32 Let_def)

lemma set_dh_public_key_ok:
  "\<not> all_zero (en_private_key e) \<Longrightarrow> \<not> all_zero remote \<Longrightarrow> \<not> all_zero (dh (en_private_key e) remote) \<Longrightarrow>
   set_dh_public_key dh remote e = (e\<lparr>en_shared_key := dh (en_private_key e) remote\<rparr>, True)"
  by (simp add: set_dh_public_key_def Let_def)

text \<open>The bytes of a direct message: ciphertext, tag and extra nonce.\<close>

lemma encrypt_curve25519_result:
  assumes "block_cipher aes" "digest32 sha256" "length plain + 12 \<le> length bytes_out" "length plain \<le> MAX_CCM_PAYLOAD"
    "length (dh (en_private_key e) remote) = 32" "\<not> all_zero (en_private_key e)" "\<not> all_zero remote"
    "\<not> all_zero (dh (en_private_key e) remote)"
  obtains e' crypt tag where
    "encrypt_curve25519 aes sha256 dh remote from_node packet_num extra plain bytes_out e =
       (e', crypt @ tag @ to_le_bytes32 extra @ drop (length plain + 12) bytes_out, True)"
    "length crypt = length plain" "length tag = 8"
    "aes_ccm_ae aes (sha256 (dh (en_private_key e) remote)) (init_nonce from_node packet_num extra) 8 plain []
       (take (length plain) bytes_out) (take 8 (drop (length plain) bytes_out)) = ((crypt, tag), True)"
proof -
  let ?k = "sha256 (dh (en_private_key e) remote)" and ?nonce = "init_nonce from_node packet_num extra"
  let ?x = "auth_blocks aes ?k plain (auth_start aes 8 2 ?nonce [] (length plain) ?k)"
  have k: "length ?k = 32" using assms(2) by (simp add: digest32_def)
  have x: "length ?x = 16" by (rule auth_blocks_length [OF assms(1) auth_start_length [OF assms(1)]])
  have "valid_parameters ?k ?nonce 8 (length plain) [] (length (take 8 (drop (length plain) bytes_out)))"
    using assms(3,4) k by (simp add: valid_parameters_def length_init_nonce MAX_CCM_PAYLOAD_def)
  then have ae: "aes_ccm_ae aes ?k ?nonce 8 plain [] (take (length plain) bytes_out) (take 8 (drop (length plain) bytes_out)) =
      ((encr aes ?k (encr_start 2 ?nonce) 1 plain, encr_auth aes 8 ?x (encr_start 2 ?nonce) ?k), True)"
    using assms(3) by (simp add: aes_ccm_ae_def Let_def)
  show ?thesis
  proof (rule that)
    show "length (encr aes ?k (encr_start 2 ?nonce) 1 plain) = length plain" by (rule encr_length [OF assms(1)])
    show "length (encr_auth aes 8 ?x (encr_start 2 ?nonce) ?k) = 8"
      using x assms(1) by (simp add: encr_auth_def block_cipher_def)
    show "encrypt_curve25519 aes sha256 dh remote from_node packet_num extra plain bytes_out e =
      (e\<lparr>en_shared_key := ?k, en_nonce := ?nonce\<rparr>, encr aes ?k (encr_start 2 ?nonce) 1 plain @
         encr_auth aes 8 ?x (encr_start 2 ?nonce) ?k @ to_le_bytes32 extra @ drop (length plain + 12) bytes_out, True)"
      using assms(3,5) ae set_dh_public_key_ok [where dh = dh, OF assms(6,7,8)]
      by (simp add: encrypt_curve25519_def hash_shared_def sha256_in_place_def Let_def)
  qed (rule ae)
qed

lemma decrypt_curve25519_result:
  assumes "length tag = 8" "length crypt \<le> length buf" "length (dh (en_private_key e) remote) = 32"
    "\<not> all_zero (en_private_key e)" "\<not> all_zero remote" "\<not> all_zero (dh (en_private_key e) remote)"
  shows "decrypt_curve25519 aes sha256 dh from_node remote packet_num (crypt @ tag @ to_le_bytes32 extra) buf e =
    (e\<lparr>en_shared_key := sha256 (dh (en_private_key e) remote), en_nonce := init_nonce from_node packet_num extra\<rparr>,
     aes_ccm_ad aes (sha256 (dh (en_private_key e) remote)) (init_nonce from_node packet_num extra) 8 crypt [] tag buf)"
proof -
  let ?bytes = "crypt @ tag @ to_le_bytes32 extra"
  have l: "length ?bytes - 12 = length crypt" "\<not> length ?bytes < 12" using assms(1) by (simp_all add: length_to_le_bytes32)
  have auth: "drop (length crypt) ?bytes = tag @ to_le_bytes32 extra" "take (length crypt) ?bytes = crypt" by simp_all
  have extra: "from_le_bytes32 ((tag @ to_le_bytes32 extra) ! 8) ((tag @ to_le_bytes32 extra) ! 9)
      ((tag @ to_le_bytes32 extra) ! 10) ((tag @ to_le_bytes32 extra) ! 11) = extra"
    using assms(1) from_to_le_bytes32 [of extra] by (simp add: nth_append to_le_bytes32_def)
  have tag: "take 8 (tag @ to_le_bytes32 extra) = tag" using assms(1) by simp
  show ?thesis
    unfolding decrypt_curve25519_def l Let_def auth extra tag set_dh_public_key_ok [where dh = dh, OF assms(4,5,6)]
    using assms(2,3) l(2) by (simp add: hash_shared_def sha256_in_place_def del: length_append)
qed

text \<open>
  C6. A direct message reaches its addressee. When the key agreement gives both ends the same
  secret and no key is zero, what one node encrypts for the public key of another, in a buffer large
  enough, is accepted by the other with the public key of the first, and decrypts to the message.
\<close>

theorem direct_message_round_trip:
  assumes "block_cipher aes" "digest32 sha256" "key_agreement dh pub" "en_private_key ea = a" "en_private_key eb = b"
    "\<not> all_zero a" "\<not> all_zero b" "\<not> all_zero (pub a)" "\<not> all_zero (pub b)" "\<not> all_zero (dh a (pub b))"
    "length plain \<le> MAX_CCM_PAYLOAD" "length plain + 12 \<le> length bytes_out" "length plain \<le> length buf"
  shows "\<exists>ea' out eb'. encrypt_curve25519 aes sha256 dh (pub b) from_node packet_num extra plain bytes_out ea = (ea', out, True) \<and>
    decrypt_curve25519 aes sha256 dh from_node (pub a) packet_num (take (length plain + 12) out) buf eb =
      (eb', plain @ drop (length plain) buf, True)"
proof -
  have s: "dh b (pub a) = dh a (pub b)" "length (dh a (pub b)) = 32" using assms(3) by (auto simp: key_agreement_def)
  let ?n = "length plain" and ?k = "sha256 (dh a (pub b))" and ?nonce = "init_nonce from_node packet_num extra"
  obtain ea' crypt tag where e: "encrypt_curve25519 aes sha256 dh (pub b) from_node packet_num extra plain bytes_out ea =
       (ea', crypt @ tag @ to_le_bytes32 extra @ drop (?n + 12) bytes_out, True)" "length crypt = ?n" "length tag = 8"
    "aes_ccm_ae aes ?k ?nonce 8 plain [] (take ?n bytes_out) (take 8 (drop ?n bytes_out)) = ((crypt, tag), True)"
    using assms(6,9,10) s(2) encrypt_curve25519_result [where dh = dh and e = ea and remote = "pub b", OF assms(1,2,12,11), unfolded assms(4)] by blast
  let ?bytes = "crypt @ tag @ to_le_bytes32 extra"
  have t: "take (?n + 12) (crypt @ tag @ to_le_bytes32 extra @ drop (?n + 12) bytes_out) = ?bytes"
    using e(2,3) by (simp add: length_to_le_bytes32)
  have "length ?k = 32" using assms(2) by (simp add: digest32_def)
  then have v: "valid_parameters ?k ?nonce 8 ?n [] 8"
    using assms(11) by (simp add: valid_parameters_def length_init_nonce MAX_CCM_PAYLOAD_def)
  have ad: "aes_ccm_ad aes ?k ?nonce 8 crypt [] tag buf = (plain @ drop ?n buf, True)"
  proof -
    have "valid_parameters ?k ?nonce 8 (length crypt) [] (length tag)" "length crypt \<le> MAX_CCM_PAYLOAD" "length crypt \<le> length buf"
      "length plain = length crypt" "length (take ?n bytes_out) = length crypt" "length (take 8 (drop ?n bytes_out)) = 8"
      using v e(2,3) assms(11,12,13) by simp_all
    from conjunct1 [OF ccm_exact [OF assms(1) this(1) e(3) this(2-)]] show ?thesis using e(2,4) by (simp only: simp_thms)
  qed
  have "decrypt_curve25519 aes sha256 dh from_node (pub a) packet_num ?bytes buf eb =
      (eb\<lparr>en_shared_key := ?k, en_nonce := ?nonce\<rparr>, plain @ drop ?n buf, True)"
    using decrypt_curve25519_result [of tag crypt buf dh eb "pub a" aes sha256 from_node packet_num extra] e(2,3) assms(5,7,8,10,13) s ad
    by simp
  then have "decrypt_curve25519 aes sha256 dh from_node (pub a) packet_num
      (take (?n + 12) (crypt @ tag @ to_le_bytes32 extra @ drop (?n + 12) bytes_out)) buf eb =
      (eb\<lparr>en_shared_key := ?k, en_nonce := ?nonce\<rparr>, plain @ drop ?n buf, True)" by (simp only: t)
  with e(1) show ?thesis by blast
qed

text \<open>For the example every secret is the same; the digest fills up to 32 bytes.\<close>

theorem direct_message_round_trip_witness:
  "\<exists>ea' out eb'. encrypt_curve25519 plain_cipher (\<lambda>bs. take 32 (bs @ replicate 32 0)) (\<lambda>a b. replicate 32 1) (replicate 32 3)
      7 99 5 [1, 2, 3] (replicate 20 0) (set_dh_private_key (replicate 32 2) engine_new) = (ea', out, True) \<and>
    decrypt_curve25519 plain_cipher (\<lambda>bs. take 32 (bs @ replicate 32 0)) (\<lambda>a b. replicate 32 1) 7 (replicate 32 3) 99
      (take 15 out) [0, 0, 0] (set_dh_private_key (replicate 32 4) engine_new) = (eb', [1, 2, 3], True)"
proof -
  have "digest32 (\<lambda>bs. take 32 (bs @ replicate 32 0))" "key_agreement (\<lambda>a b. replicate 32 1) (\<lambda>_. replicate 32 3)"
    by (auto simp: digest32_def key_agreement_def)
  then show ?thesis
    using direct_message_round_trip [OF plain_cipher_blocks, where ?sha256.0 = "\<lambda>bs. take 32 (bs @ replicate 32 0)" and
        dh = "\<lambda>a b. replicate 32 1" and pub = "\<lambda>_. replicate 32 3" and ea = "set_dh_private_key (replicate 32 2) engine_new" and
        eb = "set_dh_private_key (replicate 32 4) engine_new" and plain = "[1, 2, 3]" and bytes_out = "replicate 20 0" and
        buf = "[0, 0, 0]" and from_node = 7 and packet_num = 99 and extra = 5 and a = "replicate 32 2" and b = "replicate 32 4"]
    by (simp add: set_dh_private_key_def all_zero_def list_all_iff MAX_CCM_PAYLOAD_def)
qed

end
