(* ===== verification/FloatBits.thy ===== *)
theory FloatBits
  imports Wire Float32
begin

text \<open>
  The bit pattern of a single precision number, as \<open>f32::to_le_bytes\<close> and \<open>f32::from_le_bytes\<close> of the
  standard library use it: sign, eight bits of biased exponent, 23 bits of fraction. The model has
  one zero and one not-a-number, so the sign of zero and the payload of a not-a-number are not kept.
  The lemmas show that a positive representable number survives the way through its bits, and that
  every finite positive pattern is representable.
\<close>

definition f32_from_bits :: "u32 \<Rightarrow> f32" where
  "f32_from_bits w =
     (let n = unat w; e = n div 2 ^ 23 mod 256; m = n mod 2 ^ 23; negative = 2 ^ 31 \<le> n in
      if e = 255 then (if m \<noteq> 0 then NaN else if negative then NInf else PInf)
      else let v = (if e = 0 then of_nat m * 2 powi (- 149) else of_nat (2 ^ 23 + m) * 2 powi (int e - 150))
           in Fin (if negative then - v else v))"

definition f32_to_bits :: "f32 \<Rightarrow> u32" where
  "f32_to_bits x =
     (case x of NaN \<Rightarrow> 0x7FC00000 | PInf \<Rightarrow> 0x7F800000 | NInf \<Rightarrow> 0xFF800000
      | Fin a \<Rightarrow> if a = 0 then 0 else
          let u = ulp_exp \<bar>a\<bar>; m = \<lfloor>\<bar>a\<bar> / 2 powi u\<rfloor> in
          (if a < 0 then 2 ^ 31 else 0) + of_int ((u + 149) * 2 ^ 23 + m))"

text \<open>A positive number is an integer below \<open>2 ^ 24\<close> times its unit in the last place.\<close>

lemma mantissa:
  assumes "0 < a" "rnd a = a"
  obtains m where "of_int m * 2 powi ulp_exp a = a" "0 < m" "m < 2 ^ 24" "ulp_exp a = - 149 \<or> 2 ^ 23 \<le> m"
proof -
  define u where "u = ulp_exp a"
  define m where "m = rne (a / 2 powi u)"
  have a: "of_int m * 2 powi u = a" using assms by (simp add: rnd_def round_pos_def Let_def m_def u_def)
  have p: "0 < (2::rat) powi u" by simp
  have "0 < rat_of_int m" by (rule zero_less_mult_pos2 [OF _ p]) (simp only: a assms(1))
  then have pos: "0 < m" by simp
  have "a < 2 powi (ilog2 a + 1)" by (rule ilog2_bounds(2) [OF assms(1)])
  also have "\<dots> \<le> 2 powi (24 + u)" by (intro powi_mono) (simp add: ulp_exp_def u_def)
  finally have "of_int m * 2 powi u < (2 ^ 24) * (2 powi u :: rat)" unfolding a by (simp add: powi_split)
  then have "rat_of_int m < 2 ^ 24" using p by (simp only: mult_less_cancel_right_pos)
  then have less: "m < 2 ^ 24" by simp
  have "2 ^ 23 \<le> m" if "u \<noteq> - 149"
  proof -
    have u: "23 + u = ilog2 a" using that by (simp add: ulp_exp_def u_def max_def split: if_splits)
    have "(2::rat) ^ 23 * 2 powi u = 2 powi (23 + u)" by (simp add: powi_split)
    also have "\<dots> \<le> a" unfolding u by (rule ilog2_bounds(1) [OF assms(1)])
    finally have "2 ^ 23 * 2 powi u \<le> rat_of_int m * 2 powi u" unfolding a .
    then have "(2::rat) ^ 23 \<le> of_int m" using p by (simp only: mult_le_cancel_right_pos)
    then show ?thesis by simp
  qed
  then show ?thesis using that [of m] a pos less unfolding u_def by blast
qed

lemma ulp_exp_top: "0 < a \<Longrightarrow> a < 2 ^ 128 \<Longrightarrow> ulp_exp a \<le> 104"
proof (rule ccontr)
  assume "0 < a" "a < 2 ^ 128" "\<not> ulp_exp a \<le> 104"
  then have "(2::rat) powi 128 \<le> 2 powi (ilog2 a)" by (intro powi_mono) (auto simp: ulp_exp_def max_def split: if_splits)
  also have "\<dots> \<le> a" by (rule ilog2_bounds(1)) fact
  finally show False using \<open>a < 2 ^ 128\<close> by simp
qed

lemma ulp_exp_bottom: "- 149 \<le> ulp_exp a"
  by (simp add: ulp_exp_def)

lemma unat_of_small_int: "0 \<le> k \<Longrightarrow> k < 2 ^ 32 \<Longrightarrow> unat (of_int k :: u32) = nat k"
  using uint_word_of_int_eq [of k, where 'a = 32] take_bit_int_eq_self [of k 32] by (simp add: unat_eq_nat_uint)

lemma bits_round_trip:
  assumes "0 < a" "round32 a = Fin a"
  shows "f32_from_bits (f32_to_bits (Fin a)) = Fin a"
proof -
  have r: "rnd a = a" "a < 2 ^ 128" using assms by (auto simp: round32_def Let_def split: if_splits)
  obtain m where m: "of_int m * 2 powi ulp_exp a = a" "0 < m" "m < 2 ^ 24" "ulp_exp a = - 149 \<or> 2 ^ 23 \<le> m"
    using mantissa [OF assms(1) r(1)] .
  define u where "u = ulp_exp a"
  have u: "- 149 \<le> u" "u \<le> 104" using ulp_exp_top [OF assms(1) r(2)] ulp_exp_bottom [of a] by (simp_all add: u_def)
  have "a / 2 powi u = of_int m" unfolding m(1) [folded u_def, symmetric] by simp
  then have "\<lfloor>a / 2 powi u\<rfloor> = m" by simp
  then have bits: "f32_to_bits (Fin a) = of_int ((u + 149) * 2 ^ 23 + m)"
    using assms(1) by (simp add: f32_to_bits_def Let_def u_def)
  let ?k = "(u + 149) * 2 ^ 23 + m"
  have k: "0 \<le> ?k" "?k < 2 ^ 31" using u m(2,3) by simp_all
  have n: "unat (of_int ?k :: u32) = nat ?k"
    by (rule unat_of_small_int) (use k in simp_all)
  show ?thesis
  proof (cases "m < 2 ^ 23")
    case True
    then have "u = - 149" using m(4) by (simp add: u_def)
    then have k: "nat ?k = nat m" by simp
    have "nat m < 2 ^ 23" "a = of_nat (nat m) * 2 powi (- 149)"
      using True m(2) m(1) [folded u_def, symmetric] \<open>u = - 149\<close> by (simp_all add: nat_less_iff)
    then show ?thesis unfolding bits f32_from_bits_def Let_def n k by simp
  next
    case False
    define e where "e = nat (u + 150)"
    define f where "f = nat (m - 2 ^ 23)"
    have ef: "e \<noteq> 0" "e < 255" "f < 2 ^ 23" "u = int e - 150" "m = int (2 ^ 23 + f)"
      using u False m(3) by (simp_all add: e_def f_def)
    have "nat ?k = f + e * 2 ^ 23" using ef by (simp add: algebra_simps)
    moreover have "(f + e * 2 ^ 23) div 2 ^ 23 mod 256 = e" "(f + e * 2 ^ 23) mod 2 ^ 23 = f" "f + e * 2 ^ 23 < 2 ^ 31"
      using ef(2,3) by (simp_all add: div_mult_self1)
    moreover have "a = of_nat (2 ^ 23 + f) * 2 powi (int e - 150)"
      using m(1) [folded u_def, symmetric] unfolding ef(4,5) by simp
    ultimately show ?thesis using ef(1,2) unfolding bits f32_from_bits_def Let_def n by simp
  qed
qed

text \<open>Every pattern of a finite number stands for a representable one.\<close>

lemma scaled_representable:
  assumes "0 < m" "m < 2 ^ 24" "- 149 \<le> e"
  shows "rnd (of_int m * 2 powi e) = of_int m * 2 powi e"
proof -
  let ?a = "rat_of_int m * 2 powi e"
  have pos: "0 < ?a" using assms(1) by simp
  have "rat_of_int m < 2 ^ 24" using assms(2) by (metis of_int_less_iff of_int_numeral of_int_power)
  then have "?a < 2 powi (24 + e)" by (simp add: powi_split)
  then have "\<not> 24 + e \<le> ilog2 ?a" using powi_mono [of "24 + e" "ilog2 ?a"] ilog2_bounds(1) [OF pos] by linarith
  then have u: "ulp_exp ?a \<le> e" using assms(3) by (simp add: ulp_exp_def)
  define v where "v = ulp_exp ?a"
  define d where "d = nat (e - v)"
  have "e = int d + v" using u by (simp add: d_def v_def)
  then have split: "?a = of_int (m * 2 ^ d) * 2 powi v" by (simp add: powi_split)
  have q: "?a / 2 powi v = of_int (m * 2 ^ d)" unfolding split by (rule nonzero_mult_div_cancel_right) simp
  have "round_pos ?a = of_int (m * 2 ^ d) * 2 powi v"
    unfolding round_pos_def Let_def v_def [symmetric] q by (simp only: rne_of_int)
  also have "\<dots> = ?a" by (rule split [symmetric])
  finally show ?thesis using pos by (simp add: rnd_def)
qed

lemma from_bits_representable:
  assumes "f32_from_bits w = Fin a" "0 < a"
  shows "round32 a = Fin a"
proof -
  define e where "e = unat w div 2 ^ 23 mod 256"
  define m where "m = unat w mod 2 ^ 23"
  have m: "m < 2 ^ 23" and e: "e \<noteq> 255" "e < 256" using assms by (auto simp: m_def e_def f32_from_bits_def Let_def split: if_splits)
  obtain k i where a: "a = of_int k * 2 powi i" "0 < k" "k < 2 ^ 24" "- 149 \<le> i" "i \<le> 104"
  proof (cases "e = 0")
    case True
    have v: "a = of_nat m * 2 powi (- 149)"
      using assms True unfolding f32_from_bits_def Let_def m_def [symmetric] e_def [symmetric]
      by (auto split: if_splits simp: zero_less_mult_iff mult_less_0_iff)
    moreover have "m \<noteq> 0" using v assms(2) by (cases m) auto
    ultimately show ?thesis using that [of "int m" "- 149"] m by simp
  next
    case False
    define b where "b = rat_of_nat (2 ^ 23 + m) * 2 powi (int e - 150)"
    have "0 \<le> b" by (simp add: b_def)
    then have v: "a = b"
      using assms False e unfolding f32_from_bits_def Let_def m_def [symmetric] e_def [symmetric] b_def [symmetric]
      by (auto split: if_splits)
    show ?thesis
      by (rule that [of "int (2 ^ 23 + m)" "int e - 150"]) (use v b_def m e False in \<open>simp_all\<close>)
  qed
  have r: "rnd a = a" using scaled_representable [OF a(2,3,4)] a(1) by simp
  have "rat_of_int k < 2 ^ 24" using a(3) by (metis of_int_less_iff of_int_numeral of_int_power)
  then have "a < 2 ^ 24 * 2 powi i" using a(1) by simp
  also have "\<dots> = 2 powi (24 + i)" by (simp add: powi_split)
  also have "\<dots> \<le> 2 powi 128" using a(5) by (intro powi_mono) simp
  finally have "a < 2 ^ 128" by simp
  then show ?thesis using r assms(2) by (simp add: round32_def Let_def)
qed

end
