(* ===== verification/Store.thy ===== *)
theory Store
  imports FloatBits Crypto
begin

unbundle bit_operations_syntax

text \<open>
  The package \<open>mesh-store\<close>: the configuration of a node (\<open>config.rs\<close>), its record of 304 bytes with a
  checksum and the older layouts it is read from (\<open>layout.rs\<close>), and the store in memory
  (\<open>store_trait.rs\<close>). Arrays are lists, whose lengths are part of \<open>config_ok\<close>. The theorems show
  that a record decodes to the configuration it was made from, up to what the layout does not keep
  (\<open>stored\<close>), and that a configuration read from a record of any version is rewritten unchanged.
\<close>

section \<open>Configuration\<close>

definition ADMIN_KEY_SLOTS :: nat where "ADMIN_KEY_SLOTS = 3"
definition OWNER_SHORT_NAME_MAX :: nat where "OWNER_SHORT_NAME_MAX = 4"
definition OWNER_LONG_NAME_MAX :: nat where "OWNER_LONG_NAME_MAX = 39"

record lora_config =
  lc_region :: region_info
  lc_modem_preset :: u8
  lc_frequency_mhz :: f32
  lc_bandwidth_khz :: f32
  lc_spreading_factor :: u8
  lc_coding_rate :: u8
  lc_sync_word :: u8
  lc_hop_limit :: u8
  lc_tx_power_dbm :: u8
  lc_use_preset :: bool
  lc_ok_to_mqtt :: bool

definition effective_hop_limit :: "lora_config \<Rightarrow> u8" where
  "effective_hop_limit lora = min (lc_hop_limit lora) MAX_HOP_LIMIT"

definition apply_modem_preset :: "u8 \<Rightarrow> lora_config \<Rightarrow> lora_config" where
  "apply_modem_preset modem_preset lora =
     (let modem_preset = normalize_modem_preset modem_preset;
          params = modem_preset_params modem_preset False
      in lora\<lparr>lc_modem_preset := modem_preset, lc_use_preset := True, lc_region := EU_868,
              lc_frequency_mhz := EU_868_DEFAULT_FREQ_MHZ, lc_bandwidth_khz := mp_bandwidth_khz params,
              lc_spreading_factor := mp_spreading_factor params, lc_coding_rate := mp_coding_rate params,
              lc_sync_word := SYNC_WORD\<rparr>)"

definition lora_eu868_default :: lora_config where
  "lora_eu868_default = apply_modem_preset MODEM_DEFAULT_PRESET
     \<lparr>lc_region = EU_868, lc_modem_preset = MODEM_DEFAULT_PRESET,
      lc_frequency_mhz = EU_868_DEFAULT_FREQ_MHZ, lc_bandwidth_khz = Fin 250, lc_spreading_factor = 11,
      lc_coding_rate = 5, lc_sync_word = SYNC_WORD, lc_hop_limit = DEFAULT_HOP_LIMIT,
      lc_tx_power_dbm = MAX_TX_POWER_DBM, lc_use_preset = True, lc_ok_to_mqtt = True\<rparr>"

definition lora_eu868_short_slow :: lora_config where
  "lora_eu868_short_slow =
     \<lparr>lc_region = EU_868, lc_modem_preset = MODEM_SHORT_SLOW,
      lc_frequency_mhz = EU_868_DEFAULT_FREQ_MHZ, lc_bandwidth_khz = Fin 250, lc_spreading_factor = 8,
      lc_coding_rate = 5, lc_sync_word = SYNC_WORD, lc_hop_limit = DEFAULT_HOP_LIMIT,
      lc_tx_power_dbm = MAX_TX_POWER_DBM, lc_use_preset = True, lc_ok_to_mqtt = True\<rparr>"

record node_config =
  nc_node_num :: u32
  nc_private_key :: "u8 list"
  nc_public_key :: "u8 list"
  nc_channel_key :: crypto_key
  nc_lora :: lora_config
  nc_admin_public_keys :: "u8 list list"
  nc_device_update_interval_secs :: u32
  nc_device_role :: u8
  nc_position_broadcast_secs :: u32
  nc_fixed_position :: bool
  nc_latitude_i :: int
  nc_longitude_i :: int
  nc_has_fixed_coords :: bool
  nc_short_name :: "u8 list"
  nc_short_name_len :: u8
  nc_long_name :: "u8 list"
  nc_long_name_len :: u8

definition default_channel_key :: crypto_key where
  "default_channel_key = key_from_bytes DEFAULT_PSK"

definition first_boot :: "u32 \<Rightarrow> u8 list \<Rightarrow> u8 list \<Rightarrow> node_config" where
  "first_boot node_num private_key public_key =
     \<lparr>nc_node_num = node_num, nc_private_key = private_key, nc_public_key = public_key,
      nc_channel_key = default_channel_key, nc_lora = lora_eu868_default,
      nc_admin_public_keys = replicate ADMIN_KEY_SLOTS (replicate 32 0),
      nc_device_update_interval_secs = 0, nc_device_role = 0, nc_position_broadcast_secs = 0,
      nc_fixed_position = False, nc_latitude_i = 0, nc_longitude_i = 0, nc_has_fixed_coords = False,
      nc_short_name = replicate OWNER_SHORT_NAME_MAX 0, nc_short_name_len = 0,
      nc_long_name = replicate OWNER_LONG_NAME_MAX 0, nc_long_name_len = 0\<rparr>"

definition config_channel_hash :: "node_config \<Rightarrow> u8" where
  "config_channel_hash c =
     primary_channel_hash [] (lc_modem_preset (nc_lora c)) (lc_use_preset (nc_lora c))
       (take (key_len (nc_channel_key c)) (ck_bytes (nc_channel_key c)))"

section \<open>Record layout\<close>

definition STORE_MAGIC :: u32 where "STORE_MAGIC = 0x4D525354"
definition STORE_VERSION :: u32 where "STORE_VERSION = 5"
definition STORE_VERSION_V1 :: u32 where "STORE_VERSION_V1 = 1"
definition STORE_VERSION_V2 :: u32 where "STORE_VERSION_V2 = 2"
definition STORE_VERSION_V3 :: u32 where "STORE_VERSION_V3 = 3"
definition STORE_VERSION_V4 :: u32 where "STORE_VERSION_V4 = 4"
definition STORE_RECORD_LEN :: nat where "STORE_RECORD_LEN = 304"
definition STORE_RECORD_LEN_V4 :: nat where "STORE_RECORD_LEN_V4 = 256"
definition STORE_RECORD_LEN_V1 :: nat where "STORE_RECORD_LEN_V1 = 128"
definition STORE_SHORT_NAME_LEN_OFFSET :: nat where "STORE_SHORT_NAME_LEN_OFFSET = 238"
definition STORE_SHORT_NAME_OFFSET :: nat where "STORE_SHORT_NAME_OFFSET = 239"
definition STORE_LONG_NAME_LEN_OFFSET :: nat where "STORE_LONG_NAME_LEN_OFFSET = 243"
definition STORE_LONG_NAME_OFFSET :: nat where "STORE_LONG_NAME_OFFSET = 244"
definition STORE_CRC_OFFSET :: nat where "STORE_CRC_OFFSET = 300"
definition STORE_CRC_OFFSET_V4 :: nat where "STORE_CRC_OFFSET_V4 = 252"

datatype store_error = StoreTooShort | BadMagic | BadVersion | BadCrc | BadConfig

text \<open>\<open>out[i..i + n].copy_from_slice(bs)\<close>, \<open>&buf[a..b]\<close>, and the readers of numbers in a buffer.\<close>

definition put_at :: "nat \<Rightarrow> u8 list \<Rightarrow> u8 list \<Rightarrow> u8 list" where
  "put_at i bs out = take i out @ bs @ drop (i + length bs) out"

definition slice :: "nat \<Rightarrow> nat \<Rightarrow> u8 list \<Rightarrow> u8 list" where
  "slice a b buf = take (b - a) (drop a buf)"

definition le32 :: "u8 list \<Rightarrow> u32" where
  "le32 bs = from_le_bytes32 (bs ! 0) (bs ! 1) (bs ! 2) (bs ! 3)"

definition crc_shift :: "u32 \<Rightarrow> u32" where
  "crc_shift crc = (if crc AND 1 \<noteq> 0 then drop_bit 1 crc XOR 0xEDB88320 else drop_bit 1 crc)"

definition crc32 :: "u8 list \<Rightarrow> u32" where
  "crc32 data = NOT (fold (\<lambda>b crc. (crc_shift ^^ 8) (crc XOR ucast b)) data 0xFFFFFFFF)"

definition bandwidth_for_preset :: "u8 \<Rightarrow> f32" where
  "bandwidth_for_preset modem_preset = mp_bandwidth_khz (modem_preset_params modem_preset False)"

definition bad_frequency :: "f32 \<Rightarrow> bool" where
  "bad_frequency f \<longleftrightarrow> \<not> is_finite f \<or> f32_le f (Fin 0)"

definition encode_owner_names :: "node_config \<Rightarrow> u8 list \<Rightarrow> u8 list" where
  "encode_owner_names config out =
     (let short_len = min (unat (nc_short_name_len config)) OWNER_SHORT_NAME_MAX;
          out = put_at STORE_SHORT_NAME_LEN_OFFSET [of_nat short_len] out;
          out = put_at STORE_SHORT_NAME_OFFSET (take short_len (nc_short_name config)) out;
          long_len = min (unat (nc_long_name_len config)) OWNER_LONG_NAME_MAX;
          out = put_at STORE_LONG_NAME_LEN_OFFSET [of_nat long_len] out
      in put_at STORE_LONG_NAME_OFFSET (take long_len (nc_long_name config)) out)"

definition decode_owner_names :: "u8 list \<Rightarrow> u8 list \<times> u8 \<times> u8 list \<times> u8" where
  "decode_owner_names buf =
     (let short_raw = unat (buf ! STORE_SHORT_NAME_LEN_OFFSET);
          long_raw = unat (buf ! STORE_LONG_NAME_LEN_OFFSET);
          short_len = (if short_raw \<le> OWNER_SHORT_NAME_MAX then short_raw else 0);
          long_len = (if long_raw \<le> OWNER_LONG_NAME_MAX then long_raw else 0);
          short_name = put_at 0 (slice STORE_SHORT_NAME_OFFSET (STORE_SHORT_NAME_OFFSET + short_len) buf)
            (replicate OWNER_SHORT_NAME_MAX 0);
          long_name = put_at 0 (slice STORE_LONG_NAME_OFFSET (STORE_LONG_NAME_OFFSET + long_len) buf)
            (replicate OWNER_LONG_NAME_MAX 0)
      in (short_name, of_nat short_len, long_name, of_nat long_len))"

definition encode_body :: "node_config \<Rightarrow> u8 list \<Rightarrow> u8 list" where
  "encode_body config out =
     (let out = replicate (length out) 0;
          out = put_at 0 (to_le_bytes32 STORE_MAGIC) out;
          out = put_at 4 (to_le_bytes32 STORE_VERSION) out;
          out = put_at 8 (to_le_bytes32 (nc_node_num config)) out;
          out = put_at 12 (nc_private_key config) out;
          out = put_at 44 (nc_public_key config) out;
          klen = of_nat (key_len (nc_channel_key config)) :: u8;
          out = put_at 76 [klen] out;
          copy_len = min (min (unat klen) 32) (length (ck_bytes (nc_channel_key config)));
          out = put_at 77 (take copy_len (ck_bytes (nc_channel_key config))) out;
          lora = nc_lora config;
          out = put_at 109 [ri_code (lc_region lora)] out;
          out = put_at 110 [lc_modem_preset lora] out;
          out = put_at 111 (to_le_bytes32 (f32_to_bits (lc_frequency_mhz lora))) out;
          out = put_at 115 [lc_spreading_factor lora] out;
          out = put_at 116 [lc_coding_rate lora] out;
          out = put_at 117 [lc_sync_word lora] out;
          out = put_at 118 [lc_hop_limit lora] out;
          out = put_at 119 [lc_tx_power_dbm lora] out;
          out = put_at 120 [of_bool (lc_use_preset lora)] out;
          out = put_at 121 [of_bool (lc_ok_to_mqtt lora)] out;
          out = put_at 122 [nc_device_role config] out;
          out = fold (\<lambda>i. put_at (124 + i * 32) (nc_admin_public_keys config ! i)) [0..<ADMIN_KEY_SLOTS] out;
          out = put_at 220 (to_le_bytes32 (nc_device_update_interval_secs config)) out;
          out = put_at 224 (to_le_bytes32 (nc_position_broadcast_secs config)) out;
          out = put_at 228 [of_bool (nc_fixed_position config)] out;
          out = put_at 229 [of_bool (nc_has_fixed_coords config)] out;
          out = put_at 230 (to_le_bytes32 (word_of_int (nc_latitude_i config))) out;
          out = put_at 234 (to_le_bytes32 (word_of_int (nc_longitude_i config))) out
      in encode_owner_names config out)"

definition encode :: "node_config \<Rightarrow> u8 list \<Rightarrow> u8 list \<times> (store_error + nat)" where
  "encode config out =
     (if length out < STORE_RECORD_LEN then (out, Inl StoreTooShort)
      else if bad_frequency (lc_frequency_mhz (nc_lora config)) then (out, Inl BadConfig)
      else let out = encode_body config out;
               crc = crc32 (take STORE_CRC_OFFSET out)
           in (put_at STORE_CRC_OFFSET (to_le_bytes32 crc) out, Inr STORE_RECORD_LEN))"

definition decode_channel_key :: "u8 \<Rightarrow> u8 list \<Rightarrow> store_error + crypto_key" where
  "decode_channel_key klen bytes =
     (if klen = 0 then Inr key_none
      else if (klen = 16 \<or> klen = 32) \<and> unat klen \<le> length bytes then Inr (key_from_bytes (take (unat klen) bytes))
      else Inl BadConfig)"

definition parse_v2_body :: "u8 list \<Rightarrow> u32 \<Rightarrow> store_error + node_config" where
  "parse_v2_body buf version =
     (case decode_channel_key (buf ! 76) (slice 77 109 buf) of Inl e \<Rightarrow> Inl e | Inr channel_key \<Rightarrow>
        let frequency_mhz = f32_from_bits (le32 (slice 111 115 buf)) in
        if bad_frequency frequency_mhz then Inl BadConfig
        else
          let modem_preset = normalize_modem_preset (buf ! 110);
              lora = \<lparr>lc_region = EU_868, lc_modem_preset = modem_preset, lc_frequency_mhz = frequency_mhz,
                lc_bandwidth_khz = bandwidth_for_preset modem_preset, lc_spreading_factor = buf ! 115,
                lc_coding_rate = buf ! 116, lc_sync_word = buf ! 117, lc_hop_limit = buf ! 118,
                lc_tx_power_dbm = buf ! 119, lc_use_preset = (buf ! 120 \<noteq> 0),
                lc_ok_to_mqtt = (if STORE_VERSION_V4 \<le> version then buf ! 121 \<noteq> 0 else True)\<rparr>
          in Inr \<lparr>nc_node_num = le32 (slice 8 12 buf), nc_private_key = slice 12 44 buf,
               nc_public_key = slice 44 76 buf, nc_channel_key = channel_key, nc_lora = lora,
               nc_admin_public_keys = map (\<lambda>i. slice (124 + i * 32) (124 + i * 32 + 32) buf) [0..<ADMIN_KEY_SLOTS],
               nc_device_update_interval_secs = le32 (slice 220 224 buf), nc_device_role = buf ! 122,
               nc_position_broadcast_secs = le32 (slice 224 228 buf), nc_fixed_position = (buf ! 228 \<noteq> 0),
               nc_latitude_i = sint (le32 (slice 230 234 buf)), nc_longitude_i = sint (le32 (slice 234 238 buf)),
               nc_has_fixed_coords = (buf ! 229 \<noteq> 0),
               nc_short_name = replicate OWNER_SHORT_NAME_MAX 0, nc_short_name_len = 0,
               nc_long_name = replicate OWNER_LONG_NAME_MAX 0, nc_long_name_len = 0\<rparr>)"

definition decode_v1 :: "u8 list \<Rightarrow> store_error + node_config" where
  "decode_v1 buf =
     (if length buf < STORE_RECORD_LEN_V1 then Inl StoreTooShort
      else if le32 (slice 124 128 buf) \<noteq> crc32 (take 124 buf) then Inl BadCrc
      else if buf ! 76 = 32 then Inl BadConfig
      else case decode_channel_key (buf ! 76) (slice 77 96 buf) of Inl e \<Rightarrow> Inl e | Inr channel_key \<Rightarrow>
        let frequency_mhz = f32_from_bits (le32 (slice 98 102 buf));
            modem_preset = normalize_modem_preset (buf ! 97) in
        if bad_frequency frequency_mhz then Inl BadConfig
        else
          let lora = \<lparr>lc_region = EU_868, lc_modem_preset = modem_preset, lc_frequency_mhz = frequency_mhz,
                lc_bandwidth_khz = bandwidth_for_preset modem_preset, lc_spreading_factor = buf ! 102,
                lc_coding_rate = buf ! 103, lc_sync_word = buf ! 104, lc_hop_limit = buf ! 105,
                lc_tx_power_dbm = buf ! 106, lc_use_preset = True, lc_ok_to_mqtt = True\<rparr>
          in Inr \<lparr>nc_node_num = le32 (slice 8 12 buf), nc_private_key = slice 12 44 buf,
               nc_public_key = slice 44 76 buf, nc_channel_key = channel_key, nc_lora = lora,
               nc_admin_public_keys = replicate ADMIN_KEY_SLOTS (replicate 32 0),
               nc_device_update_interval_secs = 0, nc_device_role = 0, nc_position_broadcast_secs = 0,
               nc_fixed_position = False, nc_latitude_i = 0, nc_longitude_i = 0, nc_has_fixed_coords = False,
               nc_short_name = replicate OWNER_SHORT_NAME_MAX 0, nc_short_name_len = 0,
               nc_long_name = replicate OWNER_LONG_NAME_MAX 0, nc_long_name_len = 0\<rparr>)"

definition decode_v2_to_v4 :: "u8 list \<Rightarrow> u32 \<Rightarrow> store_error + node_config" where
  "decode_v2_to_v4 buf version =
     (if length buf < STORE_RECORD_LEN_V4 then Inl StoreTooShort
      else if le32 (slice STORE_CRC_OFFSET_V4 STORE_RECORD_LEN_V4 buf) \<noteq> crc32 (take STORE_CRC_OFFSET_V4 buf) then Inl BadCrc
      else parse_v2_body buf version)"

definition decode_v5 :: "u8 list \<Rightarrow> store_error + node_config" where
  "decode_v5 buf =
     (if length buf < STORE_RECORD_LEN then Inl StoreTooShort
      else if le32 (slice STORE_CRC_OFFSET STORE_RECORD_LEN buf) \<noteq> crc32 (take STORE_CRC_OFFSET buf) then Inl BadCrc
      else case parse_v2_body buf STORE_VERSION_V4 of Inl e \<Rightarrow> Inl e | Inr cfg \<Rightarrow>
        (case decode_owner_names buf of (short_name, short_name_len, long_name, long_name_len) \<Rightarrow>
           Inr (cfg\<lparr>nc_short_name := short_name, nc_short_name_len := short_name_len,
                    nc_long_name := long_name, nc_long_name_len := long_name_len\<rparr>)))"

definition decode :: "u8 list \<Rightarrow> store_error + node_config" where
  "decode buf =
     (if length buf < STORE_RECORD_LEN_V1 then Inl StoreTooShort
      else if le32 (slice 0 4 buf) \<noteq> STORE_MAGIC then Inl BadMagic
      else let version = le32 (slice 4 8 buf) in
        if version = STORE_VERSION_V1 then decode_v1 buf
        else if version \<in> {STORE_VERSION_V2, STORE_VERSION_V3, STORE_VERSION_V4} then decode_v2_to_v4 buf version
        else if version = STORE_VERSION then decode_v5 buf
        else Inl BadVersion)"

section \<open>Store in memory\<close>

record ram_store =
  rs_buf :: "u8 list"
  rs_valid :: bool
  rs_defaults :: node_config

definition ram_new :: "node_config \<Rightarrow> ram_store" where
  "ram_new defaults = \<lparr>rs_buf = replicate STORE_RECORD_LEN 0, rs_valid = False, rs_defaults = defaults\<rparr>"

definition ram_from_bytes :: "node_config \<Rightarrow> u8 list \<Rightarrow> ram_store" where
  "ram_from_bytes defaults bytes =
     (let store = ram_new defaults; len = min (length bytes) STORE_RECORD_LEN
      in store\<lparr>rs_buf := put_at 0 (take len bytes) (rs_buf store), rs_valid := True\<rparr>)"

definition ram_load :: "ram_store \<Rightarrow> node_config" where
  "ram_load s =
     (if \<not> rs_valid s then rs_defaults s
      else case decode (rs_buf s) of Inr cfg \<Rightarrow> cfg | Inl _ \<Rightarrow> rs_defaults s)"

definition ram_save :: "node_config \<Rightarrow> ram_store \<Rightarrow> (store_error + unit) \<times> ram_store" where
  "ram_save config s =
     (case encode config (rs_buf s) of
        (buf, Inl e) \<Rightarrow> (Inl e, s\<lparr>rs_buf := buf\<rparr>)
      | (buf, Inr _) \<Rightarrow> (Inr (), s\<lparr>rs_buf := buf, rs_valid := True\<rparr>))"

section \<open>Records\<close>

lemmas store_sizes = ADMIN_KEY_SLOTS_def OWNER_SHORT_NAME_MAX_def OWNER_LONG_NAME_MAX_def STORE_RECORD_LEN_def
  STORE_RECORD_LEN_V4_def STORE_RECORD_LEN_V1_def STORE_CRC_OFFSET_def STORE_CRC_OFFSET_V4_def
  STORE_SHORT_NAME_LEN_OFFSET_def STORE_SHORT_NAME_OFFSET_def STORE_LONG_NAME_LEN_OFFSET_def STORE_LONG_NAME_OFFSET_def
lemmas store_versions = STORE_VERSION_def STORE_VERSION_V1_def STORE_VERSION_V2_def STORE_VERSION_V3_def STORE_VERSION_V4_def

definition f32_ok :: "f32 \<Rightarrow> bool" where
  "f32_ok x \<longleftrightarrow> (case x of Fin a \<Rightarrow> round32 a = Fin a | _ \<Rightarrow> True)"

definition config_ok :: "node_config \<Rightarrow> bool" where
  "config_ok c \<longleftrightarrow>
     length (nc_private_key c) = 32 \<and> length (nc_public_key c) = 32 \<and>
     length (ck_bytes (nc_channel_key c)) = 32 \<and> ck_length (nc_channel_key c) \<in> {0, 16, 32} \<and>
     length (nc_admin_public_keys c) = 3 \<and> list_all (\<lambda>k. length k = 32) (nc_admin_public_keys c) \<and>
     nc_latitude_i c \<in> {- (2 ^ 31)..<2 ^ 31} \<and> nc_longitude_i c \<in> {- (2 ^ 31)..<2 ^ 31} \<and>
     length (nc_short_name c) = 4 \<and> length (nc_long_name c) = 39 \<and> f32_ok (lc_frequency_mhz (nc_lora c))"

text \<open>What is left of a configuration after it was stored.\<close>

definition stored_name :: "nat \<Rightarrow> u8 list \<Rightarrow> u8 \<Rightarrow> u8 list" where
  "stored_name room name len = take (min (unat len) room) name @ replicate (room - min (unat len) room) 0"

definition stored :: "node_config \<Rightarrow> node_config" where
  "stored c =
     (let preset = normalize_modem_preset (lc_modem_preset (nc_lora c)) in
      c\<lparr>nc_channel_key := key_from_bytes (take (key_len (nc_channel_key c)) (ck_bytes (nc_channel_key c))),
        nc_lora := (nc_lora c)\<lparr>lc_region := EU_868, lc_modem_preset := preset,
          lc_bandwidth_khz := bandwidth_for_preset preset\<rparr>,
        nc_short_name := stored_name 4 (nc_short_name c) (nc_short_name_len c),
        nc_short_name_len := min (nc_short_name_len c) 4,
        nc_long_name := stored_name 39 (nc_long_name c) (nc_long_name_len c),
        nc_long_name_len := min (nc_long_name_len c) 39\<rparr>)"

lemma length_put_at [simp]: "i + length bs \<le> length out \<Longrightarrow> length (put_at i bs out) = length out"
  by (simp add: put_at_def)

lemma nth_put_at:
  "i + length bs \<le> length out \<Longrightarrow> j < length out \<Longrightarrow>
   put_at i bs out ! j = (if i \<le> j \<and> j < i + length bs then bs ! (j - i) else out ! j)"
  by (auto simp: put_at_def nth_append)

lemma length_slice [simp]: "length (slice a b buf) = min (b - a) (length buf - a)"
  by (auto simp: slice_def)

lemma nth_slice: "j < b - a \<Longrightarrow> a + j < length buf \<Longrightarrow> slice a b buf ! j = buf ! (a + j)"
  by (simp add: slice_def)

lemma slice_put_at:
  "i + length bs \<le> length out \<Longrightarrow> b \<le> i \<or> i + length bs \<le> a \<Longrightarrow> slice a b (put_at i bs out) = slice a b out"
  by (rule nth_equalityI) (auto simp: nth_slice nth_put_at)

lemma slice_put_at_same:
  "i + length bs \<le> length out \<Longrightarrow> b = i + length bs \<Longrightarrow> slice i b (put_at i bs out) = bs"
  by (rule nth_equalityI) (auto simp: nth_slice nth_put_at)

lemma take_slice: "take n buf = slice 0 n buf"
  by (simp add: slice_def)

lemma le32_to_le_bytes32 [simp]: "le32 (to_le_bytes32 w) = w"
  by (simp add: le32_def to_le_bytes32_def from_to_le_bytes32)

text \<open>Writing fields at ascending offsets: each can be read back.\<close>

definition puts :: "(nat \<times> u8 list) list \<Rightarrow> u8 list \<Rightarrow> u8 list" where
  "puts fs out = fold (\<lambda>(i, bs). put_at i bs) fs out"

fun ascending :: "nat \<Rightarrow> (nat \<times> u8 list) list \<Rightarrow> nat \<Rightarrow> bool" where
  "ascending a [] n \<longleftrightarrow> a \<le> n"
| "ascending a ((i, bs) # fs) n \<longleftrightarrow> a \<le> i \<and> ascending (i + length bs) fs n"

lemma ascending_le: "ascending a fs n \<Longrightarrow> a \<le> n"
  by (induction a fs n rule: ascending.induct) auto

lemma puts_length: "ascending a fs (length out) \<Longrightarrow> length (puts fs out) = length out"
proof (induction fs arbitrary: a out)
  case (Cons p fs)
  obtain i bs where p: "p = (i, bs)" by (cases p)
  have "i + length bs \<le> length out" using Cons.prems ascending_le p by auto
  then show ?case using Cons.IH [of "i + length bs" "put_at i bs out"] Cons.prems p by (simp add: puts_def)
qed (simp add: puts_def)

lemma puts_before: "ascending a fs (length out) \<Longrightarrow> b \<le> a \<Longrightarrow> slice c b (puts fs out) = slice c b out"
proof (induction fs arbitrary: a out)
  case (Cons p fs)
  obtain i bs where p: "p = (i, bs)" by (cases p)
  have "i + length bs \<le> length out" using Cons.prems ascending_le p by auto
  then show ?case
    using Cons.IH [of "i + length bs" "put_at i bs out"] Cons.prems p by (simp add: puts_def slice_put_at)
qed (simp add: puts_def)

lemma puts_field:
  "ascending a fs (length out) \<Longrightarrow> (i, bs) \<in> set fs \<Longrightarrow> slice i (i + length bs) (puts fs out) = bs"
proof (induction fs arbitrary: a out)
  case (Cons p fs)
  obtain j cs where p: "p = (j, cs)" by (cases p)
  let ?out = "put_at j cs out"
  have fit: "j + length cs \<le> length out" using Cons.prems ascending_le p by auto
  then have asc: "ascending (j + length cs) fs (length ?out)" using Cons.prems p by simp
  show ?case
  proof (cases "(i, bs) \<in> set fs")
    case True
    then show ?thesis using Cons.IH [OF asc] p by (simp add: puts_def)
  next
    case False
    then have "i = j" "bs = cs" using Cons.prems p by auto
    then show ?thesis using puts_before [OF asc] fit p by (simp add: puts_def slice_put_at_same)
  qed
qed (simp add: puts_def)

lemma slice_single: "slice i (Suc i) buf = [b] \<Longrightarrow> buf ! i = b"
  using nth_slice [of 0 "Suc i" i buf] length_slice [of i "Suc i" buf] by simp

lemma puts_byte: "ascending a fs (length out) \<Longrightarrow> (i, [b]) \<in> set fs \<Longrightarrow> puts fs out ! i = b"
  using puts_field [of a fs out i "[b]"] by (simp add: slice_single)

definition config_fields :: "node_config \<Rightarrow> (nat \<times> u8 list) list" where
  "config_fields c =
     (let lora = nc_lora c; k = nc_channel_key c;
          s = min (unat (nc_short_name_len c)) 4; l = min (unat (nc_long_name_len c)) 39 in
      [(0, to_le_bytes32 STORE_MAGIC), (4, to_le_bytes32 STORE_VERSION), (8, to_le_bytes32 (nc_node_num c)),
       (12, nc_private_key c), (44, nc_public_key c), (76, [of_nat (key_len k)]), (77, take (key_len k) (ck_bytes k)),
       (109, [ri_code (lc_region lora)]), (110, [lc_modem_preset lora]),
       (111, to_le_bytes32 (f32_to_bits (lc_frequency_mhz lora))), (115, [lc_spreading_factor lora]),
       (116, [lc_coding_rate lora]), (117, [lc_sync_word lora]), (118, [lc_hop_limit lora]),
       (119, [lc_tx_power_dbm lora]), (120, [of_bool (lc_use_preset lora)]), (121, [of_bool (lc_ok_to_mqtt lora)]),
       (122, [nc_device_role c]), (124, nc_admin_public_keys c ! 0), (156, nc_admin_public_keys c ! 1),
       (188, nc_admin_public_keys c ! 2), (220, to_le_bytes32 (nc_device_update_interval_secs c)),
       (224, to_le_bytes32 (nc_position_broadcast_secs c)), (228, [of_bool (nc_fixed_position c)]),
       (229, [of_bool (nc_has_fixed_coords c)]), (230, to_le_bytes32 (word_of_int (nc_latitude_i c))),
       (234, to_le_bytes32 (word_of_int (nc_longitude_i c))), (238, [of_nat s]), (239, take s (nc_short_name c)),
       (243, [of_nat l]), (244, take l (nc_long_name c))])"

lemma config_ok_key:
  assumes "config_ok c"
  shows "key_len (nc_channel_key c) \<in> {0, 16, 32}" "unat (of_nat (key_len (nc_channel_key c)) :: u8) = key_len (nc_channel_key c)"
  using assms by (auto simp: config_ok_def key_len_def)

lemma encode_body_puts:
  assumes "config_ok c"
  shows "encode_body c out = puts (config_fields c) (replicate (length out) 0)"
proof -
  have "min (min (key_len (nc_channel_key c)) 32) (length (ck_bytes (nc_channel_key c))) = key_len (nc_channel_key c)"
    using config_ok_key(1) [OF assms] assms by (auto simp: config_ok_def)
  moreover have "[0..<3] = [0, 1, 2::nat]" by (simp add: upt_rec)
  ultimately show ?thesis
    by (simp only: encode_body_def encode_owner_names_def config_fields_def Let_def puts_def store_sizes
        config_ok_key(2) [OF assms] fold.simps prod.case o_apply id_apply) simp
qed

lemma config_fields_ascending:
  assumes "config_ok c" "304 \<le> n"
  shows "ascending 0 (config_fields c) n"
  using assms config_ok_key(1) [OF assms(1)]
  by (simp add: config_fields_def Let_def config_ok_def list_all_length)

lemma encode_ok:
  assumes "config_ok c" "304 \<le> length out" "\<not> bad_frequency (lc_frequency_mhz (nc_lora c))"
  shows "encode c out = (puts (config_fields c @ [(300, to_le_bytes32 (crc32 (take 300 (encode_body c out))))]) (replicate (length out) 0),
      Inr 304)"
    "ascending 0 (config_fields c @ [(300, to_le_bytes32 w)]) (length out)"
proof -
  have asc: "ascending 0 (config_fields c) (length out)" by (rule config_fields_ascending [OF assms(1,2)])
  show "encode c out = (puts (config_fields c @ [(300, to_le_bytes32 (crc32 (take 300 (encode_body c out))))]) (replicate (length out) 0),
      Inr 304)"
    using assms(2,3) by (simp add: encode_def encode_body_puts [OF assms(1)] store_sizes Let_def puts_def)
  show "ascending 0 (config_fields c @ [(300, to_le_bytes32 w)]) (length out)"
    using assms config_ok_key(1) [OF assms(1)] by (simp add: config_fields_def Let_def config_ok_def list_all_length)
qed

lemma f32_bits_ok:
  assumes "f32_ok f" "\<not> bad_frequency f"
  shows "f32_from_bits (f32_to_bits f) = f"
  using assms bits_round_trip by (cases f) (auto simp: f32_ok_def bad_frequency_def is_finite_def f32_le_def)

lemma unat_min_u8: "unat (min (n :: u8) m) = min (unat n) (unat m)"
  by (simp add: min_def word_le_nat_alt)

lemma encoded_fields:
  assumes "config_ok c" "304 \<le> length out" "\<not> bad_frequency (lc_frequency_mhz (nc_lora c))" "buf = fst (encode c out)"
  shows "length buf = length out" "le32 (slice 300 304 buf) = crc32 (take 300 buf)"
    "list_all (\<lambda>(i, bs). slice i (i + length bs) buf = bs) (config_fields c)"
proof -
  define w where "w = crc32 (take 300 (encode_body c out))"
  define fs where "fs = config_fields c @ [(300, to_le_bytes32 w)]"
  let ?z = "replicate (length out) (0::u8)"
  have buf: "buf = puts fs ?z" using encode_ok(1) [OF assms(1-3)] assms(4) by (simp add: fs_def w_def)
  have asc: "ascending 0 fs (length ?z)" using encode_ok(2) [OF assms(1-3)] by (simp add: fs_def)
  have asc': "ascending 0 (config_fields c) (length ?z)" using config_fields_ascending [OF assms(1,2)] by simp
  show len: "length buf = length out" using puts_length [OF asc] buf by simp
  note field = puts_field [OF asc, folded buf]
  have "buf = put_at 300 (to_le_bytes32 w) (encode_body c out)"
    by (simp add: buf fs_def puts_def encode_body_puts [OF assms(1)])
  then have "take 300 buf = take 300 (encode_body c out)"
    using assms(2) puts_length [OF asc'] by (simp add: take_slice encode_body_puts [OF assms(1)] slice_put_at)
  moreover have "slice 300 (300 + length (to_le_bytes32 w)) buf = to_le_bytes32 w" by (rule field) (simp add: fs_def)
  ultimately show "le32 (slice 300 304 buf) = crc32 (take 300 buf)" by (simp add: w_def)
  show "list_all (\<lambda>(i, bs). slice i (i + length bs) buf = bs) (config_fields c)"
    by (auto simp: list_all_iff fs_def intro!: field)
qed

lemma encoded_owner_names:
  assumes "config_ok c" "304 \<le> length buf" "list_all (\<lambda>(i, bs). slice i (i + length bs) buf = bs) (config_fields c)"
  shows "decode_owner_names buf = (stored_name 4 (nc_short_name c) (nc_short_name_len c), min (nc_short_name_len c) 4,
    stored_name 39 (nc_long_name c) (nc_long_name_len c), min (nc_long_name_len c) 39)"
proof -
  let ?s = "min (unat (nc_short_name_len c)) 4" and ?l = "min (unat (nc_long_name_len c)) 39"
  have lens: "length (take ?s (nc_short_name c)) = ?s" "length (take ?l (nc_long_name c)) = ?l"
    using assms(1) by (auto simp: config_ok_def)
  have f: "slice i (i + length bs) buf = bs" if "(i, bs) \<in> set (config_fields c)" for i bs
    using assms(3) that by (auto simp: list_all_iff)
  have "slice 239 (239 + ?s) buf = take ?s (nc_short_name c)" "slice 244 (244 + ?l) buf = take ?l (nc_long_name c)"
    using f [of 239 "take ?s (nc_short_name c)"] f [of 244 "take ?l (nc_long_name c)"] lens by (simp_all add: config_fields_def Let_def)
  moreover have "buf ! 238 = of_nat ?s" "buf ! 243 = of_nat ?l"
    using f [of 238 "[of_nat ?s]"] f [of 243 "[of_nat ?l]"]
    by (auto intro!: slice_single simp: config_fields_def Let_def simp del: of_nat_min)
  moreover have "(of_nat ?s :: u8) = min (nc_short_name_len c) 4" "(of_nat ?l :: u8) = min (nc_long_name_len c) 39"
    by (auto simp: min_def word_le_nat_alt)
  ultimately show ?thesis
    using lens assms(2)
    by (simp add: decode_owner_names_def store_sizes Let_def stored_name_def put_at_def unat_min_u8 del: of_nat_min)
qed

lemma encoded_body:
  assumes "config_ok c" "304 \<le> length buf" "list_all (\<lambda>(i, bs). slice i (i + length bs) buf = bs) (config_fields c)"
    "\<not> bad_frequency (lc_frequency_mhz (nc_lora c))"
  shows "parse_v2_body buf STORE_VERSION_V4 = Inr ((stored c)\<lparr>nc_short_name := replicate 4 0, nc_short_name_len := 0,
    nc_long_name := replicate 39 0, nc_long_name_len := 0\<rparr>)"
proof -
  have lens: "length (nc_private_key c) = 32" "length (nc_public_key c) = 32" "length (nc_admin_public_keys c ! 0) = 32"
    "length (nc_admin_public_keys c ! 1) = 32" "length (nc_admin_public_keys c ! 2) = 32"
    using assms(1) by (auto simp: config_ok_def list_all_length)
  have f: "slice i (i + length bs) buf = bs" if "(i, bs) \<in> set (config_fields c)" for i bs
    using assms(3) that by (auto simp: list_all_iff)
  have b: "buf ! i = b" if "(i, [b]) \<in> set (config_fields c)" for i b
    using f [OF that] by (simp add: slice_single)
  let ?k = "nc_channel_key c"
  have words: "slice 8 12 buf = to_le_bytes32 (nc_node_num c)"
    "slice 111 115 buf = to_le_bytes32 (f32_to_bits (lc_frequency_mhz (nc_lora c)))"
    "slice 220 224 buf = to_le_bytes32 (nc_device_update_interval_secs c)"
    "slice 224 228 buf = to_le_bytes32 (nc_position_broadcast_secs c)"
    "slice 230 234 buf = to_le_bytes32 (word_of_int (nc_latitude_i c))"
    "slice 234 238 buf = to_le_bytes32 (word_of_int (nc_longitude_i c))"
    using f [of 8 "to_le_bytes32 (nc_node_num c)"] f [of 111 "to_le_bytes32 (f32_to_bits (lc_frequency_mhz (nc_lora c)))"]
      f [of 220 "to_le_bytes32 (nc_device_update_interval_secs c)"] f [of 224 "to_le_bytes32 (nc_position_broadcast_secs c)"]
      f [of 230 "to_le_bytes32 (word_of_int (nc_latitude_i c))"] f [of 234 "to_le_bytes32 (word_of_int (nc_longitude_i c))"]
    by (simp_all add: config_fields_def Let_def)
  have keys: "slice 12 44 buf = nc_private_key c" "slice 44 76 buf = nc_public_key c"
    "slice 124 156 buf = nc_admin_public_keys c ! 0" "slice 156 188 buf = nc_admin_public_keys c ! 1"
    "slice 188 220 buf = nc_admin_public_keys c ! 2"
    using f [of 12 "nc_private_key c"] f [of 44 "nc_public_key c"] f [of 124 "nc_admin_public_keys c ! 0"]
      f [of 156 "nc_admin_public_keys c ! 1"] f [of 188 "nc_admin_public_keys c ! 2"] lens
    by (simp_all add: config_fields_def Let_def)
  have key: "decode_channel_key (buf ! 76) (slice 77 109 buf) = Inr (nc_channel_key (stored c))"
  proof -
    let ?n = "key_len ?k"
    have n: "?n \<in> {0, 16, 32}" "length (take ?n (ck_bytes ?k)) = ?n"
      using config_ok_key(1) [OF assms(1)] assms(1) by (auto simp: config_ok_def)
    have "slice 77 (77 + ?n) buf = take ?n (ck_bytes ?k)"
      using f [of 77 "take ?n (ck_bytes ?k)"] n(2) by (simp add: config_fields_def Let_def)
    then have "take ?n (slice 77 109 buf) = take ?n (ck_bytes ?k)" using n(1) by (auto simp: slice_def min_def)
    moreover have "buf ! 76 = of_nat ?n" by (rule b) (simp add: config_fields_def Let_def)
    moreover have "length (ck_bytes ?k) = 32" using assms(1) by (simp add: config_ok_def)
    ultimately show ?thesis using n(1) assms(2) by (auto simp: decode_channel_key_def stored_def Let_def key_from_bytes_def)
  qed
  have bytes: "buf ! 110 = lc_modem_preset (nc_lora c)" "buf ! 115 = lc_spreading_factor (nc_lora c)"
    "buf ! 116 = lc_coding_rate (nc_lora c)" "buf ! 117 = lc_sync_word (nc_lora c)" "buf ! 118 = lc_hop_limit (nc_lora c)"
    "buf ! 119 = lc_tx_power_dbm (nc_lora c)" "buf ! 120 = of_bool (lc_use_preset (nc_lora c))"
    "buf ! 121 = of_bool (lc_ok_to_mqtt (nc_lora c))" "buf ! 122 = nc_device_role c"
    "buf ! 228 = of_bool (nc_fixed_position c)" "buf ! 229 = of_bool (nc_has_fixed_coords c)"
    by (rule b, simp add: config_fields_def Let_def)+
  have coords: "sint (word_of_int (nc_latitude_i c) :: u32) = nc_latitude_i c" "sint (word_of_int (nc_longitude_i c) :: u32) = nc_longitude_i c"
    using assms(1) by (simp_all add: config_ok_def sint_sbintrunc' signed_take_bit_int_eq_self)
  have admin: "nc_admin_public_keys c = [nc_admin_public_keys c ! 0, nc_admin_public_keys c ! 1, nc_admin_public_keys c ! 2]"
    using assms(1) by (simp add: config_ok_def list_eq_iff_nth_eq less_Suc_eq numeral_eq_Suc)
  have freq: "f32_from_bits (f32_to_bits (lc_frequency_mhz (nc_lora c))) = lc_frequency_mhz (nc_lora c)"
    using assms(1,4) by (intro f32_bits_ok) (simp_all add: config_ok_def)
  have slots: "map (\<lambda>i. slice (124 + i * 32) (156 + i * 32) buf) [0..<3] = nc_admin_public_keys c"
    by (subst admin) (simp add: upt_rec keys)
  show ?thesis
    using assms(4)
    by (simp add: parse_v2_body_def key words keys bytes freq coords slots store_sizes store_versions Let_def)
      (intro node_config.equality lora_config.equality; simp add: stored_def Let_def)
qed

lemma encode_decode:
  assumes "config_ok c" "304 \<le> length out" "\<not> bad_frequency (lc_frequency_mhz (nc_lora c))"
  shows "decode (fst (encode c out)) = Inr (stored c)"
proof -
  define buf where "buf = fst (encode c out)"
  note f = encoded_fields [OF assms buf_def]
  have len: "304 \<le> length buf" using f(1) assms(2) by simp
  have field: "slice i (i + length bs) buf = bs" if "(i, bs) \<in> set (config_fields c)" for i bs
    using f(3) that by (auto simp: list_all_iff)
  have "slice 0 4 buf = to_le_bytes32 STORE_MAGIC" "slice 4 8 buf = to_le_bytes32 STORE_VERSION"
    using field [of 0 "to_le_bytes32 STORE_MAGIC"] field [of 4 "to_le_bytes32 STORE_VERSION"]
    by (simp_all add: config_fields_def Let_def)
  then have "decode buf = decode_v5 buf"
    using len by (simp add: decode_def store_sizes Let_def) (simp add: store_versions)
  also have "\<dots> = Inr (stored c)"
    using len f(2) encoded_body [OF assms(1) len f(3) assms(3)] encoded_owner_names [OF assms(1) len f(3)]
    by (simp add: decode_v5_def store_sizes) (simp add: stored_def Let_def)
  finally show ?thesis by (simp add: buf_def)
qed

text \<open>A configuration that can be stored and that storing does not change.\<close>

definition settled :: "node_config \<Rightarrow> bool" where
  "settled c \<longleftrightarrow> config_ok c \<and> \<not> bad_frequency (lc_frequency_mhz (nc_lora c)) \<and> stored c = c"

lemma decode_channel_key_ok:
  assumes "decode_channel_key n bs = Inr k"
  shows "length (ck_bytes k) = 32" "ck_length k \<in> {0, 16, 32}" "key_from_bytes (take (key_len k) (ck_bytes k)) = k"
  using assms by (auto simp: decode_channel_key_def key_none_def key_from_bytes_def key_len_def Let_def split: if_splits)

lemma normalize_twice: "normalize_modem_preset (normalize_modem_preset p) = normalize_modem_preset p"
  by (auto simp: normalize_modem_preset_def is_valid_modem_preset_def MODEM_DEFAULT_PRESET_def)

lemma from_bits_ok: "\<not> bad_frequency (f32_from_bits w) \<Longrightarrow> f32_ok (f32_from_bits w)"
  using from_bits_representable [of w]
  by (cases "f32_from_bits w") (auto simp: f32_ok_def bad_frequency_def f32_le_def is_finite_def)

lemma stored_empty_name [simp]: "stored_name n (replicate n 0) 0 = replicate n 0"
  by (simp add: stored_name_def)

lemma sint_u32_range: "sint (w :: u32) \<in> {- (2 ^ 31)..<2 ^ 31}"
  using sint_ge [of w] sint_lt [of w] by simp

lemma parse_v2_settled:
  assumes "parse_v2_body buf v = Inr c" "238 \<le> length buf"
  shows "settled c"
proof -
  obtain k where k: "decode_channel_key (buf ! 76) (slice 77 109 buf) = Inr k"
    using assms(1) by (auto simp: parse_v2_body_def split: sum.splits)
  then show ?thesis
    using assms decode_channel_key_ok [OF k] sint_u32_range
    by (auto simp: parse_v2_body_def settled_def config_ok_def stored_def Let_def store_sizes
        normalize_twice from_bits_ok list_all_iff split: if_splits)
qed

lemma decode_v1_settled:
  assumes "decode_v1 buf = Inr c"
  shows "settled c"
proof -
  obtain k where k: "decode_channel_key (buf ! 76) (slice 77 96 buf) = Inr k"
    using assms by (auto simp: decode_v1_def split: sum.splits if_splits)
  then show ?thesis
    using assms decode_channel_key_ok [OF k]
    by (auto simp: decode_v1_def settled_def config_ok_def stored_def Let_def store_sizes
        normalize_twice from_bits_ok list_all_iff split: if_splits)
qed

lemma stored_name_twice:
  "length bs = unat n \<Longrightarrow> unat n \<le> r \<Longrightarrow> stored_name r (bs @ replicate (r - unat n) 0) n = bs @ replicate (r - unat n) 0"
  by (simp add: stored_name_def)

lemma settled_names:
  assumes "settled c" "length s = 4" "length l = 39" "stored_name 4 s n = s" "stored_name 39 l m = l" "n \<le> 4" "m \<le> 39"
  shows "settled (c\<lparr>nc_short_name := s, nc_short_name_len := n, nc_long_name := l, nc_long_name_len := m\<rparr>)"
proof -
  have c: "stored c = c" using assms(1) by (simp add: settled_def)
  from arg_cong [OF c, of nc_channel_key] arg_cong [OF c, of nc_lora]
  show ?thesis using assms by (simp add: settled_def config_ok_def stored_def Let_def min_absorb1)
qed

lemma decode_v5_settled:
  assumes "decode_v5 buf = Inr c"
  shows "settled c"
proof -
  have len: "304 \<le> length buf" using assms by (auto simp: decode_v5_def store_sizes split: if_splits)
  obtain b where b: "parse_v2_body buf STORE_VERSION_V4 = Inr b"
    using assms by (auto simp: decode_v5_def split: if_splits sum.splits)
  define n where "n = (if unat (buf ! 238) \<le> 4 then buf ! 238 else 0)"
  define m where "m = (if unat (buf ! 243) \<le> 39 then buf ! 243 else 0)"
  define s where "s = slice 239 (239 + unat n) buf @ replicate (4 - unat n) 0"
  define l where "l = slice 244 (244 + unat m) buf @ replicate (39 - unat m) 0"
  have nm: "unat n \<le> 4" "unat m \<le> 39" by (simp_all add: n_def m_def)
  have "decode_owner_names buf = (s, n, l, m)"
    using nm len by (auto simp: decode_owner_names_def store_sizes Let_def put_at_def n_def m_def s_def l_def)
  then have c: "c = b\<lparr>nc_short_name := s, nc_short_name_len := n, nc_long_name := l, nc_long_name_len := m\<rparr>"
    using assms b by (simp add: decode_v5_def split: if_splits)
  show ?thesis unfolding c
    by (rule settled_names [OF parse_v2_settled [OF b]])
      (use nm len in \<open>simp_all add: s_def l_def stored_name_twice word_le_nat_alt\<close>)
qed

lemma decode_settled: "decode buf = Inr c \<Longrightarrow> settled c"
  using decode_v1_settled [of buf c] decode_v5_settled [of buf c]
  by (auto simp: decode_def decode_v2_to_v4_def store_sizes Let_def split: if_splits intro: parse_v2_settled)

lemma encode_result: "\<not> bad_frequency (lc_frequency_mhz (nc_lora c)) \<Longrightarrow> 304 \<le> length out \<Longrightarrow> snd (encode c out) = Inr 304"
  by (simp add: encode_def store_sizes Let_def)

lemma default_frequency: "EU_868_DEFAULT_FREQ_MHZ = Fin (7123149 / 8192)"
proof -
  have "(7123149 / 8192 :: rat) = of_int 14246298 * 2 powi (- 14)" by (simp add: power_int_def divide_simps)
  moreover have "rnd (869525 / 1000) = of_int (rne ((869525 / 1000) / 2 powi (9 - 23))) * 2 powi (9 - 23)"
    by (rule rnd_eval) (simp_all add: power_int_def)
  moreover have "rne ((869525 / 1000) / 2 powi (9 - 23)) = 14246298"
    by (rule rne_eval) (simp_all add: power_int_def power_one_over)
  ultimately have "rnd (869525 / 1000) = 7123149 / 8192" by simp
  then show ?thesis by (simp add: EU_868_DEFAULT_FREQ_MHZ_def round32_def Let_def)
qed

lemma first_boot_settled:
  assumes "length private_key = 32" "length public_key = 32"
  shows "settled (first_boot n private_key public_key)"
proof -
  have "rnd (of_int 7123149 * 2 powi (- 13)) = of_int 7123149 * 2 powi (- 13)"
    by (rule scaled_representable) simp_all
  then have "round32 (7123149 / 8192) = Fin (7123149 / 8192)" by (simp add: round32_def Let_def power_int_def divide_simps)
  then have freq: "f32_ok EU_868_DEFAULT_FREQ_MHZ" "\<not> bad_frequency EU_868_DEFAULT_FREQ_MHZ"
    by (simp_all add: default_frequency f32_ok_def bad_frequency_def is_finite_def f32_le_def)
  have key: "length (ck_bytes default_channel_key) = 32" "ck_length default_channel_key = 16"
    "key_from_bytes (take (key_len default_channel_key) (ck_bytes default_channel_key)) = default_channel_key"
    by (simp_all add: default_channel_key_def DEFAULT_PSK_def key_from_bytes_def key_none_def key_len_def)
  show ?thesis
    using assms freq key by (simp add: settled_def config_ok_def stored_def first_boot_def lora_eu868_default_def
        apply_modem_preset_def normalize_twice bandwidth_for_preset_def store_sizes list_all_iff Let_def)
qed

text \<open>
  C40. Storing a configuration. A configuration whose frequency is a positive finite number is
  encoded in every buffer that is long enough and decodes to itself, up to what the layout does not
  keep (\<open>stored\<close>: names cut to their room and padded with zeros, the region and the bandwidth
  recomputed, an invalid modem preset replaced by the default). A configuration decoded from a
  record of any version, the three older layouts included, is encoded again and decodes to exactly
  the same configuration.
\<close>

theorem stored_config_round_trip:
  assumes "304 \<le> length out"
  shows "(config_ok c \<and> \<not> bad_frequency (lc_frequency_mhz (nc_lora c)) \<longrightarrow>
      snd (encode c out) = Inr STORE_RECORD_LEN \<and> decode (fst (encode c out)) = Inr (stored c)) \<and>
    (decode buf = Inr d \<longrightarrow> snd (encode d out) = Inr STORE_RECORD_LEN \<and> decode (fst (encode d out)) = Inr d)"
proof -
  have "decode (fst (encode d out)) = Inr d \<and> snd (encode d out) = Inr STORE_RECORD_LEN" if "decode buf = Inr d"
    using decode_settled [OF that] encode_decode [OF _ assms] encode_result [OF _ assms] by (auto simp: settled_def store_sizes)
  then show ?thesis using encode_decode [OF _ assms] encode_result [OF _ assms] by (auto simp: store_sizes)
qed

theorem stored_config_round_trip_witness:
  "decode (fst (encode (first_boot 7 (replicate 32 1) (replicate 32 2)) (replicate 304 0))) =
     Inr (first_boot 7 (replicate 32 1) (replicate 32 2))"
  using stored_config_round_trip [of "replicate 304 0" "first_boot 7 (replicate 32 1) (replicate 32 2)"]
    first_boot_settled [of "replicate 32 1" "replicate 32 2" 7]
  by (simp add: settled_def)

end
