(* ===== verification/Journal.thy ===== *)
theory Journal
  imports Store
begin

text \<open>
  The two-page journal that replaces a configuration without losing the previous one (\<open>journal.rs\<close>)
  and the store on the flash of the board (\<open>store.rs\<close>). The flash device is a parameter, the record
  of its three operations; what is assumed of it is \<open>flash_laws\<close>. The theorem shows that a save is
  atomic, whichever operation of the device fails.
\<close>

section \<open>Journal\<close>

definition JOURNAL_MAGIC :: u32 where "JOURNAL_MAGIC = 0x4d524a31"
definition RECORD_LEN :: nat where "RECORD_LEN = STORE_RECORD_LEN + 12"
definition RECORD_LEN_V4 :: nat where "RECORD_LEN_V4 = STORE_RECORD_LEN_V4 + 12"

record 'f config_flash =
  fl_read :: "u32 \<Rightarrow> nat \<Rightarrow> 'f \<Rightarrow> (store_error + u8 list) \<times> 'f"
  fl_erase_page :: "u32 \<Rightarrow> 'f \<Rightarrow> (store_error + unit) \<times> 'f"
  fl_write :: "u32 \<Rightarrow> u8 list \<Rightarrow> 'f \<Rightarrow> (store_error + unit) \<times> 'f"

record 'f config_journal =
  cj_flash :: 'f
  cj_pages :: "u32 list"

definition journal_new :: "'f \<Rightarrow> u32 \<Rightarrow> u32 \<Rightarrow> 'f config_journal option" where
  "journal_new flash spare_page legacy_page =
     (if spare_page = legacy_page then None else Some \<lparr>cj_flash = flash, cj_pages = [spare_page, legacy_page]\<rparr>)"

definition decoded :: "u8 list \<Rightarrow> node_config option" where
  "decoded buf = (case decode buf of Inl _ \<Rightarrow> None | Inr cfg \<Rightarrow> Some cfg)"

definition parse_record :: "u8 list \<Rightarrow> (u32 \<times> node_config) option" where
  "parse_record bytes =
     (if le32 (slice 0 4 bytes) \<noteq> JOURNAL_MAGIC then
        (case decoded (take STORE_RECORD_LEN bytes) of Some cfg \<Rightarrow> Some (0, cfg)
         | None \<Rightarrow> map_option (Pair 0) (decoded (take STORE_RECORD_LEN_V4 bytes)))
      else if le32 (slice (RECORD_LEN - 4) RECORD_LEN bytes) = crc32 (take (RECORD_LEN - 4) bytes) then
        map_option (Pair (le32 (slice 4 8 bytes))) (decoded (slice 8 (8 + STORE_RECORD_LEN) bytes))
      else if le32 (slice (RECORD_LEN_V4 - 4) RECORD_LEN_V4 bytes) \<noteq> crc32 (take (RECORD_LEN_V4 - 4) bytes) then None
      else map_option (Pair (le32 (slice 4 8 bytes))) (decoded (slice 8 (8 + STORE_RECORD_LEN_V4) bytes)))"

definition journal_record ::
  "'f config_flash \<Rightarrow> nat \<Rightarrow> 'f config_journal \<Rightarrow> (store_error + (u32 \<times> node_config) option) \<times> 'f config_journal" where
  "journal_record fl page j =
     (case fl_read fl (cj_pages j ! page) RECORD_LEN (cj_flash j) of
        (Inl e, f) \<Rightarrow> (Inl e, j\<lparr>cj_flash := f\<rparr>)
      | (Inr bytes, f) \<Rightarrow> (Inr (parse_record bytes), j\<lparr>cj_flash := f\<rparr>))"

definition newer :: "(u32 \<times> node_config) option \<Rightarrow> (u32 \<times> node_config) option \<Rightarrow> (nat \<times> u32 \<times> node_config) option" where
  "newer first second =
     (case (first, second) of
        (Some (a, cfg_a), Some (b, cfg_b)) \<Rightarrow> if b - a < 0x80000000 then Some (1, b, cfg_b) else Some (0, a, cfg_a)
      | (Some (generation, cfg), None) \<Rightarrow> Some (0, generation, cfg)
      | (None, Some (generation, cfg)) \<Rightarrow> Some (1, generation, cfg)
      | (None, None) \<Rightarrow> None)"

definition journal_latest ::
  "'f config_flash \<Rightarrow> 'f config_journal \<Rightarrow> (store_error + (nat \<times> u32 \<times> node_config) option) \<times> 'f config_journal" where
  "journal_latest fl j =
     (case journal_record fl 0 j of (Inl e, j) \<Rightarrow> (Inl e, j) | (Inr first, j) \<Rightarrow>
       (case journal_record fl 1 j of (Inl e, j) \<Rightarrow> (Inl e, j) | (Inr second, j) \<Rightarrow> (Inr (newer first second), j)))"

definition journal_load ::
  "'f config_flash \<Rightarrow> 'f config_journal \<Rightarrow> (store_error + node_config option) \<times> 'f config_journal" where
  "journal_load fl j =
     (case journal_latest fl j of (Inl e, j) \<Rightarrow> (Inl e, j)
      | (Inr found, j) \<Rightarrow> (Inr (map_option (\<lambda>(_, _, cfg). cfg) found), j))"

definition next_place :: "(nat \<times> u32 \<times> node_config) option \<Rightarrow> nat \<times> u32" where
  "next_place found = (case found of Some (page, generation, _) \<Rightarrow> (1 - page, generation + 1) | None \<Rightarrow> (0, 1))"

text \<open>The bytes of a journal record, or the error of \<open>encode\<close>.\<close>

definition record_bytes :: "u32 \<Rightarrow> node_config \<Rightarrow> store_error + u8 list" where
  "record_bytes generation config =
     (let bytes = replicate RECORD_LEN 0;
          bytes = put_at 0 (to_le_bytes32 JOURNAL_MAGIC) bytes;
          bytes = put_at 4 (to_le_bytes32 generation) bytes
      in case encode config (slice 8 (8 + STORE_RECORD_LEN) bytes) of
           (_, Inl e) \<Rightarrow> Inl e
         | (payload, Inr _) \<Rightarrow>
             let bytes = put_at 8 payload bytes;
                 checksum = crc32 (take (RECORD_LEN - 4) bytes)
             in Inr (put_at (RECORD_LEN - 4) (to_le_bytes32 checksum) bytes))"

definition journal_save ::
  "'f config_flash \<Rightarrow> node_config \<Rightarrow> 'f config_journal \<Rightarrow> (store_error + unit) \<times> 'f config_journal" where
  "journal_save fl config j =
     (case journal_latest fl j of (Inl e, j) \<Rightarrow> (Inl e, j) | (Inr found, j) \<Rightarrow>
        (case next_place found of (page, generation) \<Rightarrow>
          (case record_bytes generation config of Inl e \<Rightarrow> (Inl e, j) | Inr bytes \<Rightarrow>
            (case fl_erase_page fl (cj_pages j ! page) (cj_flash j) of (Inl e, f) \<Rightarrow> (Inl e, j\<lparr>cj_flash := f\<rparr>) | (Inr _, f) \<Rightarrow>
              (case fl_write fl (cj_pages j ! page) bytes f of (Inl e, f) \<Rightarrow> (Inl e, j\<lparr>cj_flash := f\<rparr>) | (Inr _, f) \<Rightarrow>
                (case decode (slice 8 (8 + STORE_RECORD_LEN) bytes) of Inl e \<Rightarrow> (Inl e, j\<lparr>cj_flash := f\<rparr>) | Inr expected \<Rightarrow>
                  (case journal_record fl page (j\<lparr>cj_flash := f\<rparr>) of (Inl e, j) \<Rightarrow> (Inl e, j) | (Inr again, j) \<Rightarrow>
                    if map_option snd again \<noteq> Some expected then (Inl BadCrc, j) else (Inr (), j))))))))"

section \<open>Store on flash\<close>

datatype config_load_source = FromFlash | FromDefaults

definition CONFIG_FLASH_PAGE_SIZE :: u32 where "CONFIG_FLASH_PAGE_SIZE = 4096"

text \<open>
  The controller of the board's flash comes from another package: its three operations are
  parameters, and \<open>NvmcFlash\<close> maps every error of theirs to \<open>BadCrc\<close>.
\<close>

definition as_bad_crc :: "('e + 'a) \<times> 'f \<Rightarrow> (store_error + 'a) \<times> 'f" where
  "as_bad_crc r = (case r of (Inl _, f) \<Rightarrow> (Inl BadCrc, f) | (Inr x, f) \<Rightarrow> (Inr x, f))"

definition nvmc_flash ::
  "(u32 \<Rightarrow> nat \<Rightarrow> 'f \<Rightarrow> ('e + u8 list) \<times> 'f) \<Rightarrow> (u32 \<Rightarrow> u32 \<Rightarrow> 'f \<Rightarrow> ('e + unit) \<times> 'f) \<Rightarrow>
   (u32 \<Rightarrow> u8 list \<Rightarrow> 'f \<Rightarrow> ('e + unit) \<times> 'f) \<Rightarrow> 'f config_flash" where
  "nvmc_flash rd er wr =
     \<lparr>fl_read = (\<lambda>address n f. as_bad_crc (rd address n f)),
      fl_erase_page = (\<lambda>address f. as_bad_crc (er address (address + CONFIG_FLASH_PAGE_SIZE) f)),
      fl_write = (\<lambda>address bytes f. as_bad_crc (wr address bytes f))\<rparr>"

text \<open>The address of the last page depends on the bootloader the firmware is built for.\<close>

definition nvmc_store_new :: "u32 \<Rightarrow> 'f \<Rightarrow> 'f config_journal option" where
  "nvmc_store_new config_flash_addr nvmc = journal_new nvmc (config_flash_addr - CONFIG_FLASH_PAGE_SIZE) config_flash_addr"

definition load_with_source ::
  "'f config_flash \<Rightarrow> node_config \<Rightarrow> 'f config_journal \<Rightarrow> (node_config \<times> config_load_source) \<times> 'f config_journal" where
  "load_with_source fl defaults j =
     (case journal_load fl j of
        (Inr (Some cfg), j) \<Rightarrow> ((cfg, FromFlash), j)
      | (_, j) \<Rightarrow> ((defaults, FromDefaults), j))"

section \<open>A save is atomic\<close>

text \<open>
  What is assumed of the device. The pages the journal uses can be read at any time and hold 4096
  bytes each (\<open>view\<close>). Erasing a page sets it to ones; when it fails, the page may hold anything.
  Writing to an erased page stores the bytes; when it fails, at whatever
  point, a proper prefix of them has been stored. The other page is never touched.
\<close>

definition page_image :: "u8 list \<Rightarrow> nat \<Rightarrow> u8 list" where
  "page_image bytes n = take n bytes @ replicate (4096 - n) 255"

definition erase_effect :: "(nat \<Rightarrow> u8 list) \<Rightarrow> nat \<Rightarrow> store_error + unit \<Rightarrow> (nat \<Rightarrow> u8 list) \<Rightarrow> bool" where
  "erase_effect v i r v' \<longleftrightarrow>
     (case r of Inr _ \<Rightarrow> v' = v(i := replicate 4096 255)
      | Inl _ \<Rightarrow> (\<exists>X. v' = v(i := X)))"

definition write_effect :: "(nat \<Rightarrow> u8 list) \<Rightarrow> nat \<Rightarrow> u8 list \<Rightarrow> store_error + unit \<Rightarrow> (nat \<Rightarrow> u8 list) \<Rightarrow> bool" where
  "write_effect v i bytes r v' \<longleftrightarrow>
     (case r of Inr _ \<Rightarrow> v' = v(i := page_image bytes (length bytes))
      | Inl _ \<Rightarrow> (\<exists>n < length bytes. v' = v(i := page_image bytes n)))"

definition flash_laws :: "'f config_flash \<Rightarrow> ('f \<Rightarrow> nat \<Rightarrow> u8 list) \<Rightarrow> u32 list \<Rightarrow> bool" where
  "flash_laws fl view pages \<longleftrightarrow>
     length pages = 2 \<and>
     (\<forall>f i n. i < 2 \<longrightarrow> n \<le> 4096 \<longrightarrow>
        (\<exists>f'. fl_read fl (pages ! i) n f = (Inr (take n (view f i)), f') \<and> view f' = view f)) \<and>
     (\<forall>f i. i < 2 \<longrightarrow>
        (\<exists>r f'. fl_erase_page fl (pages ! i) f = (r, f') \<and> erase_effect (view f) i r (view f'))) \<and>
     (\<forall>f i bytes. i < 2 \<longrightarrow> length bytes \<le> 4096 \<longrightarrow> view f i = replicate 4096 255 \<longrightarrow>
        (\<exists>r f'. fl_write fl (pages ! i) bytes f = (r, f') \<and> write_effect (view f) i bytes r (view f')))"

text \<open>The bytes a reader finds on a page where only the first \<open>n\<close> bytes of a record were written.\<close>

definition torn :: "u8 list \<Rightarrow> nat \<Rightarrow> u8 list" where
  "torn bytes n = take n bytes @ replicate (RECORD_LEN - n) 255"

text \<open>
  The accident that no checksum excludes: the checksums of the record and of the configuration in
  it both agree although the last bytes are missing.
\<close>

definition checksum_accident :: "u8 list \<Rightarrow> nat \<Rightarrow> bool" where
  "checksum_accident bytes n \<longleftrightarrow>
     (let x = torn bytes n; payload = slice 8 312 x in
      16 \<le> n \<and> n < 312 \<and> crc32 (take 312 x) = 0xFFFFFFFF \<and> crc32 (take 300 payload) = le32 (slice 300 304 payload))"

lemmas journal_sizes = RECORD_LEN_def RECORD_LEN_V4_def STORE_RECORD_LEN_def STORE_RECORD_LEN_V4_def

lemma slice_slice: "b \<le> d - c \<Longrightarrow> slice a b (slice c d xs) = slice (c + a) (c + b) xs"
  by (simp add: slice_def drop_take take_take add.commute)

lemma slice_take: "b \<le> n \<Longrightarrow> slice a b (take n xs) = slice a b xs"
  by (simp add: slice_def drop_take)

lemma record_bytes_fields:
  assumes "config_ok c" "\<not> bad_frequency (lc_frequency_mhz (nc_lora c))"
  obtains bytes where "record_bytes g c = Inr bytes" "length bytes = 316"
    "slice 0 4 bytes = to_le_bytes32 JOURNAL_MAGIC" "slice 4 8 bytes = to_le_bytes32 g"
    "slice 8 312 bytes = fst (encode c (replicate 304 0))" "le32 (slice 312 316 bytes) = crc32 (take 312 bytes)"
proof -
  define z where "z = put_at 4 (to_le_bytes32 g) (put_at 0 (to_le_bytes32 JOURNAL_MAGIC) (replicate 316 (0::u8)))"
  have z: "length z = 316" "slice 0 4 z = to_le_bytes32 JOURNAL_MAGIC" "slice 4 8 z = to_le_bytes32 g" "slice 8 312 z = replicate 304 0"
    by (simp_all add: z_def slice_put_at slice_put_at_same) (simp add: slice_def)
  define p where "p = fst (encode c (replicate 304 0))"
  have p: "length p = 304" "encode c (replicate 304 0) = (p, Inr 304)"
    using encoded_fields(1) [OF assms(1) _ assms(2) p_def] encode_result [OF assms(2), of "replicate 304 0"]
    by (simp_all add: p_def prod_eq_iff)
  define y where "y = put_at 8 p z"
  have y: "length y = 316" "slice 0 4 y = to_le_bytes32 JOURNAL_MAGIC" "slice 4 8 y = to_le_bytes32 g" "slice 8 312 y = p"
    using z p(1) by (simp_all add: y_def slice_put_at slice_put_at_same)
  define b where "b = put_at 312 (to_le_bytes32 (crc32 (take 312 y))) y"
  have "record_bytes g c = Inr b"
    using z(4) p by (simp add: record_bytes_def journal_sizes Let_def z_def [symmetric] y_def [symmetric] b_def)
  moreover have "length b = 316" "slice 0 4 b = to_le_bytes32 JOURNAL_MAGIC" "slice 4 8 b = to_le_bytes32 g" "slice 8 312 b = p"
    "slice 312 316 b = to_le_bytes32 (crc32 (take 312 y))" "take 312 b = take 312 y"
    using y by (simp_all add: b_def slice_put_at slice_put_at_same take_slice)
  ultimately show ?thesis using that [of b] by (simp add: p_def)
qed

lemma parse_record_whole:
  assumes "config_ok c" "\<not> bad_frequency (lc_frequency_mhz (nc_lora c))" "record_bytes g c = Inr bytes"
  shows "length bytes = 316" "parse_record bytes = Some (g, stored c)" "decode (slice 8 312 bytes) = Inr (stored c)"
proof -
  obtain b where b: "record_bytes g c = Inr b" "length b = 316"
    "slice 0 4 b = to_le_bytes32 JOURNAL_MAGIC" "slice 4 8 b = to_le_bytes32 g"
    "slice 8 312 b = fst (encode c (replicate 304 0))" "le32 (slice 312 316 b) = crc32 (take 312 b)"
    using record_bytes_fields [OF assms(1,2)] .
  have eq: "bytes = b" using assms(3) b(1) by simp
  have d: "decode (slice 8 312 b) = Inr (stored c)"
    using encode_decode [OF assms(1) _ assms(2), of "replicate 304 0"] b(5) by simp
  show "length bytes = 316" "parse_record bytes = Some (g, stored c)" "decode (slice 8 312 bytes) = Inr (stored c)"
    using b d by (simp_all add: eq parse_record_def journal_sizes decoded_def)
qed

text \<open>A page that ends early in a number with a known last byte holds another number.\<close>

lemma le32_last: "length bs = 4 \<Longrightarrow> to_le_bytes32 (le32 bs) = bs"
  by (cases bs rule: list.exhaust; auto simp: le32_def to_from_le_bytes32 length_Suc_conv numeral_eq_Suc)

lemma le32_ones: "bs ! 3 = 255 \<Longrightarrow> drop_bit 24 (le32 bs) = 255"
  by (rule bit_word_eqI) (auto simp: le32_def from_le_bytes32_def bit_simps dest: bit_imp_le_length)

lemma decode_needs_magic: "drop_bit 24 (le32 (slice 0 4 bs)) = 255 \<Longrightarrow> decoded bs = None"
  by (auto simp: decoded_def decode_def STORE_MAGIC_def)

lemma decode_needs_version:
  "drop_bit 24 (le32 (slice 4 8 bs)) = 255 \<Longrightarrow> decoded bs = None"
  by (auto simp: decoded_def decode_def store_versions Let_def)

lemma decode_v5_whole:
  assumes "le32 (slice 4 8 bs) = STORE_VERSION" "decoded bs = Some c"
  shows "304 \<le> length bs" "le32 (slice 300 304 bs) = crc32 (take 300 bs)"
  using assms by (auto simp: decoded_def decode_def decode_v5_def store_sizes store_versions Let_def split: if_splits sum.splits)

lemma nth_torn: "i < 316 \<Longrightarrow> length bytes = 316 \<Longrightarrow> torn bytes n ! i = (if i < n then bytes ! i else 255)"
  by (auto simp: torn_def nth_append journal_sizes)

lemma length_torn: "length bytes = 316 \<Longrightarrow> n \<le> 316 \<Longrightarrow> length (torn bytes n) = 316"
  by (simp add: torn_def journal_sizes)

lemma slice_torn: "length bytes = 316 \<Longrightarrow> n \<le> 316 \<Longrightarrow> b \<le> n \<Longrightarrow> slice a b (torn bytes n) = slice a b bytes"
  by (rule nth_equalityI) (auto simp: length_torn nth_slice nth_torn)

lemma slice_torn_last:
  "length bytes = 316 \<Longrightarrow> n \<le> i + 3 \<Longrightarrow> i + 4 \<le> 316 \<Longrightarrow> drop_bit 24 (le32 (slice i (i + 4) (torn bytes n))) = 255"
  by (rule le32_ones) (simp add: length_torn nth_slice nth_torn)

text \<open>With fewer than 16 bytes the magic numbers or the version are not complete.\<close>

lemma torn_early:
  assumes "length bytes = 316" "slice 0 4 bytes = to_le_bytes32 JOURNAL_MAGIC" "n < 16"
  shows "parse_record (torn bytes n) = None"
proof (cases "n < 4")
  case True
  then have top: "drop_bit 24 (le32 (slice 0 4 (torn bytes n))) = 255" using slice_torn_last [OF assms(1), of n 0] by simp
  then have "le32 (slice 0 4 (torn bytes n)) \<noteq> JOURNAL_MAGIC" by (auto simp: JOURNAL_MAGIC_def)
  moreover have "decoded (take k (torn bytes n)) = None" if "4 \<le> k" for k
    by (rule decode_needs_magic) (simp add: slice_take that top)
  ultimately show ?thesis by (simp add: parse_record_def journal_sizes)
next
  case False
  have magic: "le32 (slice 0 4 (torn bytes n)) = JOURNAL_MAGIC" using False assms by (simp add: slice_torn)
  have "decoded (slice 8 k (torn bytes n)) = None" if "16 \<le> k" for k
  proof (cases "n < 12")
    case True
    show ?thesis
      by (rule decode_needs_magic) (use slice_torn_last [OF assms(1), of n 8] True that in \<open>simp add: slice_slice\<close>)
  next
    case False
    show ?thesis
      by (rule decode_needs_version) (use slice_torn_last [OF assms(1), of n 12] assms(3) that in \<open>simp add: slice_slice\<close>)
  qed
  then show ?thesis by (simp add: parse_record_def magic journal_sizes)
qed

lemma parse_record_torn:
  assumes "config_ok c" "\<not> bad_frequency (lc_frequency_mhz (nc_lora c))" "record_bytes g c = Inr bytes" "n < 316"
    "parse_record (torn bytes n) \<noteq> None"
  shows "torn bytes n = bytes \<or> checksum_accident bytes n"
proof -
  obtain b where b: "record_bytes g c = Inr b" "length b = 316"
    "slice 0 4 b = to_le_bytes32 JOURNAL_MAGIC" "slice 4 8 b = to_le_bytes32 g"
    "slice 8 312 b = fst (encode c (replicate 304 0))" "le32 (slice 312 316 b) = crc32 (take 312 b)"
    using record_bytes_fields [OF assms(1,2)] .
  have eq: "bytes = b" using assms(3) b(1) by simp
  let ?x = "torn b n"
  have n: "16 \<le> n" using torn_early [OF b(2,3), of n] assms(5) eq by force
  have magic: "le32 (slice 0 4 ?x) = JOURNAL_MAGIC" using n assms(4) b by (simp add: slice_torn)
  have "list_all (\<lambda>(i, bs). slice i (i + length bs) (slice 8 312 b) = bs) (config_fields c)"
    using encoded_fields(3) [OF assms(1) _ assms(2) b(5)] by simp
  then have "slice 12 16 b = to_le_bytes32 STORE_VERSION" by (simp add: config_fields_def Let_def slice_slice)
  then have version: "slice 12 16 ?x = to_le_bytes32 STORE_VERSION" using n assms(4) b(2) by (simp add: slice_torn)
  have old: "decoded (slice 8 264 ?x) = None"
    using decode_v5_whole(1) [of "slice 8 264 ?x"] version by (cases "decoded (slice 8 264 ?x)") (auto simp: slice_slice)
  have outer: "le32 (slice 312 316 ?x) = crc32 (take 312 ?x)" "decoded (slice 8 312 ?x) \<noteq> None"
    using assms(5) magic old by (auto simp: eq parse_record_def journal_sizes split: if_splits)
  show ?thesis
  proof (cases "n < 312")
    case True
    obtain d where "decoded (slice 8 312 ?x) = Some d" using outer(2) by blast
    then have "le32 (slice 300 304 (slice 8 312 ?x)) = crc32 (take 300 (slice 8 312 ?x))"
      using decode_v5_whole(2) [of "slice 8 312 ?x" d] version by (simp add: slice_slice)
    moreover have "slice 312 316 ?x = replicate 4 255"
      by (rule nth_equalityI) (use True b(2) assms(4) in \<open>auto simp: length_torn nth_slice nth_torn\<close>)
    then have "le32 (slice 312 316 ?x) = 0xFFFFFFFF" by (simp add: le32_def from_le_bytes32_def)
    ultimately show ?thesis using n True outer(1) by (simp add: eq checksum_accident_def Let_def)
  next
    case False
    then have t: "take 312 ?x = take 312 b" using slice_torn [OF b(2), of n 312 0] assms(4) by (simp add: take_slice)
    then have "le32 (slice 312 316 ?x) = le32 (slice 312 316 b)" using outer(1) b(6) by simp
    moreover have lx: "length (slice 312 316 ?x) = 4" and lb: "length (slice 312 316 b) = 4"
      using b(2) assms(4) by (simp_all add: length_torn)
    ultimately have "slice 312 316 ?x = slice 312 316 b"
      using le32_last [OF lx] le32_last [OF lb] by metis
    then have "drop 312 ?x = drop 312 b" using b(2) assms(4) by (simp add: slice_def length_torn)
    then show ?thesis using t eq by (metis append_take_drop_id)
  qed
qed

text \<open>The operations of the journal over a device that follows the laws.\<close>

definition on_page :: "('f \<Rightarrow> nat \<Rightarrow> u8 list) \<Rightarrow> 'f \<Rightarrow> nat \<Rightarrow> (u32 \<times> node_config) option" where
  "on_page view f i = parse_record (take RECORD_LEN (view f i))"

lemma journal_record_laws:
  assumes "flash_laws fl view (cj_pages j)" "i < 2"
  obtains f' where "journal_record fl i j = (Inr (on_page view (cj_flash j) i), j\<lparr>cj_flash := f'\<rparr>)" "view f' = view (cj_flash j)"
proof -
  have "RECORD_LEN \<le> 4096" by (simp add: journal_sizes)
  then obtain f' where "fl_read fl (cj_pages j ! i) RECORD_LEN (cj_flash j) = (Inr (take RECORD_LEN (view (cj_flash j) i)), f')"
    "view f' = view (cj_flash j)" using assms by (auto simp: flash_laws_def) blast
  then show ?thesis using that [of f'] by (simp add: journal_record_def on_page_def)
qed

lemma journal_latest_laws:
  assumes "flash_laws fl view (cj_pages j)"
  obtains f' where "journal_latest fl j = (Inr (newer (on_page view (cj_flash j) 0) (on_page view (cj_flash j) 1)), j\<lparr>cj_flash := f'\<rparr>)"
    "view f' = view (cj_flash j)"
proof -
  obtain f where f: "journal_record fl 0 j = (Inr (on_page view (cj_flash j) 0), j\<lparr>cj_flash := f\<rparr>)" "view f = view (cj_flash j)"
    using journal_record_laws [OF assms, of 0] by auto
  obtain f' where f': "journal_record fl 1 (j\<lparr>cj_flash := f\<rparr>) = (Inr (on_page view f 1), j\<lparr>cj_flash := f'\<rparr>)" "view f' = view f"
    using journal_record_laws [of fl view "j\<lparr>cj_flash := f\<rparr>" 1] assms by auto
  have "on_page view f 1 = on_page view (cj_flash j) 1" using f(2) by (simp add: on_page_def)
  then show ?thesis using that [of f'] f f' by (simp add: journal_latest_def)
qed

definition newest :: "('f \<Rightarrow> nat \<Rightarrow> u8 list) \<Rightarrow> 'f \<Rightarrow> node_config option" where
  "newest view f = map_option (\<lambda>(_, _, c). c) (newer (on_page view f 0) (on_page view f 1))"

lemma journal_load_laws:
  assumes "flash_laws fl view (cj_pages j)"
  shows "fst (journal_load fl j) = Inr (newest view (cj_flash j))"
proof -
  obtain f' where "journal_latest fl j = (Inr (newer (on_page view (cj_flash j) 0) (on_page view (cj_flash j) 1)), j\<lparr>cj_flash := f'\<rparr>)"
    using journal_latest_laws [OF assms] by blast
  then show ?thesis by (simp add: journal_load_def newest_def)
qed

text \<open>The page that is written is the one that does not hold the latest record.\<close>

lemma next_place_page: "next_place (newer a b) = (p, g) \<Longrightarrow> p < 2"
  by (auto simp: next_place_def newer_def split: option.splits if_splits prod.splits)

lemma newer_after_write:
  assumes "next_place (newer (R 0) (R 1)) = (p, g)"
  shows "newer ((R(p := Some (g, c))) 0) ((R(p := Some (g, c))) 1) = Some (p, g, c)"
  using assms by (auto simp: next_place_def newer_def split: option.splits if_splits prod.splits)

lemma newer_after_loss:
  assumes "next_place (newer (R 0) (R 1)) = (p, g)"
  shows "map_option (\<lambda>(_, _, c). c) (newer ((R(p := None)) 0) ((R(p := None)) 1)) = map_option (\<lambda>(_, _, c). c) (newer (R 0) (R 1))"
  using assms by (auto simp: next_place_def newer_def split: option.splits if_splits prod.splits)

lemma on_page_update:
  "view f' = (view f)(p := x) \<Longrightarrow> on_page view f' = (on_page view f)(p := parse_record (take RECORD_LEN x))"
  by (auto simp: on_page_def)

lemma page_image_torn: "length bytes = 316 \<Longrightarrow> n \<le> 316 \<Longrightarrow> take RECORD_LEN (page_image bytes n) = torn bytes n"
  by (simp add: page_image_def torn_def journal_sizes min_def)

lemma torn_whole: "length bytes = 316 \<Longrightarrow> torn bytes 316 = bytes"
  by (simp add: torn_def journal_sizes)

lemma unread_keeps_newest:
  assumes "next_place (newer (on_page view f 0) (on_page view f 1)) = (p, g)" "view f' = (view f)(p := x)"
    "view f' p = view f p \<or> on_page view f' p = None"
  shows "newest view f' = newest view f"
proof -
  have "view f' p = view f p \<Longrightarrow> view f' = view f" using assms(2) by auto
  then consider "view f' = view f" | "parse_record (take RECORD_LEN x) = None"
    using assms(2,3) by (auto simp: on_page_def)
  then show ?thesis
  proof cases
    case 1
    then show ?thesis by (simp add: newest_def on_page_def)
  next
    case 2
    then show ?thesis
      using on_page_update [OF assms(2)] newer_after_loss [OF assms(1)] by (simp add: newest_def)
  qed
qed

lemma write_atomic:
  assumes "config_ok c" "\<not> bad_frequency (lc_frequency_mhz (nc_lora c))" "record_bytes g c = Inr bytes"
    "next_place (newer (on_page view f 0) (on_page view f 1)) = (p, g)" "n \<le> 316" "view f' = (view f)(p := page_image bytes n)"
  shows "n = 316 \<Longrightarrow> on_page view f' p = Some (g, stored c) \<and> newest view f' = Some (stored c)"
    "newest view f' = newest view f \<or> newest view f' = Some (stored c) \<or> checksum_accident bytes n"
proof -
  note w = parse_record_whole [OF assms(1-3)]
  have on: "on_page view f' = (on_page view f)(p := parse_record (torn bytes n))"
    using on_page_update [OF assms(6)] page_image_torn [OF w(1) assms(5)] by simp
  have whole: "newest view f' = Some (stored c)" if "torn bytes n = bytes"
    using newer_after_write [OF assms(4)] by (simp add: newest_def on that w(2))
  show "n = 316 \<Longrightarrow> on_page view f' p = Some (g, stored c) \<and> newest view f' = Some (stored c)"
    using whole torn_whole [OF w(1)] w(2) by (simp add: on)
  show "newest view f' = newest view f \<or> newest view f' = Some (stored c) \<or> checksum_accident bytes n"
  proof (cases "parse_record (torn bytes n)")
    case None
    then show ?thesis using newer_after_loss [OF assms(4)] by (simp add: newest_def on)
  next
    case Some
    then have "torn bytes n = bytes \<or> checksum_accident bytes n"
      using parse_record_torn [OF assms(1-3)] assms(5) torn_whole [OF w(1)] by (cases "n = 316") auto
    then show ?thesis using whole by blast
  qed
qed

lemma torn_write_outcome:
  assumes "config_ok c" "\<not> bad_frequency (lc_frequency_mhz (nc_lora c))" "record_bytes g c = Inr bytes"
    "next_place (newer (on_page view f 0) (on_page view f 1)) = (p, g)" "n < 316" "view f' = (view f)(p := page_image bytes n)"
  shows "newest view f' = newest view f \<or> view f' p \<noteq> view f p \<and> on_page view f' p \<noteq> None \<and>
    (newest view f' = Some (stored c) \<or> checksum_accident bytes n)"
  using unread_keeps_newest [OF assms(4,6)] write_atomic(2) [OF assms(1-4) _ assms(6)] assms(5) by force

lemma write_law:
  "flash_laws fl view pages \<Longrightarrow> i < 2 \<Longrightarrow> length bytes \<le> 4096 \<Longrightarrow> view f i = replicate 4096 255 \<Longrightarrow>
   \<exists>r f'. fl_write fl (pages ! i) bytes f = (r, f') \<and> write_effect (view f) i bytes r (view f')"
  by (simp add: flash_laws_def)

text \<open>Every way a save can end: only the page it was to write has changed.\<close>

lemma save_cases:
  assumes laws: "flash_laws fl view (cj_pages j)" and ok: "config_ok c" and save: "journal_save fl c j = (r, j')"
    and pg: "next_place (newer (on_page view (cj_flash j) 0) (on_page view (cj_flash j) 1)) = (p, g)"
  obtains
    (refused) e where "r = Inl e" "bad_frequency (lc_frequency_mhz (nc_lora c))" "view (cj_flash j') = view (cj_flash j)"
  | (erase) e f X where "r = Inl e" "fl_erase_page fl (cj_pages j ! p) f = (Inl e, cj_flash j')" "view f = view (cj_flash j)"
      "view (cj_flash j') = (view (cj_flash j))(p := X)"
  | (halfway) e f bytes n where "r = Inl e" "\<not> bad_frequency (lc_frequency_mhz (nc_lora c))" "record_bytes g c = Inr bytes"
      "fl_write fl (cj_pages j ! p) bytes f = (Inl e, cj_flash j')" "view f p = replicate 4096 255" "n < 316"
      "view (cj_flash j') = (view (cj_flash j))(p := page_image bytes n)"
  | (finished) f f' bytes where "r = Inr ()" "\<not> bad_frequency (lc_frequency_mhz (nc_lora c))" "record_bytes g c = Inr bytes"
      "fl_write fl (cj_pages j ! p) bytes f = (Inr (), f')" "view (cj_flash j') = (view (cj_flash j))(p := page_image bytes 316)"
proof -
  obtain f0 where f0: "journal_latest fl j = (Inr (newer (on_page view (cj_flash j) 0) (on_page view (cj_flash j) 1)), j\<lparr>cj_flash := f0\<rparr>)"
    "view f0 = view (cj_flash j)" using journal_latest_laws [OF laws] .
  have p: "p < 2" using next_place_page [OF pg] .
  show ?thesis
  proof (cases "bad_frequency (lc_frequency_mhz (nc_lora c))")
    case True
    then have "record_bytes g c = Inl BadConfig" by (simp add: record_bytes_def Let_def encode_def journal_sizes put_at_def)
    then have "r = Inl BadConfig" "j' = j\<lparr>cj_flash := f0\<rparr>" using save f0(1) pg by (simp_all add: journal_save_def)
    then show ?thesis using refused True f0(2) by simp
  next
    case good: False
    obtain bytes where bytes: "record_bytes g c = Inr bytes" using record_bytes_fields [OF ok good, of g] by blast
    note w = parse_record_whole [OF ok good bytes]
    obtain re f1 where er: "fl_erase_page fl (cj_pages j ! p) f0 = (re, f1)" "erase_effect (view f0) p re (view f1)"
      using laws p by (auto simp: flash_laws_def) blast
    show ?thesis
    proof (cases re)
      case (Inl e)
      then have "r = Inl e" "j' = j\<lparr>cj_flash := f1\<rparr>" using save f0(1) pg bytes er(1) by (simp_all add: journal_save_def)
      moreover obtain X where "view f1 = (view (cj_flash j))(p := X)" using er(2) f0(2) Inl by (auto simp: erase_effect_def)
      ultimately show ?thesis using erase [of e f0 X] er(1) f0(2) Inl by simp
    next
      case (Inr u)
      have v1: "view f1 = (view (cj_flash j))(p := replicate 4096 255)" using er(2) f0(2) Inr by (simp add: erase_effect_def)
      obtain rw f2 where wr: "fl_write fl (cj_pages j ! p) bytes f1 = (rw, f2)" "write_effect (view f1) p bytes rw (view f2)"
        using write_law [OF laws p, of bytes f1] w(1) v1 by auto
      show ?thesis
      proof (cases rw)
        case inl: (Inl e)
        then obtain n where n: "n < 316" "view f2 = (view (cj_flash j))(p := page_image bytes n)"
          using wr(2) v1 w(1) by (auto simp: write_effect_def)
        have "r = Inl e" "j' = j\<lparr>cj_flash := f2\<rparr>"
          using save f0(1) pg bytes er(1) wr(1) Inr inl by (simp_all add: journal_save_def)
        then show ?thesis using halfway [of e bytes f1 n] wr(1) inl bytes n good v1 by simp
      next
        case inr: (Inr u')
        have v2: "view f2 = (view (cj_flash j))(p := page_image bytes 316)" using wr(2) v1 w(1) inr by (simp add: write_effect_def)
        note d = write_atomic(1) [OF ok good bytes pg _ v2]
        obtain f3 where f3: "journal_record fl p (j\<lparr>cj_flash := f2\<rparr>) = (Inr (on_page view f2 p), j\<lparr>cj_flash := f3\<rparr>)" "view f3 = view f2"
          using journal_record_laws [of fl view "j\<lparr>cj_flash := f2\<rparr>" p] laws p by auto
        have "r = Inr ()" "j' = j\<lparr>cj_flash := f3\<rparr>"
          using save f0(1) pg bytes er(1) wr(1) Inr inr f3(1) w(3) d by (simp_all add: journal_save_def journal_sizes)
        then show ?thesis using finished [of bytes f1 f2] wr(1) inr bytes good v2 f3(2) by simp
      qed
    qed
  qed
qed

lemma save_pages: "journal_save fl c j = (r, j') \<Longrightarrow> flash_laws fl view (cj_pages j) \<Longrightarrow> cj_pages j' = cj_pages j"
  by (auto simp: journal_save_def journal_latest_def journal_record_def split: prod.splits sum.splits if_splits)

text \<open>The page with the latest record is not the one that is written.\<close>

lemma latest_page_kept:
  assumes "flash_laws fl view (cj_pages j)" "config_ok c" "journal_save fl c j = (r, j')"
    "fst (journal_latest fl j) = Inr (Some (page, latest))"
  shows "view (cj_flash j') page = view (cj_flash j) page"
proof -
  obtain p g where pg: "next_place (newer (on_page view (cj_flash j) 0) (on_page view (cj_flash j) 1)) = (p, g)" by fastforce
  have "newer (on_page view (cj_flash j) 0) (on_page view (cj_flash j) 1) = Some (page, latest)"
    using journal_latest_laws [OF assms(1)] assms(4) by (metis Inr_inject fst_conv)
  then have "page \<noteq> p"
    using pg by (auto simp: next_place_def newer_def split: option.splits if_splits prod.splits)
  then show ?thesis by (cases rule: save_cases [OF assms(1-3) pg]) simp_all
qed

text \<open>
  C5. Replacing the configuration is atomic. Over a device that follows its laws, a save that
  succeeds leaves the new configuration to be loaded, and whatever a save returns, the page with the
  configuration in force before it is as it was. After a save that failed, because the device
  reported an error in the erase or in the middle of the write, the previous configuration is loaded
  (or none, if there was none), unless the other page has changed and reads as a record: then it is
  the new configuration, or the erase failed and left that record there, or the write was cut off and
  the checksums of the record and of the configuration in it both agree although its last bytes are
  missing. A save of a valid configuration succeeds whenever the device reports no error.
\<close>

theorem save_is_atomic:
  assumes "flash_laws fl view (cj_pages j)" "config_ok c" "fst (journal_load fl j) = Inr old" "journal_save fl c j = (r, j')"
  shows "(case r of Inr _ \<Rightarrow> fst (journal_load fl j') = Inr (Some (stored c))
      | Inl e \<Rightarrow> fst (journal_load fl j') = Inr old \<or>
          (\<exists>page < 2. view (cj_flash j') page \<noteq> view (cj_flash j) page \<and>
             parse_record (take RECORD_LEN (view (cj_flash j') page)) \<noteq> None \<and>
             (fst (journal_load fl j') = Inr (Some (stored c)) \<or>
              (\<exists>f. view f = view (cj_flash j) \<and> fl_erase_page fl (cj_pages j ! page) f = (Inl e, cj_flash j')) \<or>
              (\<exists>g bytes n. record_bytes g c = Inr bytes \<and> view (cj_flash j') page = page_image bytes n \<and> checksum_accident bytes n)))) \<and>
    (\<forall>page latest. fst (journal_latest fl j) = Inr (Some (page, latest)) \<longrightarrow> view (cj_flash j') page = view (cj_flash j) page) \<and>
    (\<not> bad_frequency (lc_frequency_mhz (nc_lora c)) \<and> (\<forall>a f. \<not> isl (fst (fl_erase_page fl a f))) \<and>
      (\<forall>a bs f. \<not> isl (fst (fl_write fl a bs f))) \<longrightarrow> r = Inr ())"
proof -
  obtain p g where pg: "next_place (newer (on_page view (cj_flash j) 0) (on_page view (cj_flash j) 1)) = (p, g)" by fastforce
  have p: "p < 2" using next_place_page [OF pg] .
  have laws': "flash_laws fl view (cj_pages j')" using save_pages [OF assms(4,1)] assms(1) by simp
  have old: "newest view (cj_flash j) = old" using journal_load_laws [OF assms(1)] assms(3) by simp
  note load = journal_load_laws [OF laws']
  note kept = latest_page_kept [OF assms(1,2,4)]
  from assms(1,2,4) pg show ?thesis
  proof (cases rule: save_cases)
    case (refused e)
    then have "newest view (cj_flash j') = old" using old by (simp add: newest_def on_page_def)
    then show ?thesis using refused load kept by simp
  next
    case (erase e f X)
    have "\<exists>a f. isl (fst (fl_erase_page fl a f))" using erase(2) by (metis fst_conv isl_def)
    moreover have "newest view (cj_flash j') = old \<or>
        view (cj_flash j') p \<noteq> view (cj_flash j) p \<and> on_page view (cj_flash j') p \<noteq> None"
      using unread_keeps_newest [OF pg erase(4)] old by blast
    ultimately show ?thesis using erase(1,2,3) load kept p by (auto simp: on_page_def)
  next
    case (halfway e f bytes n)
    have fail: "\<exists>a bs f. isl (fst (fl_write fl a bs f))" using halfway(4) by (metis fst_conv isl_def)
    have v: "view (cj_flash j') p = page_image bytes n" using halfway(7) by simp
    show ?thesis
      unfolding halfway(1) sum.case load on_page_def [symmetric]
      using torn_write_outcome [OF assms(2) halfway(2,3) pg halfway(6,7)] p halfway(3) v kept fail old by blast
  next
    case (finished f f' bytes)
    then show ?thesis using write_atomic(1) [OF assms(2) finished(2,3) pg _ finished(5)] load kept by simp
  qed
qed

text \<open>
  The device of the repository's tests: a memory of pages, in which a write stops with an error after
  \<open>fail_after\<close> bytes.
\<close>

definition memory_view :: "(nat \<Rightarrow> u8 list) \<Rightarrow> nat \<Rightarrow> u8 list" where
  "memory_view f i = take 4096 (f i @ replicate 4096 255)"

definition memory_flash :: "nat option \<Rightarrow> (nat \<Rightarrow> u8 list) config_flash" where
  "memory_flash fail_after = nvmc_flash
     (\<lambda>a n f. (Inr (take n (memory_view f (unat a div 4096))) :: unit + u8 list, f))
     (\<lambda>a _ f. (Inr (), f(unat a div 4096 := [])))
     (\<lambda>a bytes f. let n = (case fail_after of None \<Rightarrow> length bytes | Some k \<Rightarrow> min k (length bytes))
        in (if n \<noteq> length bytes then Inl () else Inr (),
            f(unat a div 4096 := take n bytes @ drop n (memory_view f (unat a div 4096)))))"

lemma memory_page: "i < 2 \<Longrightarrow> unat ([0, 4096 :: u32] ! i) div 4096 = i"
  by (auto simp: less_2_cases_iff)

lemma memory_view_put:
  "n \<le> length bs \<Longrightarrow> length bs \<le> 4096 \<Longrightarrow> memory_view f i = replicate 4096 255 \<Longrightarrow>
   memory_view (f(i := take n bs @ drop n (memory_view f i))) = (memory_view f)(i := page_image bs n)"
  by (rule ext) (auto simp: memory_view_def page_image_def)

definition written :: "nat option \<Rightarrow> u8 list \<Rightarrow> nat" where
  "written fail_after bytes = (case fail_after of None \<Rightarrow> length bytes | Some k \<Rightarrow> min k (length bytes))"

lemma written_le: "written fail_after bytes \<le> length bytes"
  by (simp add: written_def split: option.splits)

lemma memory_flash_write:
  "i < 2 \<Longrightarrow> fl_write (memory_flash fail_after) ([0, 4096] ! i) bytes f =
   (if written fail_after bytes \<noteq> length bytes then Inl BadCrc else Inr (),
    f(i := take (written fail_after bytes) bytes @ drop (written fail_after bytes) (memory_view f i)))"
  by (simp add: memory_flash_def nvmc_flash_def as_bad_crc_def memory_page Let_def written_def)

lemma memory_write_effect:
  assumes "length bytes \<le> 4096" "memory_view f i = replicate 4096 255"
  shows "write_effect (memory_view f) i bytes (if written fail_after bytes \<noteq> length bytes then Inl BadCrc else Inr ())
    (memory_view (f(i := take (written fail_after bytes) bytes @ drop (written fail_after bytes) (memory_view f i))))"
  unfolding memory_view_put [OF written_le assms]
  using written_le [of fail_after bytes] by (auto simp: write_effect_def dest: le_neq_implies_less)

lemma memory_flash_laws: "flash_laws (memory_flash fail_after) memory_view [0, 4096]"
proof -
  have "\<exists>r f'. fl_write (memory_flash fail_after) ([0, 4096] ! i) bytes f = (r, f') \<and>
      write_effect (memory_view f) i bytes r (memory_view f')"
    if "i < 2" "length bytes \<le> 4096" "memory_view f i = replicate 4096 255" for i bytes f
    unfolding memory_flash_write [OF that(1)] using memory_write_effect [OF that(2,3)] by blast
  moreover have "memory_view (f(i := [])) = (memory_view f)(i := replicate 4096 255)" for f i
    by (auto simp: memory_view_def)
  ultimately show ?thesis
    by (simp add: flash_laws_def) (simp add: memory_flash_def nvmc_flash_def as_bad_crc_def memory_page erase_effect_def)
qed

text \<open>A write that stops before the version of the configuration leaves nothing that reads as a record.\<close>

lemma early_stop_unread:
  assumes "config_ok c" "journal_save (memory_flash (Some k)) c j = (r, j')" "cj_pages j = [0, 4096]"
    "\<not> bad_frequency (lc_frequency_mhz (nc_lora c))" "k < 16"
  shows "isl r" "memory_view (cj_flash j') page \<noteq> memory_view (cj_flash j) page \<Longrightarrow>
    parse_record (take RECORD_LEN (memory_view (cj_flash j') page)) = None"
proof -
  obtain p g where pg: "next_place (newer (on_page memory_view (cj_flash j) 0) (on_page memory_view (cj_flash j) 1)) = (p, g)"
    by fastforce
  have p: "p < 2" using next_place_page [OF pg] .
  have laws: "flash_laws (memory_flash (Some k)) memory_view (cj_pages j)" using memory_flash_laws assms(3) by simp
  have short: "written (Some k) bytes = k" "length bytes = 316" if "record_bytes g c = Inr bytes" for bytes
    using parse_record_whole(1) [OF assms(1,4) that] assms(5) by (simp_all add: written_def)
  from laws assms(1,2) pg have "isl r \<and> (memory_view (cj_flash j') page \<noteq> memory_view (cj_flash j) page \<longrightarrow>
    parse_record (take RECORD_LEN (memory_view (cj_flash j') page)) = None)"
  proof (cases rule: save_cases)
    case (erase e f X)
    then show ?thesis by (simp add: memory_flash_def nvmc_flash_def as_bad_crc_def)
  next
    case (halfway e f bytes n)
    note b = short [OF halfway(3)]
    have "cj_flash j' = f(p := take k bytes @ drop k (memory_view f p))"
      using halfway(4) memory_flash_write [OF p, of "Some k" bytes f] b assms(3) by simp
    then have "memory_view (cj_flash j') p = page_image bytes k"
      using memory_view_put [of k bytes f p] b(2) assms(5) halfway(5) by simp
    moreover have "slice 0 4 bytes = to_le_bytes32 JOURNAL_MAGIC"
      using record_bytes_fields [OF assms(1,4), of g] halfway(3) by auto
    ultimately have "parse_record (take RECORD_LEN (memory_view (cj_flash j') p)) = None"
      using torn_early [OF b(2)] assms(5) by (simp add: page_image_torn [OF b(2)])
    moreover have "page \<noteq> p \<Longrightarrow> memory_view (cj_flash j') page = memory_view (cj_flash j) page"
      using halfway(7) by simp
    ultimately show ?thesis using halfway(1) by auto
  next
    case (finished f f' bytes)
    then show ?thesis using memory_flash_write [OF p, of "Some k" bytes f] short assms(3,5) by simp
  qed (use assms(4) in simp)
  then show "isl r" "memory_view (cj_flash j') page \<noteq> memory_view (cj_flash j) page \<Longrightarrow>
    parse_record (take RECORD_LEN (memory_view (cj_flash j') page)) = None" by simp_all
qed

theorem save_is_atomic_witness:
  "let fl = memory_flash None; torn_fl = memory_flash (Some 10);
       c = first_boot 7 (replicate 32 1) (replicate 32 2); c' = first_boot 8 (replicate 32 3) (replicate 32 4);
       j = snd (journal_save fl c \<lparr>cj_flash = (\<lambda>_. []), cj_pages = [0, 4096]\<rparr>) in
   fst (journal_load fl j) = Inr (Some c) \<and>
   isl (fst (journal_save torn_fl c' j)) \<and>
   fst (journal_load torn_fl (snd (journal_save torn_fl c' j))) = Inr (Some c)"
proof -
  define c where "c = first_boot 7 (replicate 32 1) (replicate 32 2)"
  define c' where "c' = first_boot 8 (replicate 32 3) (replicate 32 4)"
  define j0 where "j0 = \<lparr>cj_flash = (\<lambda>_. []) :: nat \<Rightarrow> u8 list, cj_pages = [0, 4096 :: u32]\<rparr>"
  obtain r j where save: "journal_save (memory_flash None) c j0 = (r, j)" by fastforce
  obtain r' j' where save': "journal_save (memory_flash (Some 10)) c' j = (r', j')" by fastforce
  have laws0: "flash_laws (memory_flash None) memory_view (cj_pages j0)" using memory_flash_laws by (simp add: j0_def)
  have pages: "cj_pages j = [0, 4096]" using save_pages [OF save laws0] by (simp add: j0_def)
  then have laws: "flash_laws (memory_flash None) memory_view (cj_pages j)"
    "flash_laws (memory_flash (Some 10)) memory_view (cj_pages j)" using memory_flash_laws by simp_all
  have c: "config_ok c" "\<not> bad_frequency (lc_frequency_mhz (nc_lora c))" "stored c = c"
    using first_boot_settled [of "replicate 32 1" "replicate 32 2" 7] by (simp_all add: settled_def c_def)
  have c': "config_ok c'" "\<not> bad_frequency (lc_frequency_mhz (nc_lora c'))"
    using first_boot_settled [of "replicate 32 3" "replicate 32 4" 8] by (simp_all add: settled_def c'_def)
  have "\<not> isl (fst (fl_erase_page (memory_flash None) a f))" "\<not> isl (fst (fl_write (memory_flash None) a bs f))" for a bs f
    by (simp_all add: memory_flash_def nvmc_flash_def as_bad_crc_def)
  then have first: "fst (journal_load (memory_flash None) j) = Inr (Some c)"
    using save_is_atomic [OF laws0 c(1) journal_load_laws [OF laws0] save] c(2,3) by auto
  then have load: "fst (journal_load (memory_flash (Some 10)) j) = Inr (Some c)"
    using journal_load_laws [OF laws(1)] journal_load_laws [OF laws(2)] by simp
  have early: "isl r'" "memory_view (cj_flash j') page \<noteq> memory_view (cj_flash j) page \<Longrightarrow>
      parse_record (take RECORD_LEN (memory_view (cj_flash j') page)) = None" for page
    using early_stop_unread [OF c'(1) save' pages c'(2)] by simp_all
  obtain e where e: "r' = Inl e" using early(1) by (cases r') auto
  have "fst (journal_load (memory_flash (Some 10)) j') = Inr (Some c)"
    using save_is_atomic [OF laws(2) c'(1) load save', THEN conjunct1, unfolded e sum.case] early(2) by metis
  then show ?thesis
    using first save save' early(1) unfolding Let_def c_def [symmetric] c'_def [symmetric] j0_def [symmetric] by simp
qed

end
