(* ===== verification/Spec2Isabelle.thy ===== *)
theory Spec2Isabelle
  imports Prelude Wire Codec Dedup Pool HopHealth Capability Downstream RadioConfig AirTime
    RadioQueue RadioSlot Etx GraphEdges GraphInv Graph Route RouteSearch RouteCost RelayTiming Reliable
    RelayIdentity Ranking BroadcastRelay UnicastRelay Crypto FloatBits Store Journal
begin

text \<open>
  Meshrustic is the firmware of a mesh router for LoRa radios, written in Rust for several
  microcontroller boards. This library models the parts of it that decide what is relayed, where
  to and when, and proves the properties that make them correct.

  \<^bold>\<open>The program.\<close> A frame received by a radio (\<open>crates/mesh-radio\<close>) is decoded
  (\<open>crates/mesh-protocol\<close>), checked against what was heard before (\<open>packet_history.rs\<close>,
  \<open>bridge.rs\<close>), kept in a slot of the packet pool (\<open>pool.rs\<close>) and relayed with one hop less
  (\<open>relay.rs\<close>). What a node hears of the others is kept in a graph (\<open>graph/edge.rs\<close>) with link
  prices (\<open>graph/etx.rs\<close>), a table of destinations behind relays (\<open>graph/downstream.rs\<close>) and a
  cache of roles and capabilities (\<open>capability.rs\<close>); from these a next hop is computed
  (\<open>graph/route.rs\<close>), and a next hop that keeps failing is avoided (\<open>hop_health.rs\<close>). A frame to
  be sent waits in the queue of its radio until the service loop may send it (\<open>slot.rs\<close>,
  \<open>queue.rs\<close>), which the share of air time of the last hour decides (\<open>airtime.rs\<close>).

  \<^bold>\<open>Theories and what they model.\<close> Paths are relative to \<open>src/crates\<close>.

  \<^item> \<open>Prelude\<close>: machine integers, searches in arrays, the locale \<open>keyed_table\<close> of tables with
    distinct keys that several components instantiate, and shared lemmas.
  \<^item> \<open>Wire\<close>: \<open>mesh-protocol\<close> header, flags and ports, and the header a relay sends
    (\<open>mesh-routing/src/relay.rs\<close>). Decoding inverts encoding; a chain of relays spends the hop
    budget.
  \<^item> \<open>Codec\<close>: \<open>protobuf.rs\<close> and the payloads of \<open>routing_ack.rs\<close>. Round trips, and that readers
    stay inside the buffer.
  \<^item> \<open>Dedup\<close>: \<open>packet_history.rs\<close> and the cache of \<open>bridge.rs\<close>. What they report and how long they
    remember.
  \<^item> \<open>Pool\<close>: \<open>pool.rs\<close>, the pool with its generation-checked handles and guards. Exclusive
    ownership, refusal of stale handles.
  \<^item> \<open>HopHealth\<close>: \<open>hop_health.rs\<close>. When a next hop is suspect.
  \<^item> \<open>Capability\<close>: \<open>capability.rs\<close>, \<open>sr_role.rs\<close>. What the cache keeps and what pruning removes.
  \<^item> \<open>Downstream\<close>: \<open>graph/downstream.rs\<close>. The cheapest relay, chains of relays, transfers.
  \<^item> \<open>Float32\<close>, \<open>RadioConfig\<close>, \<open>AirTime\<close>: single precision arithmetic with rounding,
    \<open>mesh-radio/src/config.rs\<close>, \<open>packet_time.rs\<close>, \<open>timing.rs\<close> and \<open>airtime.rs\<close>. Time on air is
    that of the LoRa formula; the duty cycle gate is exact and covers a rolling hour.
  \<^item> \<open>RadioQueue\<close>, \<open>RadioSlot\<close>: \<open>frame.rs\<close>, \<open>queue.rs\<close>, \<open>slot.rs\<close>, \<open>interface.rs\<close>. The rings refine
    lists; the service loop loses no frame and sends only when it may, with nothing received left
    to process. The driver is a record of
    functions, a parameter of the definitions.
  \<^item> \<open>Etx\<close>: \<open>graph/etx.rs\<close>, \<open>graph/placeholder.rs\<close>. A better signal never costs more.
  \<^item> \<open>GraphEdges\<close>, \<open>GraphInv\<close>, \<open>Graph\<close>: \<open>graph/edge.rs\<close>; its operations, its invariant, and what
    pruning, eviction and updates promise.
  \<^item> \<open>Route\<close>, \<open>RouteSearch\<close>, \<open>RouteCost\<close>: \<open>graph/route.rs\<close>; the operations, the search over
    arbitrary offers as a locale, and its interpretation on the graph: routes are sound and, while
    the table has room, cheapest.
  \<^item> \<open>RelayTiming\<close>: \<open>coordinated_relay.rs\<close>, \<open>relay_window.rs\<close>, \<open>channel_access.rs\<close>, \<open>qos.rs\<close> and the
    delays of \<open>routing_ack.rs\<close>. The positions handed out to relays keep apart; the channel is clear
    exactly when every hold has passed.
  \<^item> \<open>Ranking\<close>, \<open>BroadcastRelay\<close>, \<open>UnicastRelay\<close>: \<open>broadcast_relay.rs\<close>, \<open>unicast_relay.rs\<close>; the insertion
    sort both use with its contract as a locale, and the two plans. A broadcast leaves nobody
    behind and keeps the early window for routers; a unicast slot is a rank.
  \<^item> \<open>Reliable\<close>: \<open>reliable.rs\<close> and the reports of transmissions in \<open>router.rs\<close>. Retransmissions stay
    within their budget.
  \<^item> \<open>RelayIdentity\<close>: \<open>relay_identity.rs\<close>. A frame is attributed to a node that ends in its relay
    byte.
  \<^item> \<open>Crypto\<close>: \<open>mesh-crypto\<close>, \<open>mesh-radio/src/channel.rs\<close> and the keys of \<open>mesh-store\<close>, with block
    cipher, digest and curve as parameters. Packets go on the air in counter mode, byte for byte;
    direct messages decrypt to what was encrypted, and only honest ciphertexts are accepted.
  \<^item> \<open>FloatBits\<close>, \<open>Store\<close>, \<open>Journal\<close>: the configuration of a node, its record in every layout, the
    journal of two flash pages and the stores over them (\<open>mesh-store\<close>, \<open>store.rs\<close> of the board). A
    record decodes to the configuration it was made from; a save never touches the page with the
    configuration in force, and one that fails leaves that configuration or the new one unless the
    other page happens to read as a record. Of the flash only its error reports are modelled, with
    anything left on the page by a failed erase and a prefix of the bytes by a failed write.

  \<^bold>\<open>Conventions.\<close> Words of 8, 16, 32 and 64 bits are HOL words, with wrapping, checked and
  saturating operations as the source has them; counters and indices of arrays are natural
  numbers kept in range by the invariants. An array with a count is a list with a count, its live
  part the prefix. Failures are values of option and sum types. Floating point is the type \<open>f32\<close>
  of \<open>Float32\<close>: rationals rounded to nearest even, infinities and not-a-number. Loops are total
  recursive functions; where the source bounds a loop by a table size the bound is part of the
  function, and no fuel is used elsewhere.

  \<^bold>\<open>Not modelled.\<close> The router's main loop (\<open>router.rs\<close>), the neighbour graph that feeds the
  graph (\<open>neighbor_graph.rs\<close>), rate limits (\<open>rate_limit.rs\<close>), the remaining payload codecs and
  administration are for later; the third-party ciphers, digests and curves and the flash
  controller are parameters; the other board files (\<open>boards\<close>) are drivers and start-up code around hardware registers.
\<close>

end
